(* ===== verification/Lob_Prelude.thy ===== *)
theory Lob_Prelude
  imports Main "HOL-Library.Word" "HOL-Library.AList"
begin

text \<open>
  Shared vocabulary of the development: the machine types of the C++ sources, the generic
  lemmas on lists that several components use, and the two interfaces that do not belong to
  one component, \<open>transition_system\<close> (invariants of a step function over every run) and
  \<open>codec\<close> (an encoder with a decoder that undoes it).

  Conventions.  \<open>uint64_t\<close> is \<open>64 word\<close> (it wraps).  \<open>int64_t\<close> and \<open>int32_t\<close> are \<open>int\<close>: the
  program compares, copies, parses and prints these values but never adds two of them, and
  where a value is produced (\<open>parse_scaled\<close>, \<open>read_u64\<close>) it is proved to be in range.
  \<open>size_t\<close> is \<open>nat\<close>.  A \<open>std::string\<close> is a \<open>string\<close>, a list of bytes.
\<close>

section \<open>Machine types\<close>

type_synonym u64 = "64 word"
type_synonym u32 = "32 word"
type_synonym i64 = int
type_synonym i32 = int

definition INT64_MAX :: int where
  "INT64_MAX = 9223372036854775807"

definition INT64_MIN :: int where
  "INT64_MIN = - 9223372036854775808"

definition in_i64 :: "int \<Rightarrow> bool" where
  "in_i64 v \<longleftrightarrow> INT64_MIN \<le> v \<and> v \<le> INT64_MAX"

definition in_i32 :: "int \<Rightarrow> bool" where
  "in_i32 v \<longleftrightarrow> - 2147483648 \<le> v \<and> v \<le> 2147483647"

named_theorems range_defs

declare INT64_MAX_def [range_defs] INT64_MIN_def [range_defs] in_i64_def [range_defs]
  in_i32_def [range_defs]

section \<open>Lists\<close>

text \<open>A prefix survives a filter that keeps all of it.\<close>

lemma take_filter_prefix:
  assumes "\<forall>x \<in> set (take n xs). P x"
  shows "take n (filter P xs) = take n xs"
proof -
  have "filter P xs = take n xs @ filter P (drop n xs)"
    using assms by (metis append_take_drop_id filter_True filter_append)
  then show ?thesis
    by (cases "n \<le> length xs") auto
qed

lemma filter_neq_id:
  "(\<forall>x \<in> set xs. f x \<noteq> p) \<Longrightarrow> filter (\<lambda>x. f x \<noteq> p) xs = xs"
  by (simp add: filter_id_conv)

lemma distinct_map_take: "distinct (map f xs) \<Longrightarrow> distinct (map f (take n xs))"
  by (metis distinct_take take_map)

lemma set_take_subset': "x \<in> set (take n xs) \<Longrightarrow> x \<in> set xs"
  by (rule in_set_takeD)

text \<open>
  A position in a text, described by what follows it: the facts that turn index arithmetic into
  equations on suffixes.
\<close>

lemma drop_shift: "drop p s = xs @ ys \<Longrightarrow> drop (p + length xs) s = ys"
  by (metis append_eq_conv_conj add.commute drop_drop)

lemma drop_Cons_nth: "drop p s = c # cs \<Longrightarrow> p < length s \<and> s ! p = c \<and> drop (Suc p) s = cs"
  by (metis Cons_nth_drop_Suc drop_all list.inject list.simps(3) not_less)

lemma takeWhile_run: "list_all P xs \<Longrightarrow> ys = [] \<or> \<not> P (hd ys) \<Longrightarrow> takeWhile P (xs @ ys) = xs"
  by (induction xs) (auto simp: takeWhile_eq_Nil_iff)

text \<open>Texts separated by commas, the common shape of CSV lines and JSON lists.\<close>

fun commas :: "string list \<Rightarrow> string" where
  "commas [] = []"
| "commas [x] = x"
| "commas (x # y # xs) = x @ CHR '','' # commas (y # xs)"

lemma length_commas: "length (commas xs) = sum_list (map length xs) + (length xs - 1)"
  by (induction xs rule: commas.induct) simp_all

lemma sum_lengths_le: "list_all (\<lambda>x. length x \<le> k) xs \<Longrightarrow> sum_list (map length xs) \<le> k * length xs"
  by (induction xs) auto

lemma set_commas: "set (commas xs) \<subseteq> insert (CHR '','') (\<Union> (set ` set xs))"
  by (induction xs rule: commas.induct) auto

text \<open>\<open>std::getline\<close> with a delimiter until the stream ends: a last piece without delimiter counts
  unless it is empty.\<close>

fun getline_from :: "char \<Rightarrow> string \<Rightarrow> string \<Rightarrow> string list" where
  "getline_from d cur [] = (if cur = [] then [] else [cur])"
| "getline_from d cur (c # cs) =
     (if c = d then cur # getline_from d [] cs else getline_from d (cur @ [c]) cs)"

definition getline_all :: "char \<Rightarrow> string \<Rightarrow> string list" where
  "getline_all d text = getline_from d [] text"

lemma getline_from_piece: "d \<notin> set l \<Longrightarrow> getline_from d cur (l @ d # r) = (cur @ l) # getline_from d [] r"
  by (induction l arbitrary: cur) auto

lemma getline_all_pieces: "list_all (\<lambda>l. d \<notin> set l) ls \<Longrightarrow> getline_all d (concat (map (\<lambda>l. l @ [d]) ls)) = ls"
  by (induction ls) (auto simp: getline_all_def getline_from_piece)

lemma getline_from_last: "d \<notin> set l \<Longrightarrow> getline_from d cur l = (if cur @ l = [] then [] else [cur @ l])"
  by (induction l arbitrary: cur) auto

lemma getline_all_separated:
  "list_all (\<lambda>l. d \<notin> set l \<and> l \<noteq> []) (x # ps) \<Longrightarrow> getline_all d (x @ concat (map ((#) d) ps)) = x # ps"
proof (induction ps arbitrary: x)
  case (Cons p ps)
  then show ?case by (simp add: getline_all_def getline_from_piece)
qed (simp add: getline_all_def getline_from_last)

lemma getline_from_set: "x \<in> set (getline_from d cur s) \<Longrightarrow> d \<notin> set cur \<Longrightarrow> d \<notin> set x \<and> set x \<subseteq> set cur \<union> set s"
  by (induction d cur s rule: getline_from.induct) (auto split: if_splits)

section \<open>Words\<close>

text \<open>Below another word, the successor does not wrap.\<close>

lemma unat_succ_below:
  fixes a b :: "'a::len word"
  assumes "a < b"
  shows "unat (a + 1) = unat a + 1"
proof -
  have "unat a + 1 < 2 ^ LENGTH('a)"
    using assms unsigned_less [of b, where 'a = nat] unfolding word_less_nat_alt by linarith
  then show ?thesis
    by (simp add: unat_word_ariths)
qed

lemma word_le_unat: "(a::'a::len word) \<le> b \<longleftrightarrow> unat a \<le> unat b"
  by (rule word_le_nat_alt)

section \<open>Runs of a state machine\<close>

text \<open>
  A component whose operations are given by a step function: what holds of the initial state
  and is kept by every step holds after every sequence of operations.
\<close>

locale transition_system =
  fixes init :: "'s"
    and step :: "'s \<Rightarrow> 'e \<Rightarrow> 's"
    and inv :: "'s \<Rightarrow> bool"
  assumes inv_init: "inv init"
    and inv_step: "inv s \<Longrightarrow> inv (step s e)"
begin

lemma inv_run_from: "inv s \<Longrightarrow> inv (foldl step s es)"
  by (induction es arbitrary: s) (auto intro: inv_step)

lemma inv_run: "inv (foldl step init es)"
  by (rule inv_run_from [OF inv_init])

end

section \<open>Runs of a step relation\<close>

text \<open>
  The runs of a step relation with the labels of their steps, and relations with an invariant over
  the state and the labels so far.
\<close>

inductive system_run :: "('s \<Rightarrow> 'l list \<Rightarrow> 's \<Rightarrow> bool) \<Rightarrow> 's \<Rightarrow> 'l list \<Rightarrow> 's \<Rightarrow> bool"
  for step :: "'s \<Rightarrow> 'l list \<Rightarrow> 's \<Rightarrow> bool" where
  run_refl: "system_run step s [] s"
| run_step: "system_run step s ls s' \<Longrightarrow> step s' l s'' \<Longrightarrow> system_run step s (ls @ l) s''"

lemma run_single: "step s l s' \<Longrightarrow> system_run step s l s'"
  using run_step [of step s "[]" s l s'] run_refl [of step s] by simp

locale guarded_system =
  fixes step :: "'s \<Rightarrow> 'l list \<Rightarrow> 's \<Rightarrow> bool"
    and inv :: "'l list \<Rightarrow> 's \<Rightarrow> bool"
  assumes step_inv: "step s l s' \<Longrightarrow> inv ls s \<Longrightarrow> inv (ls @ l) s'"
begin

lemma run_inv_from: "system_run step s ls s' \<Longrightarrow> inv ks s \<Longrightarrow> inv (ks @ ls) s'"
proof (induction rule: system_run.induct)
  case (run_step s ls s' l s'')
  then show ?case using step_inv [of s' l s'' "ks @ ls"] by simp
qed simp

lemma run_inv: "system_run step s ls s' \<Longrightarrow> inv [] s \<Longrightarrow> inv ls s'"
  using run_inv_from [of s ls s' "[]"] by simp

end

section \<open>Codecs\<close>

text \<open>
  An encoder together with a decoder that returns the encoded value, on the values the
  encoder is used for.
\<close>

locale codec =
  fixes enc :: "'a \<Rightarrow> string"
    and dec :: "string \<Rightarrow> 'a"
    and ok :: "'a \<Rightarrow> bool"
  assumes dec_enc: "ok x \<Longrightarrow> dec (enc x) = x"
begin

lemma enc_inject: "ok x \<Longrightarrow> ok y \<Longrightarrow> enc x = enc y \<longleftrightarrow> x = y"
  by (metis dec_enc)

lemma map_dec_enc: "\<forall>x \<in> set xs. ok x \<Longrightarrow> map dec (map enc xs) = xs"
  by (induction xs) (auto simp: dec_enc)

end

end
