(* ===== verification/Lob_Types.thy ===== *)
theory Lob_Types
  imports Lob_Prelude
begin

text \<open>
  The shared types of \<open>include/types.hpp\<close>: venue, stream kind, side, timestamp and the
  fixed-point scales.
\<close>

definition kPriceScalePow :: nat where
  "kPriceScalePow = 8"

definition kQtyScalePow :: nat where
  "kQtyScalePow = 8"

definition kPriceScale :: i64 where
  "kPriceScale = 100000000"

definition kQtyScale :: i64 where
  "kQtyScale = 100000000"

datatype Venue = Spot | Usdm

datatype StreamKind = DepthDiff | Depth5 | Trade

fun venue_to_string :: "Venue \<Rightarrow> string" where
  "venue_to_string Spot = ''spot''"
| "venue_to_string Usdm = ''usdm''"

fun kind_to_string :: "StreamKind \<Rightarrow> string" where
  "kind_to_string DepthDiff = ''depth_diff''"
| "kind_to_string Depth5 = ''depth5''"
| "kind_to_string Trade = ''trade''"

fun type_letter :: "StreamKind \<Rightarrow> char" where
  "type_letter DepthDiff = CHR ''D''"
| "type_letter Depth5 = CHR ''S''"
| "type_letter Trade = CHR ''T''"

datatype Side = Bid | Ask | NA

fun side_char :: "Side \<Rightarrow> char" where
  "side_char Bid = CHR ''B''"
| "side_char Ask = CHR ''S''"
| "side_char NA = CHR ''N''"

record Timestamp =
  tsec :: i64
  tnsec :: i32

definition zero_ts :: Timestamp where
  "zero_ts = \<lparr>tsec = 0, tnsec = 0\<rparr>"

text \<open>The scales are the powers of ten their exponents name.\<close>

lemma scales_are_powers: "kPriceScale = 10 ^ kPriceScalePow" "kQtyScale = 10 ^ kQtyScalePow"
  by (simp_all add: kPriceScale_def kPriceScalePow_def kQtyScale_def kQtyScalePow_def)

end
