(* ===== verification/Top_Cache.thy ===== *)
theory Top_Cache
  imports Lob_Types
begin

text \<open>
  The sorted top cache of one side of the book (\<open>OrderBook::TopCache\<close> of
  \<open>include/order_book.hpp\<close> and the cache functions of \<open>src/order_book.cpp\<close>).  The model keeps
  the array of 64 slots and the shifting loops.  The lemmas show that each routine refines
  one on plain lists (\<open>mk_cache\<close> embeds a list in the array), and that inserting into the
  cache commutes with cutting the fully sorted side.

  An \<open>std::unordered_map<int64_t,int64_t>\<close> is an association list with distinct keys: the
  list is the map together with the order in which a range-for visits it.  The standard
  leaves that order open; \<open>rebuild_cache_eq\<close> shows that the code does not depend on it.
\<close>

section \<open>Data\<close>

record Level =
  price :: i64
  qty :: i64

definition zero_level :: Level where
  "zero_level = \<lparr>price = 0, qty = 0\<rparr>"

type_synonym price_map = "(i64 \<times> i64) list"

text \<open>\<open>std::array<Level, 64>\<close> and the number of slots in use.\<close>

record TopCache =
  tc_levels :: "Level list"
  tc_count :: nat

definition kTopCache :: nat where
  "kTopCache = 64"

definition better_bid :: "i64 \<Rightarrow> i64 \<Rightarrow> bool" where
  "better_bid a b \<longleftrightarrow> a > b"

definition better_ask :: "i64 \<Rightarrow> i64 \<Rightarrow> bool" where
  "better_ask a b \<longleftrightarrow> a < b"

section \<open>The top cache\<close>

definition fresh_cache :: TopCache where
  "fresh_cache = \<lparr>tc_levels = replicate 64 zero_level, tc_count = 0\<rparr>"

definition clear_cache :: "TopCache \<Rightarrow> TopCache" where
  "clear_cache c = c\<lparr>tc_count := 0, tc_levels := map (\<lambda>_. zero_level) (tc_levels c)\<rparr>"

text \<open>\<open>for (j = i + 1; j < count; ++j) levels[j - 1] = levels[j];\<close>\<close>

function shift_left :: "nat \<Rightarrow> nat \<Rightarrow> Level list \<Rightarrow> Level list" where
  "shift_left j n ls = (if j < n then shift_left (Suc j) n (ls[j - 1 := ls ! j]) else ls)"
  by pat_completeness auto
termination
  by (relation "measure (\<lambda>(j, n, ls). n - j)") auto

function remove_loop :: "nat \<Rightarrow> TopCache \<Rightarrow> i64 \<Rightarrow> TopCache \<times> bool" where
  "remove_loop i c p =
     (if i < tc_count c then
        if price (tc_levels c ! i) \<noteq> p then remove_loop (Suc i) c p
        else
          let ls = shift_left (Suc i) (tc_count c) (tc_levels c);
              n = tc_count c - 1
          in (c\<lparr>tc_levels := ls[n := zero_level], tc_count := n\<rparr>, i < 5)
      else (c, False))"
  by pat_completeness auto
termination
  by (relation "measure (\<lambda>(i, c, p). tc_count c - i)") auto

definition remove_cache_price :: "TopCache \<Rightarrow> i64 \<Rightarrow> TopCache \<times> bool" where
  "remove_cache_price c p = remove_loop 0 c p"

text \<open>\<open>while (pos < count && better(levels[pos].price, l.price)) ++pos;\<close>\<close>

function find_pos :: "(i64 \<Rightarrow> i64 \<Rightarrow> bool) \<Rightarrow> TopCache \<Rightarrow> i64 \<Rightarrow> nat \<Rightarrow> nat" where
  "find_pos better c p pos =
     (if pos < tc_count c \<and> better (price (tc_levels c ! pos)) p
      then find_pos better c p (Suc pos) else pos)"
  by pat_completeness auto
termination
  by (relation "measure (\<lambda>(better, c, p, pos). tc_count c - pos)") auto

text \<open>\<open>for (j = limit; j > pos; --j) levels[j] = levels[j - 1];\<close>\<close>

fun shift_right :: "nat \<Rightarrow> nat \<Rightarrow> Level list \<Rightarrow> Level list" where
  "shift_right pos 0 ls = ls"
| "shift_right pos (Suc j) ls =
     (if Suc j > pos then shift_right pos j (ls[Suc j := ls ! j]) else ls)"

text \<open>
  The bodies of \<open>upsert_bid_cache\<close> and \<open>upsert_ask_cache\<close> differ only in the comparison.
\<close>

definition upsert_cache :: "(i64 \<Rightarrow> i64 \<Rightarrow> bool) \<Rightarrow> TopCache \<Rightarrow> Level \<Rightarrow> TopCache" where
  "upsert_cache better c l =
     (if tc_count c = kTopCache \<and> \<not> better (price l) (price (tc_levels c ! (kTopCache - 1)))
      then c
      else
        let pos = find_pos better c (price l) 0;
            limit = min (tc_count c) (kTopCache - 1);
            ls = shift_right pos limit (tc_levels c)
        in c\<lparr>tc_levels := ls[pos := l],
             tc_count := (if tc_count c < kTopCache then tc_count c + 1 else tc_count c)\<rparr>)"

definition upsert_bid_cache :: "TopCache \<Rightarrow> Level \<Rightarrow> TopCache" where
  "upsert_bid_cache = upsert_cache better_bid"

definition upsert_ask_cache :: "TopCache \<Rightarrow> Level \<Rightarrow> TopCache" where
  "upsert_ask_cache = upsert_cache better_ask"

definition rebuild_cache :: "(TopCache \<Rightarrow> Level \<Rightarrow> TopCache) \<Rightarrow> TopCache \<Rightarrow> price_map \<Rightarrow> TopCache" where
  "rebuild_cache upsert c m =
     foldl (\<lambda>c kv. upsert c \<lparr>price = fst kv, qty = snd kv\<rparr>) (clear_cache c) m"

section \<open>Reference definitions on lists\<close>

text \<open>
  The abstract view of a cache is the list of its occupied slots.  \<open>mk_cache\<close> goes the other
  way: unused slots hold \<open>Level{0, 0}\<close>, as every routine leaves them.
\<close>

definition mk_cache :: "Level list \<Rightarrow> TopCache" where
  "mk_cache xs = \<lparr>tc_levels = xs @ replicate (64 - length xs) zero_level, tc_count = length xs\<rparr>"

definition cached :: "TopCache \<Rightarrow> Level list" where
  "cached c = take (tc_count c) (tc_levels c)"

fun insert_level :: "(i64 \<Rightarrow> i64 \<Rightarrow> bool) \<Rightarrow> Level \<Rightarrow> Level list \<Rightarrow> Level list" where
  "insert_level better l [] = [l]"
| "insert_level better l (x # xs) =
     (if better (price x) (price l) then x # insert_level better l xs else l # x # xs)"

definition drop_price :: "i64 \<Rightarrow> Level list \<Rightarrow> Level list" where
  "drop_price p xs = filter (\<lambda>l. price l \<noteq> p) xs"

definition level_of :: "i64 \<times> i64 \<Rightarrow> Level" where
  "level_of kv = \<lparr>price = fst kv, qty = snd kv\<rparr>"

text \<open>The whole side of a book, best price first.\<close>

definition sorted_side :: "(i64 \<Rightarrow> i64 \<Rightarrow> bool) \<Rightarrow> price_map \<Rightarrow> Level list" where
  "sorted_side better m = foldl (\<lambda>xs kv. insert_level better (level_of kv) xs) [] m"

abbreviation ordered :: "(i64 \<Rightarrow> i64 \<Rightarrow> bool) \<Rightarrow> Level list \<Rightarrow> bool" where
  "ordered better xs \<equiv> sorted_wrt better (map price xs)"

text \<open>
  The invariant that ties a side of the book to its cache: the cache is sorted, holds levels of
  the map only, and its first five levels are the five best of the map.  The sixth and later
  levels need not be the next best ones: after a deletion below the fifth level the cache is
  not refilled, and a later insertion may then append a level that skips uncached ones.
\<close>

definition side_inv :: "(i64 \<Rightarrow> i64 \<Rightarrow> bool) \<Rightarrow> price_map \<Rightarrow> TopCache \<Rightarrow> bool" where
  "side_inv better m c \<longleftrightarrow>
     distinct (map fst m) \<and> (\<forall>kv \<in> set m. snd kv \<noteq> 0) \<and>
     c = mk_cache (cached c) \<and> length (cached c) \<le> 64 \<and>
     ordered better (cached c) \<and> set (cached c) \<subseteq> level_of ` set m \<and>
     take 5 (cached c) = take 5 (sorted_side better m)"

text \<open>
  What a row promises of one side: the \<open>n\<close> best levels of the price map (all of them if it has
  fewer), best first.
\<close>

definition top_levels :: "(i64 \<Rightarrow> i64 \<Rightarrow> bool) \<Rightarrow> nat \<Rightarrow> (i64 \<rightharpoonup> i64) \<Rightarrow> Level list \<Rightarrow> bool" where
  "top_levels better n m xs \<longleftrightarrow>
     ordered better xs \<and> (\<forall>l \<in> set xs. m (price l) = Some (qty l)) \<and>
     length xs = min n (card (dom m)) \<and>
     (\<forall>p \<in> dom m. p \<notin> price ` set xs \<longrightarrow> (\<forall>l \<in> set xs. better (price l) p))"

named_theorems cache_refines

lemma level_of_sel [simp]: "price (level_of kv) = fst kv" "qty (level_of kv) = snd kv"
  by (simp_all add: level_of_def)

lemma level_of_price_qty [simp]: "level_of (price l, qty l) = l"
  by (simp add: level_of_def)

lemma level_of_inject [simp]: "level_of a = level_of b \<longleftrightarrow> a = b"
  by (auto simp: level_of_def prod_eq_iff)

lemma cached_mk_cache [simp]: "cached (mk_cache xs) = xs"
  by (simp add: cached_def mk_cache_def)

lemma tc_count_mk_cache [simp]: "tc_count (mk_cache xs) = length xs"
  by (simp add: mk_cache_def)

lemma tc_levels_mk_cache:
  "tc_levels (mk_cache xs) = xs @ replicate (64 - length xs) zero_level"
  by (simp add: mk_cache_def)

lemma mk_cache_inject [simp]: "mk_cache xs = mk_cache ys \<longleftrightarrow> xs = ys"
  by (metis cached_mk_cache)

lemma fresh_cache_eq [cache_refines]: "fresh_cache = mk_cache []"
  by (simp add: fresh_cache_def mk_cache_def)

lemma clear_cache_eq [cache_refines]: "length xs \<le> 64 \<Longrightarrow> clear_cache (mk_cache xs) = mk_cache []"
  by (simp add: clear_cache_def mk_cache_def map_replicate_const flip: replicate_add)

lemma nth_mk_cache: "i < length xs \<Longrightarrow> tc_levels (mk_cache xs) ! i = xs ! i"
  by (simp add: mk_cache_def nth_append)

lemma insert_level_eq:
  "insert_level better l xs =
     takeWhile (\<lambda>x. better (price x) (price l)) xs @ l # dropWhile (\<lambda>x. better (price x) (price l)) xs"
  by (induction xs) auto

lemma set_insert_level [simp]: "set (insert_level better l xs) = insert l (set xs)"
  by (induction xs) auto

lemma length_insert_level [simp]: "length (insert_level better l xs) = Suc (length xs)"
  by (induction xs) auto

lemma set_drop_price [simp]: "set (drop_price p xs) = {l \<in> set xs. price l \<noteq> p}"
  by (auto simp: drop_price_def)

lemma side_invE:
  assumes "side_inv better m c"
  obtains xs where "c = mk_cache xs" "length xs \<le> 64" "ordered better xs"
    "set xs \<subseteq> level_of ` set m" "take 5 xs = take 5 (sorted_side better m)"
    "distinct (map fst m)" "\<forall>kv \<in> set m. snd kv \<noteq> 0"
  using assms unfolding side_inv_def by blast

lemma side_inv_mk_cache:
  "side_inv better m (mk_cache xs) \<longleftrightarrow>
     distinct (map fst m) \<and> (\<forall>kv \<in> set m. snd kv \<noteq> 0) \<and> length xs \<le> 64 \<and>
     ordered better xs \<and> set xs \<subseteq> level_of ` set m \<and> take 5 xs = take 5 (sorted_side better m)"
  by (simp add: side_inv_def)

lemma set_alist_update:
  "distinct (map fst m) \<Longrightarrow> set (AList.update p q m) = insert (p, q) {kv \<in> set m. fst kv \<noteq> p}"
  by (induction m) (auto simp: image_iff)

lemma sorted_side_Nil [simp]: "sorted_side better [] = []"
  by (simp add: sorted_side_def)

lemma sorted_side_snoc [simp]:
  "sorted_side better (m @ [kv]) = insert_level better (level_of kv) (sorted_side better m)"
  by (simp add: sorted_side_def)

lemma set_sorted_side: "set (sorted_side better m) = level_of ` set m"
  by (induction m rule: rev_induct) auto

lemma length_sorted_side [simp]: "length (sorted_side better m) = length m"
  by (induction m rule: rev_induct) auto

text \<open>The first \<open>n\<close> levels after an insertion depend on the first \<open>n\<close> levels only.\<close>

lemma take_insert_level:
  "take n (insert_level better l (take n xs)) = take n (insert_level better l xs)"
proof (induction xs arbitrary: n)
  case (Cons x xs)
  then show ?case by (cases n) (auto simp: take_Cons')
qed simp

lemma take_drop_price_id:
  "p \<notin> price ` set (take n xs) \<Longrightarrow> take n (drop_price p xs) = take n xs"
  unfolding drop_price_def by (rule take_filter_prefix) auto

lemma drop_price_length: "length xs \<le> k \<Longrightarrow> length (drop_price p xs) \<le> k"
  unfolding drop_price_def using length_filter_le le_trans by blast

section \<open>The array loops\<close>

declare shift_left.simps [simp del] remove_loop.simps [simp del] find_pos.simps [simp del]

lemma shift_left_eq:
  assumes "0 < j" "j \<le> n" "n \<le> length ls"
  shows "shift_left j n ls = take (j - 1) ls @ drop j (take n ls) @ drop (n - 1) ls"
  using assms
proof (induction j n ls rule: shift_left.induct)
  case (1 j n ls)
  show ?case
  proof (cases "j < n")
    case True
    let ?ls = "ls[j - 1 := ls ! j]"
    have "shift_left j n ls = take j ?ls @ drop (Suc j) (take n ?ls) @ drop (n - 1) ?ls"
      using True "1" by (simp add: shift_left.simps [of j n ls])
    also have "take j ?ls = take (j - 1) ls @ [ls ! j]"
      using True "1.prems" by (cases j) (simp_all add: take_Suc_conv_app_nth)
    also have "drop (Suc j) (take n ?ls) = drop (Suc j) (take n ls)"
      using True "1.prems" by (simp add: take_update_swap drop_update_swap)
    also have "drop (n - 1) ?ls = drop (n - 1) ls"
      using True "1.prems" by simp
    finally show ?thesis
      using True "1.prems" by (simp add: Cons_nth_drop_Suc [of j "take n ls", symmetric])
  next
    case False
    with "1.prems" have "j = n" by simp
    with "1.prems" show ?thesis
      by (simp add: shift_left.simps [of n n ls])
  qed
qed

lemma shift_right_eq:
  assumes "pos \<le> j" "j < length ls"
  shows "shift_right pos j ls = take (Suc pos) ls @ drop pos (take j ls) @ drop (Suc j) ls"
  using assms
proof (induction j arbitrary: ls)
  case 0
  then show ?case
    using append_take_drop_id [of "Suc 0" ls] by simp
next
  case (Suc j)
  show ?case
  proof (cases "pos = Suc j")
    case True
    with Suc.prems show ?thesis by simp
  next
    case False
    let ?ls = "ls[Suc j := ls ! j]"
    from False Suc.prems have "pos \<le> j" by simp
    then have "shift_right pos (Suc j) ls = take (Suc pos) ?ls @ drop pos (take j ?ls) @ drop (Suc j) ?ls"
      using Suc by simp
    also have "drop (Suc j) ?ls = ls ! j # drop (Suc (Suc j)) ls"
      using Suc.prems by (simp add: Cons_nth_drop_Suc [of "Suc j" ?ls, symmetric])
    also have "take (Suc pos) ?ls = take (Suc pos) ls"
      using \<open>pos \<le> j\<close> by simp
    also have "take j ?ls = take j ls"
      by simp
    finally show ?thesis
      using \<open>pos \<le> j\<close> Suc.prems by (simp add: take_Suc_conv_app_nth)
  qed
qed

lemma find_pos_eq:
  assumes "pos \<le> length xs"
  shows "find_pos better (mk_cache xs) p pos =
    pos + length (takeWhile (\<lambda>x. better (price x) p) (drop pos xs))"
  using assms
proof (induction "length xs - pos" arbitrary: pos)
  case 0
  then show ?case by (simp add: find_pos.simps)
next
  case (Suc d)
  then have "pos < length xs" by simp
  with Suc show ?case
    by (simp add: find_pos.simps [of _ _ _ pos] nth_mk_cache Cons_nth_drop_Suc [symmetric])
qed

section \<open>Refinement of the cache routines\<close>

lemma remove_slot_eq:
  assumes "length xs \<le> 64" "k < length xs"
  shows "(shift_left (Suc k) (length xs) (tc_levels (mk_cache xs)))[length xs - 1 := zero_level]
    = tc_levels (mk_cache (take k xs @ drop (Suc k) xs))"
proof -
  let ?z = "replicate (64 - length xs) zero_level"
  let ?ys = "take k xs @ drop (Suc k) xs"
  have "drop (length xs - 1) (xs @ ?z) = last xs # ?z"
    using assms(2) by (cases xs rule: rev_cases) auto
  then have "shift_left (Suc k) (length xs) (xs @ ?z) = ?ys @ last xs # ?z"
    using assms by (simp add: shift_left_eq)
  moreover have "length xs - 1 = length ?ys"
    using assms(2) by simp
  ultimately have "(shift_left (Suc k) (length xs) (xs @ ?z))[length xs - 1 := zero_level]
      = ?ys @ zero_level # ?z"
    by (simp only: list_update_length)
  moreover have "64 - length ?ys = Suc (64 - length xs)"
    using assms by simp
  ultimately show ?thesis
    by (simp only: tc_levels_mk_cache replicate_Suc)
qed

lemma remove_loop_eq:
  assumes "length xs \<le> 64" "i \<le> length (takeWhile (\<lambda>l. price l \<noteq> p) xs)"
  shows "remove_loop i (mk_cache xs) p =
    (let k = length (takeWhile (\<lambda>l. price l \<noteq> p) xs)
     in if k < length xs then (mk_cache (take k xs @ drop (Suc k) xs), k < 5)
        else (mk_cache xs, False))"
  using assms
proof (induction "length (takeWhile (\<lambda>l. price l \<noteq> p) xs) - i" arbitrary: i)
  case 0
  let ?k = "length (takeWhile (\<lambda>l. price l \<noteq> p) xs)"
  from 0 have i: "i = ?k" by simp
  show ?case
  proof (cases "?k < length xs")
    case True
    then have "price (xs ! ?k) = p"
      using nth_length_takeWhile by blast
    with True i 0 remove_slot_eq [of xs ?k] show ?thesis
      by (simp add: remove_loop.simps [of ?k] nth_mk_cache Let_def)
  next
    case False
    with i show ?thesis
      by (simp add: remove_loop.simps [of ?k])
  qed
next
  case (Suc d)
  let ?k = "length (takeWhile (\<lambda>l. price l \<noteq> p) xs)"
  from Suc.hyps(2) have less: "i < ?k" by simp
  then have "xs ! i \<in> set (takeWhile (\<lambda>l. price l \<noteq> p) xs)"
    by (metis nth_mem takeWhile_nth)
  then have "price (xs ! i) \<noteq> p"
    by (blast dest: set_takeWhileD)
  moreover have "i < length xs"
    using less length_takeWhile_le [of "\<lambda>l. price l \<noteq> p" xs] by linarith
  ultimately have "remove_loop i (mk_cache xs) p = remove_loop (Suc i) (mk_cache xs) p"
    by (subst remove_loop.simps) (simp add: nth_mk_cache)
  also have "\<dots> = (let k = ?k in if k < length xs
      then (mk_cache (take k xs @ drop (Suc k) xs), k < 5) else (mk_cache xs, False))"
    using Suc.hyps(2) Suc.prems less by (intro Suc.hyps(1)) linarith+
  finally show ?case .
qed

lemma takeWhile_price_split:
  assumes "length (takeWhile (\<lambda>l. price l \<noteq> p) xs) < length xs" "distinct (map price xs)"
  defines "k \<equiv> length (takeWhile (\<lambda>l. price l \<noteq> p) xs)"
  shows "take k xs @ drop (Suc k) xs = drop_price p xs"
    and "k < n \<longleftrightarrow> p \<in> price ` set (take n xs)"
proof -
  have k: "k < length xs" "price (xs ! k) = p"
    using assms(1) nth_length_takeWhile [OF assms(1)] by (simp_all add: k_def)
  have split: "xs = take k xs @ xs ! k # drop (Suc k) xs"
    using k(1) by (rule id_take_nth_drop)
  have "distinct (map price (take k xs @ xs ! k # drop (Suc k) xs))"
    using assms(2) split by simp
  then have d: "p \<notin> price ` set (take k xs)" "p \<notin> price ` set (drop (Suc k) xs)"
    using k(2) by auto
  have f: "filter (\<lambda>l. price l \<noteq> p) (take k xs) = take k xs"
      "filter (\<lambda>l. price l \<noteq> p) (drop (Suc k) xs) = drop (Suc k) xs"
    using d by (auto intro!: filter_neq_id)
  have "drop_price p xs = drop_price p (take k xs @ xs ! k # drop (Suc k) xs)"
    using split by simp
  also have "\<dots> = take k xs @ drop (Suc k) xs"
    using f k(2) by (simp add: drop_price_def)
  finally show "take k xs @ drop (Suc k) xs = drop_price p xs" ..
  show "k < n \<longleftrightarrow> p \<in> price ` set (take n xs)"
  proof
    assume "k < n"
    then have "xs ! k \<in> set (take n xs)"
      using k(1) by (auto simp: in_set_conv_nth intro!: exI [of _ k])
    then show "p \<in> price ` set (take n xs)"
      using k(2) by auto
  next
    assume "p \<in> price ` set (take n xs)"
    then show "k < n"
      using d(1) set_take_subset_set_take [of n k xs] by (meson image_mono in_mono not_le)
  qed
qed

text \<open>
  \<open>remove_cache_price\<close> deletes the level with that price and reports whether it was one of
  the five that rows show.
\<close>

lemma remove_cache_price_eq [cache_refines]:
  assumes "length xs \<le> 64" "distinct (map price xs)"
  shows "remove_cache_price (mk_cache xs) p =
    (mk_cache (drop_price p xs), p \<in> price ` set (take 5 xs))"
proof (cases "length (takeWhile (\<lambda>l. price l \<noteq> p) xs) < length xs")
  case True
  then show ?thesis
    using assms takeWhile_price_split [OF True assms(2)]
    by (simp add: remove_cache_price_def remove_loop_eq Let_def)
next
  case False
  then have "takeWhile (\<lambda>l. price l \<noteq> p) xs = xs"
    by (metis le_neq_implies_less length_takeWhile_le takeWhile_eq_take take_all_iff order_refl)
  then have "\<forall>l \<in> set xs. price l \<noteq> p"
    by (simp add: takeWhile_eq_all_conv)
  with False assms(1) show ?thesis
    by (auto simp: remove_cache_price_def remove_loop_eq drop_price_def filter_neq_id
        dest: in_set_takeD)
qed

text \<open>\<open>upsert_*_cache\<close> while a slot is free: a sorted insertion.\<close>

lemma upsert_cache_free:
  assumes "length xs < 64"
  shows "upsert_cache better (mk_cache xs) l = mk_cache (insert_level better l xs)"
proof -
  let ?W = "takeWhile (\<lambda>x. better (price x) (price l)) xs"
  let ?D = "dropWhile (\<lambda>x. better (price x) (price l)) xs"
  let ?z = "replicate (64 - length xs) zero_level"
  have xs: "xs = ?W @ ?D" by simp
  have z: "?z = zero_level # replicate (63 - length xs) zero_level"
  proof -
    have "64 - length xs = Suc (63 - length xs)" using assms by simp
    then show ?thesis by simp
  qed
  have le: "length ?W \<le> length xs" by (rule length_takeWhile_le)
  have d: "drop (length ?W) xs = ?D" "take (length ?W) xs = ?W"
    by (metis append_eq_conv_conj takeWhile_dropWhile_id)+
  have "shift_right (length ?W) (length xs) (xs @ ?z)
      = take (Suc (length ?W)) (xs @ ?z) @ ?D @ replicate (63 - length xs) zero_level"
    using assms le by (subst shift_right_eq) (simp_all add: z d)
  moreover have "take (Suc (length ?W)) (xs @ ?z) = ?W @ [(xs @ ?z) ! length ?W]"
    using le assms d by (subst take_Suc_conv_app_nth) (simp_all)
  ultimately have "(shift_right (length ?W) (length xs) (xs @ ?z))[length ?W := l]
      = ?W @ l # ?D @ replicate (63 - length xs) zero_level"
    by (simp only: append_assoc append.simps list_update_length)
  moreover have "length ?W + length ?D = length xs"
    by (metis length_append takeWhile_dropWhile_id)
  ultimately show ?thesis
    using assms le
    by (simp add: upsert_cache_def kTopCache_def find_pos_eq Let_def insert_level_eq)
      (simp add: mk_cache_def)
qed

text \<open>When all 64 slots are taken, a level better than the last one pushes that one out.\<close>

lemma upsert_cache_full:
  assumes "length xs = 64" and front: "length (takeWhile (\<lambda>x. better (price x) (price l)) xs) < 64"
    and "better (price l) (price (xs ! 63))"
  shows "upsert_cache better (mk_cache xs) l = mk_cache (take 64 (insert_level better l xs))"
proof -
  let ?W = "takeWhile (\<lambda>x. better (price x) (price l)) xs"
  let ?D = "dropWhile (\<lambda>x. better (price x) (price l)) xs"
  have d: "drop (length ?W) xs = ?D" "take (length ?W) xs = ?W"
    by (metis append_eq_conv_conj takeWhile_dropWhile_id)+
  have "shift_right (length ?W) 63 xs
      = take (Suc (length ?W)) xs @ take (63 - length ?W) ?D"
    using assms by (subst shift_right_eq) (simp_all add: d drop_take)
  moreover have "take (Suc (length ?W)) xs = ?W @ [xs ! length ?W]"
    using assms d by (subst take_Suc_conv_app_nth) simp_all
  ultimately have shift: "(shift_right (length ?W) 63 xs)[length ?W := l]
      = ?W @ l # take (63 - length ?W) ?D"
    by (simp only: append_assoc append.simps list_update_length)
  have new: "mk_cache (take 64 (insert_level better l xs))
      = \<lparr>tc_levels = take 64 (insert_level better l xs), tc_count = 64\<rparr>"
    using assms(1) by (simp add: mk_cache_def)
  have "take 64 (insert_level better l xs) = ?W @ l # take (63 - length ?W) ?D"
  proof -
    have "64 - length ?W = Suc (63 - length ?W)" using front by simp
    then show ?thesis using front by (simp add: insert_level_eq)
  qed
  then show ?thesis
    unfolding new using assms shift
    by (simp add: upsert_cache_def kTopCache_def find_pos_eq Let_def nth_mk_cache)
      (simp add: mk_cache_def)
qed

section \<open>Price priority\<close>

text \<open>
  What the two comparisons \<open>better_bid\<close> and \<open>better_ask\<close> promise the cache: a strict total
  order on prices.  Everything about one side of the book is proved from it once.
\<close>

locale price_priority =
  fixes better :: "i64 \<Rightarrow> i64 \<Rightarrow> bool"
  assumes better_irrefl: "\<not> better a a"
    and better_trans: "better a b \<Longrightarrow> better b c \<Longrightarrow> better a c"
    and better_total: "a \<noteq> b \<Longrightarrow> better a b \<or> better b a"
begin

lemma better_asym: "better a b \<Longrightarrow> \<not> better b a"
  using better_irrefl better_trans by blast

lemma ordered_distinct: "ordered better xs \<Longrightarrow> distinct (map price xs)"
  by (induction xs) (auto simp: better_irrefl image_iff)

lemma ordered_take: "ordered better xs \<Longrightarrow> ordered better (take n xs)"
  by (simp add: take_map [symmetric] sorted_wrt_take)

lemma ordered_drop_price: "ordered better xs \<Longrightarrow> ordered better (drop_price p xs)"
  by (induction xs) (auto simp: drop_price_def)

lemma ordered_insert_level:
  "ordered better xs \<Longrightarrow> price l \<notin> price ` set xs \<Longrightarrow> ordered better (insert_level better l xs)"
proof (induction xs)
  case (Cons x xs)
  then have "\<not> better (price x) (price l) \<Longrightarrow> better (price l) (price x)"
    using better_total [of "price l" "price x"] by auto
  with Cons show ?case
    by (auto dest: better_trans)
qed simp

lemma ordered_unique:
  "ordered better xs \<Longrightarrow> ordered better ys \<Longrightarrow> set xs = set ys \<Longrightarrow> xs = ys"
proof (induction xs arbitrary: ys)
  case (Cons x xs)
  then obtain y ys' where ys: "ys = y # ys'"
    by (cases ys) auto
  have "x = y"
  proof (rule ccontr)
    assume "x \<noteq> y"
    with Cons.prems(3) ys have "x \<in> set ys'" "y \<in> set xs" by auto
    with Cons.prems(1,2) ys have "better (price y) (price x)" "better (price x) (price y)" by auto
    then show False using better_asym by blast
  qed
  moreover have "x \<notin> set xs" "y \<notin> set ys'"
    using Cons.prems(1,2) ys better_irrefl by auto
  ultimately have "set xs = set ys'"
    using Cons.prems(3) ys by auto
  with Cons ys \<open>x = y\<close> show ?case by simp
qed simp

lemma takeWhile_better_full:
  assumes "ordered better xs" "xs \<noteq> []" "better (price (last xs)) (price l)"
  shows "takeWhile (\<lambda>x. better (price x) (price l)) xs = xs"
proof -
  have "better (price x) (price l)" if "x \<in> set xs" for x
  proof -
    have "xs = butlast xs @ [last xs]" using assms(2) by simp
    then have "ordered better (butlast xs @ [last xs])" using assms(1) by simp
    then have "x = last xs \<or> better (price x) (price (last xs))"
      using that assms(2) by (cases xs rule: rev_cases) (auto simp: sorted_wrt_append)
    then show ?thesis using assms(3) better_trans by blast
  qed
  then show ?thesis by (simp add: takeWhile_eq_all_conv)
qed

text \<open>On a sorted cache without that price, an upsert is a sorted insertion cut at 64.\<close>

lemma upsert_cache_eq:
  assumes "length xs \<le> 64" "ordered better xs" "price l \<notin> price ` set xs"
  shows "upsert_cache better (mk_cache xs) l = mk_cache (take 64 (insert_level better l xs))"
proof (cases "length xs < 64")
  case True
  then show ?thesis by (simp add: upsert_cache_free)
next
  case False
  with assms(1) have len: "length xs = 64" by simp
  then have ne: "xs \<noteq> []" by auto
  then have last: "xs \<noteq> []" "last xs = xs ! 63" using len by (simp_all add: last_conv_nth)
  show ?thesis
  proof (cases "better (price l) (price (xs ! 63))")
    case True
    then have "\<not> better (price (xs ! 63)) (price l)" by (rule better_asym)
    moreover have "xs ! 63 \<in> set xs"
      using len by simp
    ultimately have "takeWhile (\<lambda>x. better (price x) (price l)) xs \<noteq> xs"
      unfolding takeWhile_eq_all_conv by blast
    then have "length (takeWhile (\<lambda>x. better (price x) (price l)) xs) \<noteq> length xs"
      by (metis takeWhile_eq_take take_all_iff order_refl)
    then have "length (takeWhile (\<lambda>x. better (price x) (price l)) xs) < 64"
      using len length_takeWhile_le [of "\<lambda>x. better (price x) (price l)" xs] by linarith
    with len True show ?thesis by (intro upsert_cache_full)
  next
    case False
    moreover have "price l \<noteq> price (xs ! 63)"
      using assms(3) last by (metis image_eqI last_in_set)
    ultimately have "better (price (last xs)) (price l)"
      using better_total last(2) by auto
    then have "takeWhile (\<lambda>x. better (price x) (price l)) xs = xs"
      using takeWhile_better_full assms(2) last(1) by blast
    then have "insert_level better l xs = xs @ l # dropWhile (\<lambda>x. better (price x) (price l)) xs"
      unfolding insert_level_eq by (simp only:)
    then have "take 64 (insert_level better l xs) = xs"
      using len by simp
    with False len show ?thesis
      by (simp add: upsert_cache_def kTopCache_def nth_mk_cache)
  qed
qed

lemma sorted_side_ordered: "distinct (map fst m) \<Longrightarrow> ordered better (sorted_side better m)"
proof (induction m rule: rev_induct)
  case (snoc kv m)
  then show ?case
    by (simp add: set_sorted_side image_image ordered_insert_level)
qed simp

text \<open>
  A rebuild yields the 64 best levels of the map, in whatever order the hash map is visited.
\<close>

lemma rebuild_cache_eq:
  assumes "distinct (map fst m)" "length xs \<le> 64"
  shows "rebuild_cache (upsert_cache better) (mk_cache xs) m =
    mk_cache (take 64 (sorted_side better m))"
  using assms(1)
proof (induction m rule: rev_induct)
  case Nil
  then show ?case
    using assms(2) by (simp add: rebuild_cache_def clear_cache_eq)
next
  case (snoc kv m)
  let ?xs = "take 64 (sorted_side better m)"
  have "fst kv \<notin> price ` set (sorted_side better m)"
    using snoc.prems by (simp add: set_sorted_side image_image)
  then have "price (level_of kv) \<notin> price ` set ?xs"
    by (auto dest: in_set_takeD)
  moreover have "ordered better ?xs"
    using snoc.prems by (simp add: ordered_take sorted_side_ordered)
  ultimately have "upsert_cache better (mk_cache ?xs) (level_of kv)
      = mk_cache (take 64 (insert_level better (level_of kv) ?xs))"
    by (intro upsert_cache_eq) auto
  with snoc show ?case
    by (simp add: rebuild_cache_def level_of_def [symmetric] take_insert_level)
qed

lemma sorted_side_permute:
  assumes "distinct (map fst m)" "distinct (map fst m')" "set m = set m'"
  shows "sorted_side better m = sorted_side better m'"
  using assms by (intro ordered_unique) (simp_all add: sorted_side_ordered set_sorted_side)

lemma sorted_side_delete:
  assumes "distinct (map fst m)"
  shows "sorted_side better (AList.delete p m) = drop_price p (sorted_side better m)"
proof (rule ordered_unique)
  show "ordered better (sorted_side better (AList.delete p m))"
    by (rule sorted_side_ordered [OF AList.distinct_delete [OF assms]])
  show "ordered better (drop_price p (sorted_side better m))"
    by (rule ordered_drop_price [OF sorted_side_ordered [OF assms]])
  show "set (sorted_side better (AList.delete p m)) = set (drop_price p (sorted_side better m))"
    by (auto simp: set_sorted_side AList.delete_eq)
qed

lemma sorted_side_update:
  assumes "distinct (map fst m)"
  shows "sorted_side better (AList.update p q m) =
    insert_level better (level_of (p, q)) (drop_price p (sorted_side better m))"
proof (rule ordered_unique)
  show "ordered better (sorted_side better (AList.update p q m))"
    by (rule sorted_side_ordered [OF AList.distinct_update [OF assms]])
  have o: "ordered better (drop_price p (sorted_side better m))"
    by (rule ordered_drop_price [OF sorted_side_ordered [OF assms]])
  then show "ordered better (insert_level better (level_of (p, q)) (drop_price p (sorted_side better m)))"
    by (intro ordered_insert_level) auto
  show "set (sorted_side better (AList.update p q m)) =
      set (insert_level better (level_of (p, q)) (drop_price p (sorted_side better m)))"
    by (auto simp: set_sorted_side set_alist_update [OF assms])
qed

text \<open>Replacing the level at a price that is present keeps its position.\<close>

lemma insert_level_replace:
  assumes "ordered better xs" "p \<in> price ` set xs" "price l = p"
  shows "insert_level better l (drop_price p xs) = map (\<lambda>x. if price x = p then l else x) xs"
  using assms
proof (induction xs)
  case (Cons x xs)
  show ?case
  proof (cases "price x = p")
    case True
    then have "\<forall>y \<in> set xs. better p (price y)"
      using Cons.prems(1) by auto
    then have "\<forall>y \<in> set xs. price y \<noteq> p" and "\<forall>y \<in> set xs. \<not> better (price y) p"
      using better_irrefl better_asym by blast+
    then show ?thesis
      using True Cons.prems(3)
      by (cases xs) (auto simp: drop_price_def filter_neq_id map_idI)
  next
    case False
    with Cons.prems have "better (price x) p" by auto
    with False Cons show ?thesis
      by (auto simp: drop_price_def)
  qed
qed simp

text \<open>
  The five best after a deletion and reinsertion at one price agree when the five best agreed
  before, whether or not that price was among them.
\<close>

lemma take_insert_drop:
  assumes "take n xs = take n ys" "ordered better xs" "ordered better ys" "price l = p"
  shows "take n (insert_level better l (drop_price p xs)) = take n (insert_level better l (drop_price p ys))"
proof (cases "p \<in> price ` set (take n xs)")
  case True
  then have "p \<in> price ` set xs"
    by (auto dest: in_set_takeD)
  moreover have "p \<in> price ` set ys"
    using True unfolding assms(1) by (auto dest: in_set_takeD)
  ultimately show ?thesis
    using assms by (simp add: insert_level_replace take_map)
next
  case False
  then have "take n (drop_price p xs) = take n (drop_price p ys)"
    using assms(1) by (metis take_drop_price_id)
  then show ?thesis
    by (metis take_insert_level)
qed

lemma take_drop_price:
  assumes "take n xs = take n ys" "p \<notin> price ` set (take n xs)"
  shows "take n (drop_price p xs) = take n (drop_price p ys)"
  using assms by (metis take_drop_price_id)

text \<open>The three ways the book changes a side keep the invariant.\<close>

lemma side_inv_upsert:
  assumes "side_inv better m c" "qty l \<noteq> 0"
  shows "side_inv better (AList.update (price l) (qty l) m)
    (upsert_cache better (fst (remove_cache_price c (price l))) l)"
  using assms(1)
proof (cases rule: side_invE)
  case (1 xs)
  let ?ys = "insert_level better l (drop_price (price l) xs)"
  have ord: "ordered better (drop_price (price l) xs)"
    by (rule ordered_drop_price [OF 1(3)])
  have "upsert_cache better (mk_cache (drop_price (price l) xs)) l = mk_cache (take 64 ?ys)"
    using ord by (intro upsert_cache_eq drop_price_length [OF 1(2)]) auto
  then have "upsert_cache better (fst (remove_cache_price c (price l))) l = mk_cache (take 64 ?ys)"
    using 1 by (simp add: remove_cache_price_eq ordered_distinct)
  moreover have "ordered better (take 64 ?ys)"
    using ord by (intro ordered_take ordered_insert_level) auto
  moreover have "set (take 64 ?ys) \<subseteq> level_of ` set (AList.update (price l) (qty l) m)"
  proof -
    have "set (drop_price (price l) xs) \<subseteq> level_of ` {kv \<in> set m. fst kv \<noteq> price l}"
      using 1(4) by fastforce
    then have "set ?ys \<subseteq> level_of ` set (AList.update (price l) (qty l) m)"
      by (simp add: set_alist_update [OF 1(6)] subset_insertI2)
    then show ?thesis
      by (rule subset_trans [OF set_take_subset])
  qed
  moreover have "take 5 (take 64 ?ys) = take 5 (sorted_side better (AList.update (price l) (qty l) m))"
    using 1 take_insert_drop [OF 1(5,3) sorted_side_ordered [OF 1(6)], of l "price l"]
    by (simp add: sorted_side_update)
  moreover have "\<forall>kv \<in> set (AList.update (price l) (qty l) m). snd kv \<noteq> 0"
    using 1(7) assms(2) by (simp add: set_alist_update [OF 1(6)])
  ultimately show ?thesis
    using 1(6) by (simp add: side_inv_mk_cache AList.distinct_update)
qed

lemma side_inv_delete:
  assumes "side_inv better m c" "\<not> snd (remove_cache_price c p)"
  shows "side_inv better (AList.delete p m) (fst (remove_cache_price c p))"
  using assms(1)
proof (cases rule: side_invE)
  case (1 xs)
  have rm: "remove_cache_price c p = (mk_cache (drop_price p xs), p \<in> price ` set (take 5 xs))"
    using 1 by (simp add: remove_cache_price_eq ordered_distinct)
  have "take 5 (drop_price p xs) = take 5 (sorted_side better (AList.delete p m))"
    using 1 assms(2) rm take_drop_price [OF 1(5)] by (simp add: sorted_side_delete)
  moreover have "\<forall>kv \<in> set (AList.delete p m). snd kv \<noteq> 0"
    using 1(7) by (auto simp: AList.delete_eq)
  moreover have "set (drop_price p xs) \<subseteq> level_of ` set (AList.delete p m)"
    using 1(4) by (auto simp: AList.delete_eq)
  ultimately show ?thesis
    using 1 rm
    by (simp add: side_inv_mk_cache AList.distinct_delete ordered_drop_price drop_price_length)
qed

lemma side_inv_rebuild:
  assumes "distinct (map fst m)" "\<forall>kv \<in> set m. snd kv \<noteq> 0" "length xs \<le> 64"
  shows "side_inv better m (rebuild_cache (upsert_cache better) (mk_cache xs) m)"
  using assms
  by (auto simp: rebuild_cache_eq side_inv_mk_cache ordered_take sorted_side_ordered set_sorted_side
      dest!: in_set_takeD)

lemma side_inv_remove_shape:
  assumes "side_inv better m c"
  shows "\<exists>ys. fst (remove_cache_price c p) = mk_cache ys \<and> length ys \<le> 64"
  using assms
proof (cases rule: side_invE)
  case (1 xs)
  then show ?thesis
    by (auto simp: remove_cache_price_eq ordered_distinct intro: drop_price_length)
qed

lemma side_inv_delete_rebuild:
  assumes "side_inv better m c"
  shows "side_inv better (AList.delete p m)
    (rebuild_cache (upsert_cache better) (fst (remove_cache_price c p)) (AList.delete p m))"
proof -
  obtain ys where "fst (remove_cache_price c p) = mk_cache ys" "length ys \<le> 64"
    using side_inv_remove_shape [OF assms] by blast
  moreover have "distinct (map fst (AList.delete p m))"
    using assms by (simp add: side_inv_def AList.distinct_delete)
  moreover have "\<forall>kv \<in> set (AList.delete p m). snd kv \<noteq> 0"
    using assms by (auto simp: side_inv_def AList.delete_eq)
  ultimately show ?thesis
    by (simp add: side_inv_rebuild)
qed

text \<open>A prefix of the sorted side is what \<open>top_levels\<close> asks for.\<close>

lemma sorted_side_top_levels:
  assumes "distinct (map fst m)"
  shows "top_levels better n (map_of m) (take n (sorted_side better m))"
proof -
  let ?s = "sorted_side better m"
  have ord: "ordered better ?s"
    by (rule sorted_side_ordered [OF assms])
  have "card (dom (map_of m)) = length m"
    using assms by (simp add: dom_map_of_conv_image_fst distinct_card [of "map fst m", simplified])
  moreover have "map_of m (price l) = Some (qty l)" if "l \<in> set (take n ?s)" for l
  proof -
    have "l \<in> level_of ` set m"
      using that by (metis in_set_takeD set_sorted_side)
    then show ?thesis
      using assms by auto
  qed
  moreover have "better (price l) p"
    if "p \<in> dom (map_of m)" "p \<notin> price ` set (take n ?s)" "l \<in> set (take n ?s)" for l p
  proof -
    have "p \<in> price ` set ?s"
      using that(1) by (auto simp: set_sorted_side image_image dest!: map_of_SomeD intro: rev_image_eqI)
    then have "p \<in> price ` set (drop n ?s)"
      using that(2) by (metis UnE append_take_drop_id image_Un set_append)
    moreover have "ordered better (take n ?s @ drop n ?s)"
      using ord by simp
    ultimately show ?thesis
      using that(3) unfolding map_append sorted_wrt_append by force
  qed
  ultimately show ?thesis
    using ord by (auto simp: top_levels_def ordered_take min.commute)
qed

lemma side_inv_empty: "side_inv better [] (mk_cache [])"
  by (simp add: side_inv_mk_cache)

end

interpretation bid: price_priority better_bid
  by unfold_locales (auto simp: better_bid_def)

interpretation ask: price_priority better_ask
  by unfold_locales (auto simp: better_ask_def)

end
