(* ===== verification/Order_Book.thy ===== *)
theory Order_Book
  imports Top_Cache
begin

text \<open>
  The local order book of one symbol (\<open>include/order_book.hpp\<close>, \<open>src/order_book.cpp\<close>): two
  hash maps from price to quantity, the top caches of \<open>Top_Cache\<close> over them, and the
  sequence rules for spot and USD-M diff events.
\<close>

section \<open>Data\<close>

record ObRow =
  row_ts :: Timestamp
  row_seqNo :: u64
  row_id :: i32
  row_type :: char
  row_side :: char
  row_bid :: "i64 list"
  row_bid_size :: "i64 list"
  row_ask :: "i64 list"
  row_ask_size :: "i64 list"

text \<open>The row a declaration \<open>ObRow row;\<close> creates.\<close>

definition empty_row :: ObRow where
  "empty_row = \<lparr>row_ts = zero_ts, row_seqNo = 0, row_id = 0,
     row_type = CHR ''?'', row_side = CHR ''N'', row_bid = [0,0,0,0,0],
     row_bid_size = [0,0,0,0,0], row_ask = [0,0,0,0,0], row_ask_size = [0,0,0,0,0]\<rparr>"

datatype ApplyResult = Applied | IgnoredOld | Gap | NeedSnapshot

record OrderBook =
  ob_id :: i32
  ob_initialized :: bool
  ob_last_update_id :: u64
  ob_started :: bool
  ob_bids :: price_map
  ob_asks :: price_map
  ob_bid_cache :: TopCache
  ob_ask_cache :: TopCache

definition rebuild_bid_cache :: "OrderBook \<Rightarrow> OrderBook" where
  "rebuild_bid_cache ob =
     ob\<lparr>ob_bid_cache := rebuild_cache upsert_bid_cache (ob_bid_cache ob) (ob_bids ob)\<rparr>"

definition rebuild_ask_cache :: "OrderBook \<Rightarrow> OrderBook" where
  "rebuild_ask_cache ob =
     ob\<lparr>ob_ask_cache := rebuild_cache upsert_ask_cache (ob_ask_cache ob) (ob_asks ob)\<rparr>"

section \<open>Operations of the book\<close>

definition new_OrderBook :: "i32 \<Rightarrow> OrderBook" where
  "new_OrderBook i = \<lparr>ob_id = i, ob_initialized = False, ob_last_update_id = 0,
     ob_started = False, ob_bids = [], ob_asks = [],
     ob_bid_cache = fresh_cache, ob_ask_cache = fresh_cache\<rparr>"

text \<open>\<open>for (const auto& l : levels) if (l.qty != 0) m[l.price] = l.qty;\<close>\<close>

definition load_levels :: "Level list \<Rightarrow> price_map" where
  "load_levels ls =
     foldl (\<lambda>m l. if qty l \<noteq> 0 then AList.update (price l) (qty l) m else m) [] ls"

definition set_snapshot :: "OrderBook \<Rightarrow> Level list \<Rightarrow> Level list \<Rightarrow> u64 \<Rightarrow> OrderBook" where
  "set_snapshot ob bids asks last_id =
     (let ob1 = ob\<lparr>ob_bids := load_levels bids, ob_asks := load_levels asks\<rparr>;
          ob2 = rebuild_ask_cache (rebuild_bid_cache ob1)
      in ob2\<lparr>ob_last_update_id := last_id, ob_initialized := True, ob_started := False\<rparr>)"

definition apply_bid_level :: "OrderBook \<Rightarrow> Level \<Rightarrow> OrderBook" where
  "apply_bid_level ob l =
     (let (c, visible) = remove_cache_price (ob_bid_cache ob) (price l);
          ob1 = ob\<lparr>ob_bid_cache := c\<rparr>
      in if qty l = 0 then
           let ob2 = ob1\<lparr>ob_bids := AList.delete (price l) (ob_bids ob1)\<rparr>
           in if visible \<or> tc_count (ob_bid_cache ob2) < 5 then rebuild_bid_cache ob2 else ob2
         else
           let ob2 = ob1\<lparr>ob_bids := AList.update (price l) (qty l) (ob_bids ob1)\<rparr>
           in ob2\<lparr>ob_bid_cache := upsert_bid_cache (ob_bid_cache ob2) l\<rparr>)"

definition apply_ask_level :: "OrderBook \<Rightarrow> Level \<Rightarrow> OrderBook" where
  "apply_ask_level ob l =
     (let (c, visible) = remove_cache_price (ob_ask_cache ob) (price l);
          ob1 = ob\<lparr>ob_ask_cache := c\<rparr>
      in if qty l = 0 then
           let ob2 = ob1\<lparr>ob_asks := AList.delete (price l) (ob_asks ob1)\<rparr>
           in if visible \<or> tc_count (ob_ask_cache ob2) < 5 then rebuild_ask_cache ob2 else ob2
         else
           let ob2 = ob1\<lparr>ob_asks := AList.update (price l) (qty l) (ob_asks ob1)\<rparr>
           in ob2\<lparr>ob_ask_cache := upsert_ask_cache (ob_ask_cache ob2) l\<rparr>)"

definition apply_levels :: "OrderBook \<Rightarrow> Level list \<Rightarrow> Level list \<Rightarrow> OrderBook" where
  "apply_levels ob bids asks = foldl apply_ask_level (foldl apply_bid_level ob bids) asks"

definition apply_diff_spot ::
    "OrderBook \<Rightarrow> u64 \<Rightarrow> u64 \<Rightarrow> Level list \<Rightarrow> Level list \<Rightarrow> OrderBook \<times> ApplyResult" where
  "apply_diff_spot ob U u bids asks =
     (if \<not> ob_initialized ob then (ob, NeedSnapshot)
      else if u \<le> ob_last_update_id ob then (ob, IgnoredOld)
      else if U > ob_last_update_id ob + 1 then (ob, Gap)
      else ((apply_levels ob bids asks)\<lparr>ob_last_update_id := u, ob_started := True\<rparr>, Applied))"

definition apply_diff_usdm ::
    "OrderBook \<Rightarrow> u64 \<Rightarrow> u64 \<Rightarrow> u64 \<Rightarrow> Level list \<Rightarrow> Level list \<Rightarrow> OrderBook \<times> ApplyResult" where
  "apply_diff_usdm ob U u pu bids asks =
     (if \<not> ob_initialized ob then (ob, NeedSnapshot)
      else if u \<le> ob_last_update_id ob then (ob, IgnoredOld)
      else if \<not> ob_started ob \<and> U > ob_last_update_id ob then (ob, Gap)
      else if ob_started ob \<and> pu \<noteq> ob_last_update_id ob then (ob, Gap)
      else ((apply_levels ob bids asks)\<lparr>ob_last_update_id := u, ob_started := True\<rparr>, Applied))"

text \<open>One iteration of the loop of \<open>fill_top5\<close>, then the loop for \<open>i = 0, \<dots>, 4\<close>.\<close>

definition fill_top5_at :: "OrderBook \<Rightarrow> nat \<Rightarrow> ObRow \<Rightarrow> ObRow" where
  "fill_top5_at ob i row =
     (let bc = ob_bid_cache ob;
          ac = ob_ask_cache ob;
          row1 = (if i < tc_count bc
                  then row\<lparr>row_bid := (row_bid row)[i := price (tc_levels bc ! i)],
                           row_bid_size := (row_bid_size row)[i := qty (tc_levels bc ! i)]\<rparr>
                  else row)
      in if i < tc_count ac
         then row1\<lparr>row_ask := (row_ask row1)[i := price (tc_levels ac ! i)],
                   row_ask_size := (row_ask_size row1)[i := qty (tc_levels ac ! i)]\<rparr>
         else row1)"

definition fill_top5 :: "OrderBook \<Rightarrow> ObRow \<Rightarrow> ObRow" where
  "fill_top5 ob row = fold (fill_top5_at ob) [0..<5] (row\<lparr>row_id := ob_id ob\<rparr>)"

definition reset_book :: "OrderBook \<Rightarrow> OrderBook" where
  "reset_book ob = ob\<lparr>ob_bids := [], ob_asks := [],
     ob_bid_cache := clear_cache (ob_bid_cache ob), ob_ask_cache := clear_cache (ob_ask_cache ob),
     ob_initialized := False, ob_last_update_id := 0, ob_started := False\<rparr>"

section \<open>The abstract book\<close>

text \<open>
  What the book promises, without hash order and caches: two finite maps from price to
  quantity and the sequence state.  Absolute quantities are stored; quantity zero removes.
\<close>

record SpecBook =
  sb_initialized :: bool
  sb_last_id :: u64
  sb_started :: bool
  sb_bids :: "i64 \<rightharpoonup> i64"
  sb_asks :: "i64 \<rightharpoonup> i64"

definition set_level :: "(i64 \<rightharpoonup> i64) \<Rightarrow> Level \<Rightarrow> (i64 \<rightharpoonup> i64)" where
  "set_level m l = (if qty l = 0 then m(price l := None) else m(price l \<mapsto> qty l))"

definition set_levels :: "(i64 \<rightharpoonup> i64) \<Rightarrow> Level list \<Rightarrow> (i64 \<rightharpoonup> i64)" where
  "set_levels m ls = foldl set_level m ls"

definition snapshot_map :: "Level list \<Rightarrow> (i64 \<rightharpoonup> i64)" where
  "snapshot_map ls = foldl (\<lambda>m l. if qty l = 0 then m else m(price l \<mapsto> qty l)) Map.empty ls"

definition spec_empty :: SpecBook where
  "spec_empty = \<lparr>sb_initialized = False, sb_last_id = 0, sb_started = False,
     sb_bids = Map.empty, sb_asks = Map.empty\<rparr>"

definition abs_book :: "OrderBook \<Rightarrow> SpecBook" where
  "abs_book ob = \<lparr>sb_initialized = ob_initialized ob, sb_last_id = ob_last_update_id ob,
     sb_started = ob_started ob, sb_bids = map_of (ob_bids ob), sb_asks = map_of (ob_asks ob)\<rparr>"

text \<open>The calls a client can make on the book.\<close>

datatype book_op =
    OpSnapshot "Level list" "Level list" u64
  | OpSpot u64 u64 "Level list" "Level list"
  | OpUsdm u64 u64 u64 "Level list" "Level list"
  | OpReset

fun book_step :: "OrderBook \<Rightarrow> book_op \<Rightarrow> OrderBook" where
  "book_step ob (OpSnapshot bids asks i) = set_snapshot ob bids asks i"
| "book_step ob (OpSpot U u bids asks) = fst (apply_diff_spot ob U u bids asks)"
| "book_step ob (OpUsdm U u pu bids asks) = fst (apply_diff_usdm ob U u pu bids asks)"
| "book_step ob OpReset = reset_book ob"

definition spec_apply :: "SpecBook \<Rightarrow> u64 \<Rightarrow> Level list \<Rightarrow> Level list \<Rightarrow> SpecBook" where
  "spec_apply sb u bids asks = sb\<lparr>sb_bids := set_levels (sb_bids sb) bids,
     sb_asks := set_levels (sb_asks sb) asks, sb_last_id := u, sb_started := True\<rparr>"

fun spec_step :: "SpecBook \<Rightarrow> book_op \<Rightarrow> SpecBook" where
  "spec_step sb (OpSnapshot bids asks i) =
     \<lparr>sb_initialized = True, sb_last_id = i, sb_started = False,
      sb_bids = snapshot_map bids, sb_asks = snapshot_map asks\<rparr>"
| "spec_step sb (OpSpot U u bids asks) =
     (if sb_initialized sb \<and> unat (sb_last_id sb) < unat u \<and> unat U \<le> unat (sb_last_id sb) + 1
      then spec_apply sb u bids asks else sb)"
| "spec_step sb (OpUsdm U u pu bids asks) =
     (if sb_initialized sb \<and> unat (sb_last_id sb) < unat u \<and>
         (if sb_started sb then pu = sb_last_id sb else unat U \<le> unat (sb_last_id sb))
      then spec_apply sb u bids asks else sb)"
| "spec_step sb OpReset = spec_empty"

definition book_inv :: "OrderBook \<Rightarrow> bool" where
  "book_inv ob \<longleftrightarrow> side_inv better_bid (ob_bids ob) (ob_bid_cache ob) \<and>
     side_inv better_ask (ob_asks ob) (ob_ask_cache ob)"

text \<open>The five array entries a row shows for the levels \<open>xs\<close>: unused entries stay zero.\<close>

definition pad5 :: "i64 list \<Rightarrow> i64 list" where
  "pad5 xs = xs @ replicate (5 - length xs) 0"

section \<open>The invariant\<close>

lemma load_levels_inv:
  "distinct (map fst (load_levels ls)) \<and> (\<forall>kv \<in> set (load_levels ls). snd kv \<noteq> 0)"
  by (induction ls rule: rev_induct)
    (auto simp: load_levels_def AList.distinct_update set_alist_update)

lemma side_inv_cache_shape:
  "side_inv better m c \<Longrightarrow> \<exists>xs. c = mk_cache xs \<and> length xs \<le> 64"
  by (auto elim!: side_invE)

lemma book_inv_new [simp]: "book_inv (new_OrderBook i)"
  by (simp add: book_inv_def new_OrderBook_def fresh_cache_eq bid.side_inv_empty ask.side_inv_empty)

lemma book_inv_set_snapshot:
  assumes "book_inv ob"
  shows "book_inv (set_snapshot ob bids asks i)"
proof -
  obtain xs ys where c: "ob_bid_cache ob = mk_cache xs" "length xs \<le> 64"
      "ob_ask_cache ob = mk_cache ys" "length ys \<le> 64"
    using assms side_inv_cache_shape unfolding book_inv_def by meson
  then show ?thesis
    using load_levels_inv [of bids] load_levels_inv [of asks]
    by (simp add: book_inv_def set_snapshot_def rebuild_bid_cache_def rebuild_ask_cache_def Let_def
        upsert_bid_cache_def upsert_ask_cache_def bid.side_inv_rebuild ask.side_inv_rebuild)
qed

lemma book_inv_apply_bid_level: "book_inv ob \<Longrightarrow> book_inv (apply_bid_level ob l)"
  by (auto simp: book_inv_def apply_bid_level_def rebuild_bid_cache_def upsert_bid_cache_def Let_def
      split_beta bid.side_inv_delete bid.side_inv_delete_rebuild bid.side_inv_upsert)

lemma book_inv_apply_ask_level: "book_inv ob \<Longrightarrow> book_inv (apply_ask_level ob l)"
  by (auto simp: book_inv_def apply_ask_level_def rebuild_ask_cache_def upsert_ask_cache_def Let_def
      split_beta ask.side_inv_delete ask.side_inv_delete_rebuild ask.side_inv_upsert)

lemma book_inv_apply_levels: "book_inv ob \<Longrightarrow> book_inv (apply_levels ob bids asks)"
proof -
  assume "book_inv ob"
  then have "book_inv (foldl apply_bid_level ob bids)"
    by (induction bids arbitrary: ob) (auto intro: book_inv_apply_bid_level)
  then show ?thesis
    unfolding apply_levels_def
    by (induction asks arbitrary: ob rule: rev_induct) (auto intro: book_inv_apply_ask_level)
qed

lemma book_inv_seq [simp]:
  "book_inv (ob\<lparr>ob_last_update_id := u, ob_started := b\<rparr>) \<longleftrightarrow> book_inv ob"
  by (simp add: book_inv_def)

lemma book_inv_apply_diff:
  assumes "book_inv ob"
  shows "book_inv (fst (apply_diff_spot ob U u bids asks))"
    and "book_inv (fst (apply_diff_usdm ob U u pu bids asks))"
  using assms by (simp_all add: apply_diff_spot_def apply_diff_usdm_def book_inv_apply_levels)

lemma book_inv_reset: "book_inv ob \<Longrightarrow> book_inv (reset_book ob)"
  using side_inv_cache_shape [of better_bid] side_inv_cache_shape [of better_ask]
  by (fastforce simp: book_inv_def reset_book_def clear_cache_eq bid.side_inv_empty ask.side_inv_empty)

lemma book_inv_step: "book_inv ob \<Longrightarrow> book_inv (book_step ob e)"
  by (cases e) (simp_all add: book_inv_set_snapshot book_inv_apply_diff book_inv_reset)

interpretation book_run: transition_system "new_OrderBook i" book_step book_inv for i
  by unfold_locales (simp_all add: book_inv_step)

section \<open>Refinement of the abstract book\<close>

lemma map_of_load_levels: "map_of (load_levels ls) = snapshot_map ls"
  by (induction ls rule: rev_induct)
    (auto simp: load_levels_def snapshot_map_def AList.update_conv')

lemma abs_apply_bid_level:
  "abs_book (apply_bid_level ob l) = (abs_book ob)\<lparr>sb_bids := set_level (sb_bids (abs_book ob)) l\<rparr>"
  by (simp add: abs_book_def apply_bid_level_def rebuild_bid_cache_def set_level_def Let_def split_beta
      AList.update_conv' AList.delete_conv')

lemma abs_apply_ask_level:
  "abs_book (apply_ask_level ob l) = (abs_book ob)\<lparr>sb_asks := set_level (sb_asks (abs_book ob)) l\<rparr>"
  by (simp add: abs_book_def apply_ask_level_def rebuild_ask_cache_def set_level_def Let_def split_beta
      AList.update_conv' AList.delete_conv')

lemma abs_apply_levels:
  "abs_book (apply_levels ob bids asks) =
     (abs_book ob)\<lparr>sb_bids := set_levels (sb_bids (abs_book ob)) bids,
                   sb_asks := set_levels (sb_asks (abs_book ob)) asks\<rparr>"
proof -
  have bid: "abs_book (foldl apply_bid_level ob ls)
      = (abs_book ob)\<lparr>sb_bids := set_levels (sb_bids (abs_book ob)) ls\<rparr>" for ob ls
    by (induction ls rule: rev_induct) (simp_all add: set_levels_def abs_apply_bid_level)
  have "abs_book (foldl apply_ask_level ob ls)
      = (abs_book ob)\<lparr>sb_asks := set_levels (sb_asks (abs_book ob)) ls\<rparr>" for ob ls
    by (induction ls rule: rev_induct) (simp_all add: set_levels_def abs_apply_ask_level)
  then show ?thesis
    by (simp add: apply_levels_def bid)
qed

lemma abs_seq_update:
  "abs_book (ob\<lparr>ob_last_update_id := u, ob_started := b\<rparr>) =
     (abs_book ob)\<lparr>sb_last_id := u, sb_started := b\<rparr>"
  by (simp add: abs_book_def)

lemma abs_book_sel [simp]:
  "sb_initialized (abs_book ob) = ob_initialized ob"
  "sb_last_id (abs_book ob) = ob_last_update_id ob"
  "sb_started (abs_book ob) = ob_started ob"
  by (simp_all add: abs_book_def)

text \<open>
  The gap test of the spot rule, \<open>U > last_update_id_ + 1\<close> on \<open>uint64_t\<close>, never sees the
  wrapped sum: an event with \<open>u > last_update_id_\<close> leaves room for the successor.
\<close>

lemma apply_diff_spot_result:
  "snd (apply_diff_spot ob U u bids asks) =
     (if \<not> ob_initialized ob then NeedSnapshot
      else if unat u \<le> unat (ob_last_update_id ob) then IgnoredOld
      else if unat (ob_last_update_id ob) + 1 < unat U then Gap
      else Applied)"
  using unat_succ_below [of "ob_last_update_id ob" u]
  by (auto simp: apply_diff_spot_def word_le_nat_alt word_less_nat_alt not_le)

lemma apply_diff_usdm_result:
  "snd (apply_diff_usdm ob U u pu bids asks) =
     (if \<not> ob_initialized ob then NeedSnapshot
      else if unat u \<le> unat (ob_last_update_id ob) then IgnoredOld
      else if (if ob_started ob then pu \<noteq> ob_last_update_id ob
               else unat (ob_last_update_id ob) < unat U) then Gap
      else Applied)"
  by (auto simp: apply_diff_usdm_def word_le_nat_alt word_less_nat_alt not_le)

lemma apply_diff_spot_book:
  "fst (apply_diff_spot ob U u bids asks) =
     (if snd (apply_diff_spot ob U u bids asks) = Applied
      then (apply_levels ob bids asks)\<lparr>ob_last_update_id := u, ob_started := True\<rparr> else ob)"
  by (simp add: apply_diff_spot_def)

lemma apply_diff_usdm_book:
  "fst (apply_diff_usdm ob U u pu bids asks) =
     (if snd (apply_diff_usdm ob U u pu bids asks) = Applied
      then (apply_levels ob bids asks)\<lparr>ob_last_update_id := u, ob_started := True\<rparr> else ob)"
  by (simp add: apply_diff_usdm_def)

lemma abs_book_step: "abs_book (book_step ob e) = spec_step (abs_book ob) e"
proof (cases e)
  case (OpSnapshot bids asks i)
  then show ?thesis
    by (simp add: set_snapshot_def rebuild_bid_cache_def rebuild_ask_cache_def Let_def abs_book_def
        map_of_load_levels)
next
  case (OpSpot U u bids asks)
  then show ?thesis
    by (simp add: apply_diff_spot_book apply_diff_spot_result abs_seq_update abs_apply_levels
        spec_apply_def)
next
  case (OpUsdm U u pu bids asks)
  then show ?thesis
    by (simp add: apply_diff_usdm_book apply_diff_usdm_result abs_seq_update abs_apply_levels
        spec_apply_def)
next
  case OpReset
  then show ?thesis
    by (simp add: reset_book_def abs_book_def spec_empty_def)
qed

lemma abs_new_OrderBook: "abs_book (new_OrderBook i) = spec_empty"
  by (simp add: abs_book_def new_OrderBook_def spec_empty_def)

lemma abs_run_from: "abs_book (foldl book_step ob ops) = foldl spec_step (abs_book ob) ops"
  by (induction ops arbitrary: ob) (simp_all add: abs_book_step)

section \<open>Rows\<close>

definition row_shape :: "ObRow \<Rightarrow> bool" where
  "row_shape row \<longleftrightarrow> length (row_bid row) = 5 \<and> length (row_bid_size row) = 5 \<and>
     length (row_ask row) = 5 \<and> length (row_ask_size row) = 5"

lemma row_shape_empty [simp]: "row_shape empty_row"
  by (simp add: row_shape_def empty_row_def)

lemma update_prefix:
  assumes "n < length xs" "length ys = 5" "n < 5"
  shows "(map f (take n xs) @ drop n ys)[n := f (xs ! n)] = map f (take (Suc n) xs) @ drop (Suc n) ys"
proof -
  have "drop n ys = ys ! n # drop (Suc n) ys"
    using assms by (simp add: Cons_nth_drop_Suc)
  moreover have "length (map f (take n xs)) = n"
    using assms by simp
  ultimately show ?thesis
    using assms by (simp add: list_update_append take_Suc_conv_app_nth)
qed

lemma update_prefix_beyond:
  "\<not> n < length xs \<Longrightarrow> take (Suc n) xs = take n xs"
  by simp

lemma fill_top5_upto:
  assumes "ob_bid_cache ob = mk_cache xs" "ob_ask_cache ob = mk_cache ys" "row_shape row" "n \<le> 5"
  shows "fold (fill_top5_at ob) [0..<n] row = row\<lparr>
     row_bid := map price (take n xs) @ drop (length (take n xs)) (row_bid row),
     row_bid_size := map qty (take n xs) @ drop (length (take n xs)) (row_bid_size row),
     row_ask := map price (take n ys) @ drop (length (take n ys)) (row_ask row),
     row_ask_size := map qty (take n ys) @ drop (length (take n ys)) (row_ask_size row)\<rparr>"
  using assms(4)
proof (induction n)
  case 0
  then show ?case by simp
next
  case (Suc n)
  then have "n < 5" by simp
  have up: "(map f (take n zs) @ drop (length (take n zs)) rs)[n := f (zs ! n)]
      = map f (take (Suc n) zs) @ drop (length (take (Suc n) zs)) rs"
    if "n < length zs" "length rs = 5" for f :: "Level \<Rightarrow> int" and zs rs
    using update_prefix [OF that \<open>n < 5\<close>, of f] that by simp
  let ?row = "\<lambda>n. row\<lparr>
     row_bid := map price (take n xs) @ drop (length (take n xs)) (row_bid row),
     row_bid_size := map qty (take n xs) @ drop (length (take n xs)) (row_bid_size row),
     row_ask := map price (take n ys) @ drop (length (take n ys)) (row_ask row),
     row_ask_size := map qty (take n ys) @ drop (length (take n ys)) (row_ask_size row)\<rparr>"
  have "fold (fill_top5_at ob) [0..<Suc n] row = fill_top5_at ob n (fold (fill_top5_at ob) [0..<n] row)"
    by simp
  also have "\<dots> = fill_top5_at ob n (?row n)"
    using Suc by simp
  also have "\<dots> = ?row (Suc n)"
    using assms(1-3)
    by (cases "n < length xs"; cases "n < length ys")
      (simp_all add: fill_top5_at_def nth_mk_cache row_shape_def up del: length_take)
  finally show ?case .
qed

lemma fill_top5_fields:
  assumes "ob_bid_cache ob = mk_cache xs" "ob_ask_cache ob = mk_cache ys"
  shows "fill_top5 ob empty_row = empty_row\<lparr>row_id := ob_id ob,
     row_bid := pad5 (map price (take 5 xs)), row_bid_size := pad5 (map qty (take 5 xs)),
     row_ask := pad5 (map price (take 5 ys)), row_ask_size := pad5 (map qty (take 5 ys))\<rparr>"
proof -
  have rep: "[0,0,0,0,0] = replicate 5 (0::int)"
    by (simp add: numeral_eq_Suc)
  have "row_shape (empty_row\<lparr>row_id := ob_id ob\<rparr>)"
    by (simp add: row_shape_def empty_row_def)
  from fill_top5_upto [OF assms this order_refl] show ?thesis
    by (simp add: fill_top5_def empty_row_def pad5_def rep)
qed

text \<open>
  Every book the program can hold shows the best levels of its two sides.
\<close>

lemma fill_top5_best:
  assumes "book_inv ob"
  shows "\<exists>bs as. top_levels better_bid 5 (sb_bids (abs_book ob)) bs \<and>
      top_levels better_ask 5 (sb_asks (abs_book ob)) as \<and>
      fill_top5 ob empty_row = empty_row\<lparr>row_id := ob_id ob,
        row_bid := pad5 (map price bs), row_bid_size := pad5 (map qty bs),
        row_ask := pad5 (map price as), row_ask_size := pad5 (map qty as)\<rparr>"
proof -
  from assms obtain xs ys where
    bid: "ob_bid_cache ob = mk_cache xs" "take 5 xs = take 5 (sorted_side better_bid (ob_bids ob))"
      "distinct (map fst (ob_bids ob))" and
    ask: "ob_ask_cache ob = mk_cache ys" "take 5 ys = take 5 (sorted_side better_ask (ob_asks ob))"
      "distinct (map fst (ob_asks ob))"
    unfolding book_inv_def by (elim conjE side_invE) blast
  from bid.sorted_side_top_levels [OF bid(3), of 5] ask.sorted_side_top_levels [OF ask(3), of 5]
  have "top_levels better_bid 5 (sb_bids (abs_book ob)) (take 5 xs)"
    "top_levels better_ask 5 (sb_asks (abs_book ob)) (take 5 ys)"
    by (simp_all add: abs_book_def bid(2) ask(2))
  with fill_top5_fields [OF bid(1) ask(1)] show ?thesis
    by blast
qed

lemma ob_id_apply_levels [simp]: "ob_id (apply_levels ob bids asks) = ob_id ob"
proof -
  have "ob_id (foldl apply_bid_level ob ls) = ob_id ob" for ob ls
    by (induction ls arbitrary: ob)
      (simp_all add: apply_bid_level_def rebuild_bid_cache_def Let_def split_beta)
  moreover have "ob_id (foldl apply_ask_level ob ls) = ob_id ob" for ob ls
    by (induction ls arbitrary: ob)
      (simp_all add: apply_ask_level_def rebuild_ask_cache_def Let_def split_beta)
  ultimately show ?thesis
    by (simp add: apply_levels_def)
qed

lemma ob_id_set_snapshot [simp]: "ob_id (set_snapshot ob bids asks sid) = ob_id ob"
  by (simp add: set_snapshot_def rebuild_bid_cache_def rebuild_ask_cache_def Let_def)

lemma ob_id_reset [simp]: "ob_id (reset_book ob) = ob_id ob"
  by (simp add: reset_book_def)

lemma ob_id_step [simp]: "ob_id (book_step ob e) = ob_id ob"
  by (cases e) (simp_all add: apply_diff_spot_def apply_diff_usdm_def)

lemma ob_id_run: "ob_id (foldl book_step ob ops) = ob_id ob"
  by (induction ops arbitrary: ob) simp_all

section \<open>Properties\<close>

text \<open>
  C6: The rows of the order-book file are right.  After any sequence of snapshots, spot diffs,
  USD-M diffs and resets, \<open>fill_top5\<close> writes the five best bids and the five best asks of the
  abstract book, best first, with their quantities, and zeros where a side has fewer levels.
\<close>

theorem rows_show_best_levels:
  "\<exists>bs as. top_levels better_bid 5 (sb_bids (foldl spec_step spec_empty ops)) bs \<and>
      top_levels better_ask 5 (sb_asks (foldl spec_step spec_empty ops)) as \<and>
      fill_top5 (foldl book_step (new_OrderBook i) ops) empty_row = empty_row\<lparr>row_id := i,
        row_bid := pad5 (map price bs), row_bid_size := pad5 (map qty bs),
        row_ask := pad5 (map price as), row_ask_size := pad5 (map qty as)\<rparr>"
proof -
  have "ob_id (foldl book_step (new_OrderBook i) ops) = i"
    by (simp add: ob_id_run new_OrderBook_def)
  with fill_top5_best [OF book_run.inv_run, of i ops] show ?thesis
    by (simp add: abs_run_from abs_new_OrderBook)
qed

text \<open>
  C7: The book with its hash maps and top caches implements the abstract book: after every
  sequence of calls its price maps and its sequence state are those of the specification, in
  which a diff stores absolute quantities, a zero removes the level, a snapshot replaces both
  sides by its non-zero levels, and only a diff that passes the venue's sequence rule (stated on
  unbounded numbers) changes anything.
\<close>

theorem book_refines_spec:
  "abs_book (foldl book_step (new_OrderBook i) ops) = foldl spec_step spec_empty ops"
  by (simp add: abs_run_from abs_new_OrderBook)

text \<open>
  C16: The spot rule on every branch.  The result of \<open>apply_diff_spot\<close> is decided by the plain
  numbers, so the 64-bit sum \<open>last_update_id_ + 1\<close> never wraps where it matters; the book
  changes exactly when the result is \<open>Applied\<close>, and then its id becomes \<open>u\<close>, which is larger.
\<close>

theorem spot_rule_exact:
  "apply_diff_spot ob U u bids asks =
     (if \<not> ob_initialized ob then (ob, NeedSnapshot)
      else if unat u \<le> unat (ob_last_update_id ob) then (ob, IgnoredOld)
      else if unat U > unat (ob_last_update_id ob) + 1 then (ob, Gap)
      else ((apply_levels ob bids asks)\<lparr>ob_last_update_id := u, ob_started := True\<rparr>, Applied))"
  using apply_diff_spot_book [of ob U u bids asks] apply_diff_spot_result [of ob U u bids asks]
  by (simp add: prod_eq_iff)

text \<open>
  C17: The order in which the standard library visits the hash map does not matter: rebuilding
  the caches of a book from any other listing of the same entries gives the same caches.
\<close>

theorem rebuild_ignores_hash_order:
  assumes "book_inv ob"
    and "distinct (map fst m)" "set m = set (ob_bids ob)"
    and "distinct (map fst n)" "set n = set (ob_asks ob)"
  shows "ob_bid_cache (rebuild_bid_cache (ob\<lparr>ob_bids := m\<rparr>)) = ob_bid_cache (rebuild_bid_cache ob) \<and>
    ob_ask_cache (rebuild_ask_cache (ob\<lparr>ob_asks := n\<rparr>)) = ob_ask_cache (rebuild_ask_cache ob)"
proof -
  obtain xs ys where c: "ob_bid_cache ob = mk_cache xs" "length xs \<le> 64"
      "ob_ask_cache ob = mk_cache ys" "length ys \<le> 64"
    using assms(1) side_inv_cache_shape unfolding book_inv_def by meson
  have d: "distinct (map fst (ob_bids ob))" "distinct (map fst (ob_asks ob))"
    using assms(1) by (auto simp: book_inv_def side_inv_def)
  have "ob_bid_cache (rebuild_bid_cache (ob\<lparr>ob_bids := m\<rparr>)) = ob_bid_cache (rebuild_bid_cache ob)"
    using c d assms bid.sorted_side_permute [of m "ob_bids ob"]
    by (simp add: rebuild_bid_cache_def upsert_bid_cache_def bid.rebuild_cache_eq)
  moreover have "ob_ask_cache (rebuild_ask_cache (ob\<lparr>ob_asks := n\<rparr>)) = ob_ask_cache (rebuild_ask_cache ob)"
    using c d assms ask.sorted_side_permute [of n "ob_asks ob"]
    by (simp add: rebuild_ask_cache_def upsert_ask_cache_def ask.rebuild_cache_eq)
  ultimately show ?thesis ..
qed

text \<open>The book of the unit tests: bids 100 and 99, asks 101 and 102, at update id 10.\<close>

definition test_book :: OrderBook where
  "test_book = set_snapshot (new_OrderBook 1) [\<lparr>price = 100, qty = 5\<rparr>, \<lparr>price = 99, qty = 3\<rparr>]
     [\<lparr>price = 101, qty = 4\<rparr>, \<lparr>price = 102, qty = 6\<rparr>] 10"

lemma book_inv_test_book: "book_inv test_book"
  by (simp add: test_book_def book_inv_set_snapshot)

theorem rebuild_ignores_hash_order_witness:
  "ob_bid_cache (rebuild_bid_cache (test_book\<lparr>ob_bids := [(99, 3), (100, 5)]\<rparr>)) =
     ob_bid_cache (rebuild_bid_cache test_book) \<and>
   ob_ask_cache (rebuild_ask_cache (test_book\<lparr>ob_asks := [(102, 6), (101, 4)]\<rparr>)) =
     ob_ask_cache (rebuild_ask_cache test_book)"
proof (rule rebuild_ignores_hash_order [OF book_inv_test_book])
  have "set (ob_bids test_book) = set [(100, 5), (99, 3)]" "set (ob_asks test_book) = set [(101, 4), (102, 6)]"
    by code_simp+
  then show "set [(99, 3), (100, 5)] = set (ob_bids test_book)"
    "set [(102, 6), (101, 4)] = set (ob_asks test_book)"
    by auto
qed simp_all

text \<open>The calls and expectations of \<open>test_orderbook_diff_semantics\<close>, evaluated.\<close>

lemma test_orderbook_diff_semantics:
  "let (ob, r) = apply_diff_spot test_book 11 12 [\<lparr>price = 100, qty = 0\<rparr>, \<lparr>price = 98, qty = 7\<rparr>]
         [\<lparr>price = 101, qty = 9\<rparr>];
       row = fill_top5 ob empty_row
   in r = Applied \<and> row_bid row = [99, 98, 0, 0, 0] \<and> row_bid_size row = [3, 7, 0, 0, 0] \<and>
      row_ask row = [101, 102, 0, 0, 0] \<and> row_ask_size row = [9, 6, 0, 0, 0] \<and>
      snd (apply_diff_spot ob 100 101 [] []) = Gap \<and>
      snd (apply_diff_spot ob 1 2 [] []) = IgnoredOld"
  by code_simp

text \<open>
  The cache is not always the 64 best levels: with the bids 1 to 70, deleting 30 leaves a free
  slot that the new bid 0 takes although the bids 1 to 6 are better and not cached.  This is
  why \<open>side_inv\<close> speaks of the first five levels only.
\<close>

lemma cache_tail_can_skip:
  "let ob = set_snapshot (new_OrderBook 1) (map (\<lambda>i. \<lparr>price = int i, qty = 1\<rparr>) [1..<71]) [] 1;
       ob' = foldl apply_bid_level ob [\<lparr>price = 30, qty = 0\<rparr>, \<lparr>price = 0, qty = 1\<rparr>]
   in cached (ob_bid_cache ob') ! 62 = \<lparr>price = 7, qty = 1\<rparr> \<and>
      cached (ob_bid_cache ob') ! 63 = \<lparr>price = 0, qty = 1\<rparr>"
  by code_simp

end
