(* ===== verification/Depth_Event.thy ===== *)
theory Depth_Event
  imports Order_Book
begin

text \<open>
  The parsed depth message (\<open>DepthEvent\<close> of \<open>include/json_min.hpp\<close>), which the parser fills
  and the book session buffers and applies.
\<close>

record DepthEvent =
  ev_U :: u64
  ev_u :: u64
  ev_pu :: u64
  ev_has_pu :: bool
  ev_lastUpdateId :: u64
  ev_event_time_ms :: i64
  ev_applied_time :: Timestamp
  ev_bids :: "Level list"
  ev_asks :: "Level list"

text \<open>The event a declaration \<open>DepthEvent ev;\<close> creates.\<close>

definition new_DepthEvent :: DepthEvent where
  "new_DepthEvent = \<lparr>ev_U = 0, ev_u = 0, ev_pu = 0, ev_has_pu = False, ev_lastUpdateId = 0,
     ev_event_time_ms = 0, ev_applied_time = zero_ts, ev_bids = [], ev_asks = []\<rparr>"

definition reset_depth_event :: "DepthEvent \<Rightarrow> DepthEvent" where
  "reset_depth_event ev = ev\<lparr>ev_U := 0, ev_u := 0, ev_pu := 0, ev_has_pu := False,
     ev_lastUpdateId := 0, ev_event_time_ms := 0, ev_applied_time := zero_ts,
     ev_bids := [], ev_asks := []\<rparr>"

text \<open>A reused scratch event is as good as a fresh one: nothing of the last message is left.\<close>

lemma reset_depth_event_fresh: "reset_depth_event ev = new_DepthEvent"
  by (simp add: reset_depth_event_def new_DepthEvent_def)

end
