(* ===== verification/Book_Session.thy ===== *)
theory Book_Session
  imports Depth_Event
begin

text \<open>
  The synchronisation protocol around a book (\<open>include/book_session.hpp\<close>,
  \<open>src/book_session.cpp\<close>): diffs are buffered until a snapshot seeds the book, stale buffered
  diffs are dropped, the rest is replayed, and a gap puts the session back into waiting.
\<close>

section \<open>Model\<close>

datatype Outcome = OutBuffered | OutApplied | OutResyncNeeded | OutDropped

record BookSession =
  bs_ob :: OrderBook
  bs_venue :: Venue
  bs_resync_pending :: bool
  bs_overflows :: u64
  bs_buffer :: "DepthEvent list"

definition kMaxBuffer :: nat where
  "kMaxBuffer = 65536"

definition new_BookSession :: "i32 \<Rightarrow> Venue \<Rightarrow> BookSession" where
  "new_BookSession i v = \<lparr>bs_ob = new_OrderBook i, bs_venue = v, bs_resync_pending = True,
     bs_overflows = 0, bs_buffer = []\<rparr>"

definition apply_diff :: "BookSession \<Rightarrow> DepthEvent \<Rightarrow> OrderBook \<times> ApplyResult" where
  "apply_diff s ev =
     (if bs_venue s = Usdm
      then apply_diff_usdm (bs_ob s) (ev_U ev) (ev_u ev) (ev_pu ev) (ev_bids ev) (ev_asks ev)
      else apply_diff_spot (bs_ob s) (ev_U ev) (ev_u ev) (ev_bids ev) (ev_asks ev))"

definition apply_one :: "BookSession \<Rightarrow> DepthEvent \<Rightarrow> BookSession \<times> Outcome" where
  "apply_one s ev =
     (let (ob, r) = apply_diff s ev;
          s1 = s\<lparr>bs_ob := ob\<rparr>
      in case r of
           Applied \<Rightarrow> (s1, OutApplied)
         | IgnoredOld \<Rightarrow> (s1, OutDropped)
         | Gap \<Rightarrow> (s1\<lparr>bs_resync_pending := True\<rparr>, OutResyncNeeded)
         | NeedSnapshot \<Rightarrow> (s1\<lparr>bs_resync_pending := True\<rparr>, OutBuffered))"

definition buffer_event :: "BookSession \<Rightarrow> DepthEvent \<Rightarrow> BookSession" where
  "buffer_event s ev =
     (let s1 = (if length (bs_buffer s) \<ge> kMaxBuffer
                then s\<lparr>bs_overflows := bs_overflows s + 1, bs_buffer := [],
                       bs_resync_pending := True, bs_ob := reset_book (bs_ob s)\<rparr>
                else s)
      in s1\<lparr>bs_buffer := bs_buffer s1 @ [ev]\<rparr>)"

definition on_diff :: "BookSession \<Rightarrow> DepthEvent \<Rightarrow> BookSession \<times> Outcome" where
  "on_diff s ev =
     (if bs_resync_pending s \<or> \<not> ob_initialized (bs_ob s)
      then (buffer_event s ev, OutBuffered)
      else
        let (s1, out) = apply_one s ev
        in if out = OutResyncNeeded then (buffer_event s1 ev, out) else (s1, out))"

text \<open>
  The loop of \<open>on_snapshot\<close>.  Besides the counter it collects the calls of \<open>on_applied\<close>, each
  with the event and the book it sees.
\<close>

function replay_loop ::
    "u64 \<Rightarrow> BookSession \<Rightarrow> nat \<Rightarrow> (DepthEvent \<times> OrderBook) list
     \<Rightarrow> BookSession \<times> nat \<times> (DepthEvent \<times> OrderBook) list" where
  "replay_loop sid s applied calls =
     (case bs_buffer s of
        [] \<Rightarrow> (s, applied, calls)
      | ev # rest \<Rightarrow>
          if ev_u ev \<le> sid then replay_loop sid (s\<lparr>bs_buffer := rest\<rparr>) applied calls
          else
            let (s1, out) = apply_one s ev
            in if out = OutResyncNeeded then (s1, applied, calls)
               else if out = OutApplied
               then replay_loop sid (s1\<lparr>bs_buffer := rest\<rparr>) (applied + 1) (calls @ [(ev, bs_ob s1)])
               else replay_loop sid (s1\<lparr>bs_buffer := rest\<rparr>) applied calls)"
  by pat_completeness auto
termination
  by (relation "measure (\<lambda>(sid, s, applied, calls). length (bs_buffer s))") auto

definition on_snapshot ::
    "BookSession \<Rightarrow> Level list \<Rightarrow> Level list \<Rightarrow> u64
     \<Rightarrow> BookSession \<times> nat \<times> (DepthEvent \<times> OrderBook) list" where
  "on_snapshot s bids asks sid =
     replay_loop sid (s\<lparr>bs_ob := set_snapshot (bs_ob s) bids asks sid, bs_resync_pending := False\<rparr>) 0 []"

definition request_resync :: "BookSession \<Rightarrow> BookSession" where
  "request_resync s = s\<lparr>bs_resync_pending := True, bs_ob := reset_book (bs_ob s), bs_buffer := []\<rparr>"

text \<open>The calls a client can make on a session.\<close>

datatype session_op =
    SDiff DepthEvent
  | SSnapshot "Level list" "Level list" u64
  | SResync

fun session_step :: "BookSession \<Rightarrow> session_op \<Rightarrow> BookSession" where
  "session_step s (SDiff ev) = fst (on_diff s ev)"
| "session_step s (SSnapshot bids asks sid) = fst (on_snapshot s bids asks sid)"
| "session_step s SResync = request_resync s"

text \<open>For evaluation, the comparison with the cap is done on binary integers.\<close>

lemma kMaxBuffer_code [code_unfold]: "kMaxBuffer \<le> length xs \<longleftrightarrow> (65536::int) \<le> int (length xs)"
  by (simp add: kMaxBuffer_def)

section \<open>Specifications\<close>

text \<open>
  The safety invariant: the buffer is bounded, and a session that is not waiting for a snapshot
  has a seeded book and nothing left to replay.
\<close>

definition session_inv :: "BookSession \<Rightarrow> bool" where
  "session_inv s \<longleftrightarrow> book_inv (bs_ob s) \<and> length (bs_buffer s) \<le> kMaxBuffer \<and>
     (\<not> bs_resync_pending s \<longrightarrow> ob_initialized (bs_ob s) \<and> bs_buffer s = [])"

text \<open>The events of a list that a book at update id \<open>k\<close> takes, one after the other.\<close>

fun fresh_events :: "u64 \<Rightarrow> DepthEvent list \<Rightarrow> DepthEvent list" where
  "fresh_events k [] = []"
| "fresh_events k (ev # evs) =
     (if ev_u ev \<le> k then fresh_events k evs else ev # fresh_events (ev_u ev) evs)"

text \<open>
  The venue's condition under which a diff continues a book at id \<open>k\<close>.  \<open>started\<close> tells
  whether a diff was applied since the snapshot (used by USD-M only).
\<close>

fun continues :: "Venue \<Rightarrow> bool \<Rightarrow> u64 \<Rightarrow> DepthEvent \<Rightarrow> bool" where
  "continues Spot started k ev \<longleftrightarrow> unat k < unat (ev_u ev) \<and> unat (ev_U ev) \<le> unat k + 1"
| "continues Usdm started k ev \<longleftrightarrow> unat k < unat (ev_u ev) \<and>
     (if started then ev_pu ev = k else unat (ev_U ev) \<le> unat k)"

definition applied_book :: "OrderBook \<Rightarrow> DepthEvent \<Rightarrow> OrderBook" where
  "applied_book ob ev = (apply_levels ob (ev_bids ev) (ev_asks ev))\<lparr>ob_last_update_id := ev_u ev,
     ob_started := True\<rparr>"

text \<open>The books after each of a list of applied events.\<close>

fun book_chain :: "OrderBook \<Rightarrow> DepthEvent list \<Rightarrow> OrderBook list" where
  "book_chain ob [] = []"
| "book_chain ob (ev # evs) = applied_book ob ev # book_chain (applied_book ob ev) evs"

text \<open>The first event of a buffer is one the book cannot take: it is ahead of it.\<close>

definition stuck :: "BookSession \<Rightarrow> bool" where
  "stuck s \<longleftrightarrow> (case bs_buffer s of
       [] \<Rightarrow> False
     | ev # _ \<Rightarrow> ob_last_update_id (bs_ob s) < ev_u ev \<and>
         \<not> continues (bs_venue s) (ob_started (bs_ob s)) (ob_last_update_id (bs_ob s)) ev)"

section \<open>The exchange\<close>

text \<open>
  The exchange's own book of a symbol, per update id: bids and asks.  A message speaks for a
  set \<open>P\<close> of prices (all prices, or the band that a depth-limited snapshot covers).
\<close>

type_synonym exchange = "u64 \<Rightarrow> (i64 \<rightharpoonup> i64) \<times> (i64 \<rightharpoonup> i64)"

definition agree_on :: "i64 set \<Rightarrow> (i64 \<rightharpoonup> i64) \<Rightarrow> (i64 \<rightharpoonup> i64) \<Rightarrow> bool" where
  "agree_on P m m' \<longleftrightarrow> (\<forall>p \<in> P. m p = m' p)"

text \<open>
  What the exchange documents about the levels of a diff: each listed level carries the absolute
  quantity at \<open>u\<close> (zero for a removed level), and a price that is not listed has the same
  quantity at \<open>u\<close> as at every id \<open>k\<close> the diff continues.
\<close>

definition reports :: "i64 set \<Rightarrow> (u64 \<Rightarrow> (i64 \<rightharpoonup> i64)) \<Rightarrow> u64 \<Rightarrow> u64 \<Rightarrow> Level list \<Rightarrow> bool" where
  "reports P M k u ls \<longleftrightarrow>
     (\<forall>l \<in> set ls. M u (price l) = (if qty l = 0 then None else Some (qty l))) \<and>
     (\<forall>p \<in> P. p \<notin> price ` set ls \<longrightarrow> M k p = M u p)"

definition faithful_event :: "Venue \<Rightarrow> i64 set \<Rightarrow> exchange \<Rightarrow> DepthEvent \<Rightarrow> bool" where
  "faithful_event v P B ev \<longleftrightarrow> (\<forall>k started. continues v started k ev \<longrightarrow>
     reports P (fst \<circ> B) k (ev_u ev) (ev_bids ev) \<and> reports P (snd \<circ> B) k (ev_u ev) (ev_asks ev))"

definition faithful_snapshot :: "i64 set \<Rightarrow> exchange \<Rightarrow> Level list \<Rightarrow> Level list \<Rightarrow> u64 \<Rightarrow> bool" where
  "faithful_snapshot P B bids asks sid \<longleftrightarrow>
     agree_on P (snapshot_map bids) (fst (B sid)) \<and> agree_on P (snapshot_map asks) (snd (B sid))"

fun faithful_op :: "Venue \<Rightarrow> i64 set \<Rightarrow> exchange \<Rightarrow> session_op \<Rightarrow> bool" where
  "faithful_op v P B (SDiff ev) = faithful_event v P B ev"
| "faithful_op v P B (SSnapshot bids asks sid) = faithful_snapshot P B bids asks sid"
| "faithful_op v P B SResync = True"

text \<open>The book holds, on \<open>P\<close>, what the exchange had at the book's update id.\<close>

definition tracks :: "i64 set \<Rightarrow> exchange \<Rightarrow> OrderBook \<Rightarrow> bool" where
  "tracks P B ob \<longleftrightarrow>
     agree_on P (map_of (ob_bids ob)) (fst (B (ob_last_update_id ob))) \<and>
     agree_on P (map_of (ob_asks ob)) (snd (B (ob_last_update_id ob)))"

definition exchange_inv :: "Venue \<Rightarrow> i64 set \<Rightarrow> exchange \<Rightarrow> BookSession \<Rightarrow> bool" where
  "exchange_inv v P B s \<longleftrightarrow> bs_venue s = v \<and> (\<forall>ev \<in> set (bs_buffer s). faithful_event v P B ev) \<and>
     (ob_initialized (bs_ob s) \<longrightarrow> tracks P B (bs_ob s))"

section \<open>One event\<close>

declare replay_loop.simps [simp del]

lemma apply_diff_eq:
  "apply_diff s ev =
     (if \<not> ob_initialized (bs_ob s) then (bs_ob s, NeedSnapshot)
      else if ev_u ev \<le> ob_last_update_id (bs_ob s) then (bs_ob s, IgnoredOld)
      else if continues (bs_venue s) (ob_started (bs_ob s)) (ob_last_update_id (bs_ob s)) ev
      then (applied_book (bs_ob s) ev, Applied) else (bs_ob s, Gap))"
proof (cases "bs_venue s")
  case Spot
  then show ?thesis
    using apply_diff_spot_result [of "bs_ob s" "ev_U ev" "ev_u ev" "ev_bids ev" "ev_asks ev"]
      apply_diff_spot_book [of "bs_ob s" "ev_U ev" "ev_u ev" "ev_bids ev" "ev_asks ev"]
    by (simp add: apply_diff_def prod_eq_iff word_le_nat_alt applied_book_def)
next
  case Usdm
  then show ?thesis
    using apply_diff_usdm_result [of "bs_ob s" "ev_U ev" "ev_u ev" "ev_pu ev" "ev_bids ev" "ev_asks ev"]
      apply_diff_usdm_book [of "bs_ob s" "ev_U ev" "ev_u ev" "ev_pu ev" "ev_bids ev" "ev_asks ev"]
    by (auto simp: apply_diff_def prod_eq_iff word_le_nat_alt applied_book_def)
qed

lemma apply_one_eq:
  "apply_one s ev =
     (if \<not> ob_initialized (bs_ob s) then (s\<lparr>bs_resync_pending := True\<rparr>, OutBuffered)
      else if ev_u ev \<le> ob_last_update_id (bs_ob s) then (s, OutDropped)
      else if continues (bs_venue s) (ob_started (bs_ob s)) (ob_last_update_id (bs_ob s)) ev
      then (s\<lparr>bs_ob := applied_book (bs_ob s) ev\<rparr>, OutApplied)
      else (s\<lparr>bs_resync_pending := True\<rparr>, OutResyncNeeded))"
  by (simp add: apply_one_def apply_diff_eq)

lemma applied_book_seq [simp]:
  "ob_last_update_id (applied_book ob ev) = ev_u ev"
  "ob_started (applied_book ob ev) = True"
  by (simp_all add: applied_book_def)

lemma applied_book_abs:
  "abs_book (applied_book ob ev) = spec_apply (abs_book ob) (ev_u ev) (ev_bids ev) (ev_asks ev)"
  by (simp add: applied_book_def abs_seq_update abs_apply_levels spec_apply_def)

lemma applied_book_initialized [simp]: "ob_initialized (applied_book ob ev) = ob_initialized ob"
  using applied_book_abs [of ob ev] by (metis abs_book_sel(1) spec_apply_def SpecBook.select_convs(1)
      SpecBook.surjective SpecBook.update_convs(2,3,4,5))

lemma book_inv_applied [simp]: "book_inv ob \<Longrightarrow> book_inv (applied_book ob ev)"
  by (simp add: applied_book_def book_inv_apply_levels)

lemma set_snapshot_seq [simp]:
  "ob_initialized (set_snapshot ob bids asks sid)"
  "ob_last_update_id (set_snapshot ob bids asks sid) = sid"
  "\<not> ob_started (set_snapshot ob bids asks sid)"
  by (simp_all add: set_snapshot_def Let_def)

lemma reset_book_seq [simp]: "\<not> ob_initialized (reset_book ob)"
  by (simp add: reset_book_def)

section \<open>The replay loop\<close>

text \<open>
  The loop on a seeded session, as recursion over the buffer: events at or below the book's id
  are skipped (the snapshot id is never above it, so the first test of the code is implied by
  the \<open>IgnoredOld\<close> branch), an event that continues the book is applied and reported, and the
  first one that does not stops the loop.
\<close>

fun replay :: "BookSession \<Rightarrow> DepthEvent list \<Rightarrow> BookSession \<times> (DepthEvent \<times> OrderBook) list" where
  "replay s [] = (s\<lparr>bs_buffer := []\<rparr>, [])"
| "replay s (ev # evs) =
     (if ev_u ev \<le> ob_last_update_id (bs_ob s) then replay s evs
      else if continues (bs_venue s) (ob_started (bs_ob s)) (ob_last_update_id (bs_ob s)) ev
      then
        let ob = applied_book (bs_ob s) ev;
            (s', calls) = replay (s\<lparr>bs_ob := ob\<rparr>) evs
        in (s', (ev, ob) # calls)
      else (s\<lparr>bs_resync_pending := True, bs_buffer := ev # evs\<rparr>, []))"

lemma buffer_ob_swap: "s\<lparr>bs_buffer := b, bs_ob := ob\<rparr> = s\<lparr>bs_ob := ob, bs_buffer := b\<rparr>"
  by simp

text \<open>The old buffer of the session plays no part in a replay.\<close>

lemma replay_any_buffer: "replay (s\<lparr>bs_buffer := b\<rparr>) evs = replay s evs"
proof (induction evs arbitrary: s)
  case (Cons ev evs)
  have "replay (s\<lparr>bs_buffer := b, bs_ob := ob\<rparr>) evs = replay (s\<lparr>bs_ob := ob\<rparr>) evs" for ob
    unfolding buffer_ob_swap by (rule Cons.IH)
  then show ?case
    by (simp add: Cons.IH)
qed simp

lemma replay_loop_eq:
  assumes "ob_initialized (bs_ob s)" "sid \<le> ob_last_update_id (bs_ob s)"
  shows "replay_loop sid s n calls =
    (let (s', new) = replay s (bs_buffer s) in (s', n + length new, calls @ new))"
  using assms
proof (induction "bs_buffer s" arbitrary: s n calls)
  case Nil
  then have "s\<lparr>bs_buffer := []\<rparr> = s" by simp
  with Nil show ?case
    by (simp add: replay_loop.simps [of sid s] flip: Nil.hyps)
next
  case (Cons ev evs)
  have buf: "bs_buffer s = ev # evs" using Cons.hyps(2) by simp
  let ?k = "ob_last_update_id (bs_ob s)"
  consider (old) "ev_u ev \<le> ?k"
    | (app) "\<not> ev_u ev \<le> ?k" "continues (bs_venue s) (ob_started (bs_ob s)) ?k ev"
    | (gap) "\<not> ev_u ev \<le> ?k" "\<not> continues (bs_venue s) (ob_started (bs_ob s)) ?k ev"
    by blast
  then show ?case
  proof cases
    case old
    have "replay_loop sid s n calls = replay_loop sid (s\<lparr>bs_buffer := evs\<rparr>) n calls"
      using old Cons.prems buf by (simp add: replay_loop.simps [of sid s] apply_one_eq)
    then show ?thesis
      using old buf Cons.prems Cons.hyps(1) [of "s\<lparr>bs_buffer := evs\<rparr>" n calls]
      by (simp add: replay_any_buffer)
  next
    case app
    let ?ob = "applied_book (bs_ob s) ev"
    have fresh: "\<not> ev_u ev \<le> sid" "sid \<le> ev_u ev"
      using app(1) Cons.prems(2) by auto
    then have "replay_loop sid s n calls =
        replay_loop sid (s\<lparr>bs_ob := ?ob, bs_buffer := evs\<rparr>) (n + 1) (calls @ [(ev, ?ob)])"
      using app Cons.prems buf by (simp add: replay_loop.simps [of sid s] apply_one_eq)
    also have "\<dots> = (let (s', new) = replay (s\<lparr>bs_ob := ?ob\<rparr>) evs
        in (s', n + 1 + length new, (calls @ [(ev, ?ob)]) @ new))"
      using Cons.hyps(1) [of "s\<lparr>bs_ob := ?ob, bs_buffer := evs\<rparr>" "n + 1" "calls @ [(ev, ?ob)]"]
        Cons.prems(1) fresh(2) replay_any_buffer [where s = "s\<lparr>bs_ob := ?ob\<rparr>" and b = evs and evs = evs] by simp
    finally show ?thesis
      using app buf by (simp add: Let_def split_beta)
  next
    case gap
    then have "\<not> ev_u ev \<le> sid"
      using Cons.prems(2) by auto
    then show ?thesis
      using gap Cons.prems buf by (simp add: replay_loop.simps [of sid s] apply_one_eq)
  qed
qed

definition seeded :: "BookSession \<Rightarrow> Level list \<Rightarrow> Level list \<Rightarrow> u64 \<Rightarrow> BookSession" where
  "seeded s bids asks sid =
     s\<lparr>bs_ob := set_snapshot (bs_ob s) bids asks sid, bs_resync_pending := False\<rparr>"

lemma seeded_sel [simp]:
  "bs_ob (seeded s bids asks sid) = set_snapshot (bs_ob s) bids asks sid"
  "\<not> bs_resync_pending (seeded s bids asks sid)"
  "bs_venue (seeded s bids asks sid) = bs_venue s"
  "bs_buffer (seeded s bids asks sid) = bs_buffer s"
  "bs_overflows (seeded s bids asks sid) = bs_overflows s"
  by (simp_all add: seeded_def)

lemma on_snapshot_eq:
  "on_snapshot s bids asks sid =
     (let (s', new) = replay (seeded s bids asks sid) (bs_buffer s) in (s', length new, new))"
proof -
  have "replay_loop sid (seeded s bids asks sid) 0 [] =
      (let (s', new) = replay (seeded s bids asks sid) (bs_buffer s) in (s', 0 + length new, [] @ new))"
    using replay_loop_eq [of "seeded s bids asks sid" sid 0 "[]"] by simp
  then show ?thesis
    by (simp add: on_snapshot_def seeded_def)
qed

text \<open>
  What a replay leaves: the events it has not consumed, with the waiting flag set iff there are
  any, and the calls it made, one per fresh event, each with the book right after it.
\<close>

lemma replay_suffix:
  assumes "\<not> bs_resync_pending s"
  shows "\<exists>pre. evs = pre @ bs_buffer (fst (replay s evs)) \<and>
    map fst (snd (replay s evs)) = fresh_events (ob_last_update_id (bs_ob s)) pre"
  using assms
proof (induction s evs rule: replay.induct)
  case (2 s ev evs)
  let ?k = "ob_last_update_id (bs_ob s)"
  let ?s = "s\<lparr>bs_ob := applied_book (bs_ob s) ev\<rparr>"
  consider (old) "ev_u ev \<le> ?k"
    | (app) "\<not> ev_u ev \<le> ?k" "continues (bs_venue s) (ob_started (bs_ob s)) ?k ev"
    | (gap) "\<not> ev_u ev \<le> ?k" "\<not> continues (bs_venue s) (ob_started (bs_ob s)) ?k ev"
    by blast
  then show ?case
  proof cases
    case old
    with "2.IH"(1) "2.prems" obtain pre where "evs = pre @ bs_buffer (fst (replay s evs))"
        "map fst (snd (replay s evs)) = fresh_events ?k pre"
      by blast
    with old show ?thesis
      by (intro exI [of _ "ev # pre"]) simp
  next
    case app
    with "2.IH"(2) [OF app] "2.prems" obtain pre where "evs = pre @ bs_buffer (fst (replay ?s evs))"
        "map fst (snd (replay ?s evs)) = fresh_events (ev_u ev) pre"
      by auto
    with app show ?thesis
      by (intro exI [of _ "ev # pre"]) (simp add: Let_def split_beta)
  qed (auto intro: exI [of _ "[]"])
qed simp

lemma replay_chain:
  "map snd (snd (replay s evs)) = book_chain (bs_ob s) (map fst (snd (replay s evs)))"
  by (induction s evs rule: replay.induct) (auto simp: Let_def split_beta)

lemma stuck_at:
  "stuck (s\<lparr>bs_resync_pending := b, bs_buffer := ev # evs\<rparr>) \<longleftrightarrow>
     ob_last_update_id (bs_ob s) < ev_u ev \<and>
     \<not> continues (bs_venue s) (ob_started (bs_ob s)) (ob_last_update_id (bs_ob s)) ev"
  by (simp add: stuck_def)

lemma replay_end:
  assumes "\<not> bs_resync_pending s"
  shows "if bs_resync_pending (fst (replay s evs)) then stuck (fst (replay s evs))
    else bs_buffer (fst (replay s evs)) = []"
  using assms
  by (induction s evs rule: replay.induct) (auto simp: Let_def split_beta stuck_at)

lemma replay_pending_iff:
  "\<not> bs_resync_pending s \<Longrightarrow>
     bs_resync_pending (fst (replay s evs)) \<longleftrightarrow> bs_buffer (fst (replay s evs)) \<noteq> []"
  using replay_end [of s evs] by (auto simp: stuck_def split: if_splits list.splits)

lemma replay_venue [simp]: "bs_venue (fst (replay s evs)) = bs_venue s"
  by (induction s evs rule: replay.induct) (auto simp: Let_def split_beta)

lemma replay_overflows [simp]: "bs_overflows (fst (replay s evs)) = bs_overflows s"
  by (induction s evs rule: replay.induct) (auto simp: Let_def split_beta)

lemma replay_keeps:
  assumes "book_inv (bs_ob s)" "ob_initialized (bs_ob s)"
  shows "book_inv (bs_ob (fst (replay s evs)))" "ob_initialized (bs_ob (fst (replay s evs)))"
  using assms by (induction s evs rule: replay.induct) (auto simp: Let_def split_beta)

section \<open>The session invariant\<close>

lemma session_inv_new [simp]: "session_inv (new_BookSession i v)"
  by (simp add: session_inv_def new_BookSession_def)

lemma session_inv_buffer_event:
  assumes "book_inv (bs_ob s)" "bs_resync_pending s" "length (bs_buffer s) \<le> kMaxBuffer"
  shows "session_inv (buffer_event s ev)"
  using assms by (simp add: session_inv_def buffer_event_def Let_def kMaxBuffer_def book_inv_reset)

lemma session_inv_on_diff:
  assumes "session_inv s"
  shows "session_inv (fst (on_diff s ev))"
proof (cases "bs_resync_pending s \<or> \<not> ob_initialized (bs_ob s)")
  case True
  then have "bs_resync_pending s"
    using assms by (auto simp: session_inv_def)
  with True assms show ?thesis
    by (simp add: on_diff_def session_inv_def [of s] session_inv_buffer_event)
next
  case False
  with assms show ?thesis
    by (auto simp: on_diff_def apply_one_eq session_inv_def [of s] session_inv_buffer_event)
      (simp_all add: session_inv_def kMaxBuffer_def)
qed

lemma session_inv_on_snapshot:
  assumes "session_inv s"
  shows "session_inv (fst (on_snapshot s bids asks sid))"
proof -
  let ?r = "replay (seeded s bids asks sid) (bs_buffer s)"
  from replay_suffix [of "seeded s bids asks sid" "bs_buffer s"] obtain pre where
    "bs_buffer s = pre @ bs_buffer (fst ?r)"
    by auto
  then have "length (bs_buffer (fst ?r)) \<le> length (bs_buffer s)"
    by (metis le_add2 length_append)
  then show ?thesis
    using assms replay_pending_iff [of "seeded s bids asks sid" "bs_buffer s"] replay_keeps [of "seeded s bids asks sid" "bs_buffer s"]
    by (simp add: on_snapshot_eq split_beta Let_def session_inv_def book_inv_set_snapshot)
qed

lemma session_inv_request_resync: "session_inv s \<Longrightarrow> session_inv (request_resync s)"
  by (simp add: request_resync_def session_inv_def book_inv_reset)

lemma session_inv_step: "session_inv s \<Longrightarrow> session_inv (session_step s e)"
  by (cases e) (simp_all add: session_inv_on_diff session_inv_on_snapshot session_inv_request_resync)

interpretation session_run: transition_system "new_BookSession i v" session_step session_inv for i v
  by unfold_locales (simp_all add: session_inv_step)

section \<open>Following the exchange\<close>

lemma set_levels_reports:
  assumes "agree_on P m (M k)" "reports P M k u ls"
  shows "agree_on P (set_levels m ls) (M u)"
proof -
  have "set_levels m ls p = (if p \<in> price ` set ls then M u p else m p)"
    if "\<forall>l \<in> set ls. M u (price l) = (if qty l = 0 then None else Some (qty l))" for p
    using that
    by (induction ls rule: rev_induct) (auto simp: set_levels_def set_level_def split: if_splits)
  then show ?thesis
    using assms by (auto simp: agree_on_def reports_def)
qed

lemma tracks_abs:
  "tracks P B ob \<longleftrightarrow> agree_on P (sb_bids (abs_book ob)) (fst (B (ob_last_update_id ob))) \<and>
     agree_on P (sb_asks (abs_book ob)) (snd (B (ob_last_update_id ob)))"
  by (simp add: tracks_def abs_book_def)

lemma tracks_set_snapshot:
  "faithful_snapshot P B bids asks sid \<Longrightarrow> tracks P B (set_snapshot ob bids asks sid)"
  using abs_book_step [of ob "OpSnapshot bids asks sid"]
  by (simp add: tracks_abs faithful_snapshot_def)

lemma tracks_applied:
  assumes "tracks P B ob" "faithful_event v P B ev" "continues v started (ob_last_update_id ob) ev"
  shows "tracks P B (applied_book ob ev)"
proof -
  have "reports P (fst \<circ> B) (ob_last_update_id ob) (ev_u ev) (ev_bids ev)"
    "reports P (snd \<circ> B) (ob_last_update_id ob) (ev_u ev) (ev_asks ev)"
    using assms(2,3) unfolding faithful_event_def by blast+
  with assms(1) set_levels_reports [of P _ "fst \<circ> B"] set_levels_reports [of P _ "snd \<circ> B"]
  show ?thesis
    by (auto simp: tracks_abs applied_book_abs spec_apply_def)
qed

lemma replay_tracks:
  assumes "tracks P B (bs_ob s)" "\<forall>ev \<in> set evs. faithful_event (bs_venue s) P B ev"
  shows "tracks P B (bs_ob (fst (replay s evs))) \<and> (\<forall>(ev, ob) \<in> set (snd (replay s evs)). tracks P B ob)"
  using assms
proof (induction s evs rule: replay.induct)
  case (2 s ev evs)
  let ?k = "ob_last_update_id (bs_ob s)"
  show ?case
  proof (cases "\<not> ev_u ev \<le> ?k \<and> continues (bs_venue s) (ob_started (bs_ob s)) ?k ev")
    case True
    then have "tracks P B (applied_book (bs_ob s) ev)"
      using "2.prems" by (intro tracks_applied) auto
    with True "2.IH"(2) "2.prems" show ?thesis
      by (auto simp: Let_def split_beta)
  next
    case False
    with 2 show ?thesis by (auto simp: not_le)
  qed
qed simp

lemma exchange_inv_buffer_event:
  assumes "bs_venue s = v" "\<forall>e \<in> set (bs_buffer s). faithful_event v P B e" "faithful_event v P B ev"
    "ob_initialized (bs_ob s) \<longrightarrow> tracks P B (bs_ob s)"
  shows "exchange_inv v P B (buffer_event s ev)"
  using assms by (auto simp: exchange_inv_def buffer_event_def Let_def)

lemma exchange_inv_step:
  assumes "exchange_inv v P B s" "faithful_op v P B e"
  shows "exchange_inv v P B (session_step s e)"
proof (cases e)
  case (SDiff ev)
  with assms show ?thesis
    by (auto simp: on_diff_def apply_one_eq exchange_inv_def [of _ _ _ s] intro!: exchange_inv_buffer_event)
      (auto simp: exchange_inv_def intro: tracks_applied)
next
  case (SSnapshot bids asks sid)
  let ?r = "replay (seeded s bids asks sid) (bs_buffer s)"
  have "tracks P B (bs_ob (fst ?r))"
    using assms SSnapshot replay_tracks [of P B "seeded s bids asks sid" "bs_buffer s"]
    by (simp add: exchange_inv_def tracks_set_snapshot)
  moreover have "set (bs_buffer (fst ?r)) \<subseteq> set (bs_buffer s)"
    using replay_suffix [of "seeded s bids asks sid" "bs_buffer s"]
    by (metis Un_iff seeded_sel(2) set_append subsetI)
  moreover have "bs_venue (fst ?r) = bs_venue s"
    by (simp add: replay_venue)
  ultimately show ?thesis
    using assms SSnapshot by (auto simp: exchange_inv_def on_snapshot_eq split_beta Let_def)
next
  case SResync
  with assms show ?thesis
    by (simp add: exchange_inv_def request_resync_def)
qed

lemma exchange_inv_run:
  "\<forall>e \<in> set ops. faithful_op v P B e \<Longrightarrow> exchange_inv v P B s \<Longrightarrow>
     exchange_inv v P B (foldl session_step s ops)"
  by (induction ops arbitrary: s) (auto intro: exchange_inv_step)

lemma exchange_inv_new: "exchange_inv v P B (new_BookSession i v)"
  by (simp add: exchange_inv_def new_BookSession_def new_OrderBook_def)

section \<open>Properties\<close>

text \<open>
  C5: The local book follows the exchange.  Let every diff fed to the session report the absolute
  quantities the exchange documents, and every snapshot agree with the exchange's book at its
  \<open>lastUpdateId\<close>, on a set \<open>P\<close> of prices.  Then, whatever was lost, reordered or duplicated on
  the way, whenever the book is initialized its two sides are, on \<open>P\<close>, the exchange's book at
  the update id the book claims.
\<close>

theorem session_follows_exchange:
  assumes "\<forall>e \<in> set ops. faithful_op v P B e"
    and "ob_initialized (bs_ob (foldl session_step (new_BookSession i v) ops))"
  shows "tracks P B (bs_ob (foldl session_step (new_BookSession i v) ops))"
  using exchange_inv_run [OF assms(1) exchange_inv_new] assms(2) by (simp add: exchange_inv_def)

text \<open>
  C13: A session fails closed and its memory is bounded.  After any sequence of diffs, snapshots
  and resync requests the buffer holds at most 65536 events, and the session either waits for a
  snapshot or has an initialized book with no event left to replay.
\<close>

theorem session_fails_closed:
  "length (bs_buffer (foldl session_step (new_BookSession i v) ops)) \<le> 65536 \<and>
   (bs_resync_pending (foldl session_step (new_BookSession i v) ops) \<or>
    ob_initialized (bs_ob (foldl session_step (new_BookSession i v) ops)) \<and>
    bs_buffer (foldl session_step (new_BookSession i v) ops) = [])"
  using session_run.inv_run [of i v ops] by (auto simp: session_inv_def kMaxBuffer_def)

text \<open>
  C14: A snapshot consumes a prefix of the buffer and loses nothing.  The calls of \<open>on_applied\<close>
  are exactly the events of that prefix that are newer than what the book has, in order, each
  with the book right after it; the returned number counts them; and either the whole buffer is
  consumed and the session is live, or it waits again and keeps the rest, which starts with an
  event that is ahead of the book.
\<close>

theorem snapshot_replays_buffer:
  "case on_snapshot s bids asks sid of (s', applied, calls) \<Rightarrow>
     (\<exists>pre. bs_buffer s = pre @ bs_buffer s' \<and> map fst calls = fresh_events sid pre) \<and>
     map snd calls = book_chain (set_snapshot (bs_ob s) bids asks sid) (map fst calls) \<and>
     applied = length calls \<and>
     (if bs_resync_pending s' then stuck s' else bs_buffer s' = [])"
  using replay_suffix [of "seeded s bids asks sid" "bs_buffer s"]
    replay_chain [of "seeded s bids asks sid" "bs_buffer s"]
    replay_end [of "seeded s bids asks sid" "bs_buffer s"]
  by (simp add: on_snapshot_eq split_beta Let_def)

text \<open>
  C15: A live diff on every branch.  A waiting session buffers the event.  Otherwise an event at or
  below the book's id is dropped without effect; one that continues the book by the venue's rule
  is applied; any other one makes the session wait and is kept as the only buffered event.
\<close>

theorem live_diff_exact:
  assumes "session_inv s"
  shows "on_diff s ev =
    (if bs_resync_pending s then (buffer_event s ev, OutBuffered)
     else if ev_u ev \<le> ob_last_update_id (bs_ob s) then (s, OutDropped)
     else if continues (bs_venue s) (ob_started (bs_ob s)) (ob_last_update_id (bs_ob s)) ev
     then (s\<lparr>bs_ob := applied_book (bs_ob s) ev\<rparr>, OutApplied)
     else (s\<lparr>bs_resync_pending := True, bs_buffer := [ev]\<rparr>, OutResyncNeeded))"
  using assms by (auto simp: on_diff_def apply_one_eq session_inv_def buffer_event_def kMaxBuffer_def)

definition test_event :: "u64 \<Rightarrow> u64 \<Rightarrow> Level list \<Rightarrow> DepthEvent" where
  "test_event U u bids = new_DepthEvent\<lparr>ev_U := U, ev_u := u, ev_bids := bids\<rparr>"

theorem live_diff_exact_witness:
  "on_diff (new_BookSession 8 Spot) (test_event 20 25 []) =
     (buffer_event (new_BookSession 8 Spot) (test_event 20 25 []), OutBuffered)"
  using live_diff_exact [OF session_inv_new, of 8 Spot "test_event 20 25 []"]
  by (simp add: new_BookSession_def)

text \<open>
  An exchange whose best bid is 100, with quantity 1 up to update id 54 and 7 from 55 on: a
  snapshot at 50 followed by the diff 51 to 55.
\<close>

definition test_exchange :: exchange where
  "test_exchange k = ([100 \<mapsto> if k < 55 then 1 else 7], [101 \<mapsto> 1])"

definition test_feed :: "session_op list" where
  "test_feed = [SSnapshot [\<lparr>price = 100, qty = 1\<rparr>] [\<lparr>price = 101, qty = 1\<rparr>] 50,
     SDiff (test_event 51 55 [\<lparr>price = 100, qty = 7\<rparr>])]"

theorem session_follows_exchange_witness:
  "tracks UNIV test_exchange (bs_ob (foldl session_step (new_BookSession 21 Spot) test_feed)) \<and>
   ob_last_update_id (bs_ob (foldl session_step (new_BookSession 21 Spot) test_feed)) = 55"
proof
  have "faithful_op Spot UNIV test_exchange e" if "e \<in> set test_feed" for e
    using that
    by (auto simp: test_feed_def faithful_snapshot_def faithful_event_def agree_on_def reports_def
        snapshot_map_def test_exchange_def test_event_def new_DepthEvent_def)
  moreover have "ob_initialized (bs_ob (foldl session_step (new_BookSession 21 Spot) test_feed))"
    by code_simp
  ultimately show "tracks UNIV test_exchange (bs_ob (foldl session_step (new_BookSession 21 Spot) test_feed))"
    by (intro session_follows_exchange) auto
  show "ob_last_update_id (bs_ob (foldl session_step (new_BookSession 21 Spot) test_feed)) = 55"
    by code_simp
qed

text \<open>The calls and expectations of \<open>test_gap_suffix_preserved\<close>, evaluated.\<close>

lemma test_gap_suffix_preserved:
  "let s = foldl session_step (new_BookSession 31 Spot)
             [SDiff (test_event 100 105 []), SDiff (test_event 200 205 [])];
       (s1, a1, c1) = on_snapshot s [\<lparr>price = 100, qty = 1\<rparr>] [\<lparr>price = 101, qty = 1\<rparr>] 99;
       (s2, a2, c2) = on_snapshot s1 [\<lparr>price = 100, qty = 1\<rparr>] [\<lparr>price = 101, qty = 1\<rparr>] 199
   in a1 = 1 \<and> bs_resync_pending s1 \<and> length (bs_buffer s1) = 1 \<and>
      a2 = 1 \<and> \<not> bs_resync_pending s2 \<and> ob_last_update_id (bs_ob s2) = 205 \<and> bs_buffer s2 = []"
  by code_simp

end
