(* ===== verification/Decimal.thy ===== *)
theory Decimal
  imports Lob_Types
begin

text \<open>
  Decimal text: the fixed-point parser \<open>parse_scaled\<close> (declared in \<open>include/types.hpp\<close>, defined in
  \<open>src/json_min.cpp\<close>) and the conversions of the C library that the program uses (\<open>%lld\<close>,
  \<open>%llu\<close> and \<open>std::to_string\<close> to print, \<open>strtoull\<close>, \<open>atoll\<close> and \<open>atoi\<close> to read).

  \<open>__int128\<close> values are \<open>int\<close>; \<open>int_loop_bound\<close>, \<open>frac_loop_bound\<close> and \<open>magnitude_bound\<close> show that
  none of them leaves the 128-bit range.
\<close>

section \<open>Digits\<close>

definition is_digit :: "char \<Rightarrow> bool" where
  "is_digit c \<longleftrightarrow> 48 \<le> (of_char c :: nat) \<and> (of_char c :: nat) \<le> 57"

definition digit_val :: "char \<Rightarrow> int" where
  "digit_val c = int (of_char c) - 48"

definition digit_char :: "nat \<Rightarrow> char" where
  "digit_char d = char_of (48 + d)"

text \<open>The value of a string of digits.\<close>

definition digits_val :: "string \<Rightarrow> int" where
  "digits_val s = foldl (\<lambda>v c. v * 10 + digit_val c) 0 s"

abbreviation all_digits :: "string \<Rightarrow> bool" where
  "all_digits s \<equiv> list_all is_digit s"

section \<open>The fixed-point parser\<close>

text \<open>
  The loop over the integer part: it stops at the end or at the point, and fails on a character
  that is no digit or when the value leaves \<open>INT64_MAX + 1\<close>.
\<close>

fun int_loop :: "string \<Rightarrow> int \<Rightarrow> bool \<Rightarrow> (int \<times> bool \<times> string) option" where
  "int_loop [] v any = Some (v, any, [])"
| "int_loop (c # cs) v any =
     (if c = CHR ''.'' then Some (v, any, c # cs)
      else if \<not> is_digit c then None
      else
        let v' = v * 10 + digit_val c
        in if v' > INT64_MAX + 1 then None else int_loop cs v' True)"

text \<open>The loop over the fraction: digits beyond the scale must be zero.\<close>

fun frac_loop :: "nat \<Rightarrow> string \<Rightarrow> int \<Rightarrow> nat \<Rightarrow> bool \<Rightarrow> (int \<times> nat \<times> bool) option" where
  "frac_loop n [] v k any = Some (v, k, any)"
| "frac_loop n (c # cs) v k any =
     (if \<not> is_digit c then None
      else if k < n then frac_loop n cs (v * 10 + digit_val c) (k + 1) True
      else if c \<noteq> CHR ''0'' then None
      else frac_loop n cs v k True)"

definition magnitude :: "nat \<Rightarrow> int \<Rightarrow> int \<Rightarrow> nat \<Rightarrow> int" where
  "magnitude n intpart frac k = intpart * 10 ^ n + frac * (10 ^ n div 10 ^ k)"

definition finish_scaled :: "bool \<Rightarrow> int \<Rightarrow> int option" where
  "finish_scaled neg mag =
     (let limit = (if neg then INT64_MAX + 1 else INT64_MAX)
      in if mag > limit then None
         else if neg \<and> mag = INT64_MAX + 1 then Some INT64_MIN
         else Some (if neg then - mag else mag))"

definition parse_scaled :: "string \<Rightarrow> int \<Rightarrow> int option" where
  "parse_scaled s scale_pow =
     (if s = [] \<or> scale_pow < 0 \<or> scale_pow > 18 then None
      else
        let n = nat scale_pow;
            neg = (hd s = CHR ''-'');
            rest = (if neg then tl s else s)
        in if rest = [] then None
           else case int_loop rest 0 False of
             None \<Rightarrow> None
           | Some (intpart, any, r) \<Rightarrow>
               (case (if r \<noteq> [] then frac_loop n (tl r) 0 0 any else Some (0, 0, any)) of
                  None \<Rightarrow> None
                | Some (frac, k, any') \<Rightarrow>
                    if \<not> any' then None else finish_scaled neg (magnitude n intpart frac k)))"

section \<open>C library conversions\<close>

text \<open>\<open>%llu\<close> and \<open>std::to_string\<close> of an unsigned value; \<open>%lld\<close> and \<open>%d\<close> of a signed one.\<close>

fun show_nat :: "nat \<Rightarrow> string" where
  "show_nat n = (if n < 10 then [digit_char n] else show_nat (n div 10) @ [digit_char (n mod 10)])"

definition show_int :: "int \<Rightarrow> string" where
  "show_int v = (if v < 0 then CHR ''-'' # show_nat (nat (- v)) else show_nat (nat v))"

definition show_u64 :: "u64 \<Rightarrow> string" where
  "show_u64 w = show_nat (unat w)"

definition is_space :: "char \<Rightarrow> bool" where
  "is_space c \<longleftrightarrow> c = CHR '' '' \<or> 9 \<le> (of_char c :: nat) \<and> (of_char c :: nat) \<le> 13"

text \<open>
  The common grammar of the \<open>strto*\<close> family: blanks, a sign, the longest run of digits.  The
  result is the sign and the digits' value.
\<close>

definition strto_parts :: "string \<Rightarrow> bool \<times> int" where
  "strto_parts s =
     (let r = dropWhile is_space s;
          neg = (r \<noteq> [] \<and> hd r = CHR ''-'');
          ds = (if r \<noteq> [] \<and> (hd r = CHR ''-'' \<or> hd r = CHR ''+'') then tl r else r)
      in (neg, digits_val (takeWhile is_digit ds)))"

text \<open>\<open>strtoull\<close> saturates and negates in the unsigned type.\<close>

definition strtoull :: "string \<Rightarrow> u64" where
  "strtoull s =
     (case strto_parts s of (neg, v) \<Rightarrow>
        if v > 18446744073709551615 then 18446744073709551615
        else if neg then - of_int v else of_int v)"

text \<open>
  \<open>atoll\<close> and \<open>atoi\<close>: undefined by the standard where the value does not fit; as in the C
  libraries that define them through \<open>strtoll\<close>, the value saturates (\<open>atoi\<close> then keeps the low
  32 bits).
\<close>

definition clamp_i64 :: "int \<Rightarrow> int" where
  "clamp_i64 v = max INT64_MIN (min INT64_MAX v)"

definition atoll :: "string \<Rightarrow> i64" where
  "atoll s = (case strto_parts s of (neg, v) \<Rightarrow> clamp_i64 (if neg then - v else v))"

definition atoi :: "string \<Rightarrow> i32" where
  "atoi s = sint (of_int (atoll s) :: 32 word)"

section \<open>Reading and writing numbers\<close>

declare show_nat.simps [simp del]

text \<open>Printing a concrete number by simplification.\<close>

lemmas show_eval = show_int_def show_u64_def show_nat.simps digit_char_def char_of_def bit_Suc_0_iff

lemma digit_char_val [simp]: "d < 10 \<Longrightarrow> digit_val (digit_char d) = int d"
  by (simp add: digit_val_def digit_char_def of_char_of)

lemma is_digit_digit_char [simp]: "d < 10 \<Longrightarrow> is_digit (digit_char d)"
  by (simp add: is_digit_def digit_char_def of_char_of)

lemma digits_val_Nil [simp]: "digits_val [] = 0"
  by (simp add: digits_val_def)

lemma digits_val_single [simp]: "digits_val [c] = digit_val c"
  by (simp add: digits_val_def)

lemma digits_val_snoc [simp]: "digits_val (s @ [c]) = digits_val s * 10 + digit_val c"
  by (simp add: digits_val_def)

lemma digit_val_range: "is_digit c \<Longrightarrow> 0 \<le> digit_val c \<and> digit_val c \<le> 9"
  by (simp add: is_digit_def digit_val_def)

lemma digits_val_append: "digits_val (s @ t) = digits_val s * 10 ^ length t + digits_val t"
proof (induction t rule: rev_induct)
  case (snoc c t)
  have "digits_val (s @ t @ [c]) = digits_val (s @ t) * 10 + digit_val c"
    by (metis append_assoc digits_val_snoc)
  with snoc show ?case by (simp add: algebra_simps)
qed simp

lemma digits_val_nonneg: "all_digits s \<Longrightarrow> 0 \<le> digits_val s"
  by (induction s rule: rev_induct) (auto dest: digit_val_range)

lemma digits_val_bound: "all_digits s \<Longrightarrow> digits_val s < 10 ^ length s"
  by (induction s rule: rev_induct) (auto dest!: digit_val_range)

lemma show_nat_digits: "all_digits (show_nat n)"
  by (induction n rule: show_nat.induct) (subst show_nat.simps, auto)

lemma show_nat_nonempty [simp]: "show_nat n \<noteq> []"
  by (subst show_nat.simps) simp

lemma digits_val_show_nat [simp]: "digits_val (show_nat n) = int n"
proof (induction n rule: show_nat.induct)
  case (1 n)
  show ?case
  proof (cases "n < 10")
    case True
    then show ?thesis
      using digits_val_snoc [of "[]" "digit_char n"] by (simp add: show_nat.simps [of n])
  next
    case False
    then have "digits_val (show_nat n) = int (n div 10) * 10 + int (n mod 10)"
      using 1 by (simp add: show_nat.simps [of n])
    then show ?thesis by (simp add: zdiv_int zmod_int)
  qed
qed

text \<open>A number below \<open>10 ^ k\<close> prints in at most \<open>k\<close> characters.\<close>

lemma length_show_nat: "n < 10 ^ k \<Longrightarrow> 0 < k \<Longrightarrow> length (show_nat n) \<le> k"
proof (induction n arbitrary: k rule: show_nat.induct)
  case (1 n)
  show ?case
  proof (cases "n < 10")
    case True
    with 1(3) show ?thesis by (simp add: show_nat.simps [of n])
  next
    case False
    with 1(2,3) obtain j where k: "k = Suc j" "0 < j"
      by (cases k; cases "k - 1") auto
    then have "n div 10 < 10 ^ j"
      using 1(2) by (simp add: div_less_iff_less_mult mult.commute)
    then have "length (show_nat (n div 10)) \<le> j"
      using 1(1) False k(2) by simp
    with False k show ?thesis by (simp add: show_nat.simps [of n])
  qed
qed

section \<open>The parser computes the scaled value exactly\<close>

text \<open>
  The specification: an optional minus sign, digits, optionally a point and more digits, at least
  one digit in all, and \<open>v\<close> is exactly the denoted number times \<open>10 ^ n\<close> (no rounding) and fits
  in 64 bits.
\<close>

definition decimal_text :: "bool \<Rightarrow> string \<Rightarrow> bool \<Rightarrow> string \<Rightarrow> string" where
  "decimal_text neg ip dot fp =
     (if neg then [CHR ''-''] else []) @ ip @ (if dot then CHR ''.'' # fp else [])"

definition decimal_parts :: "string \<Rightarrow> bool \<Rightarrow> string \<Rightarrow> bool" where
  "decimal_parts ip dot fp \<longleftrightarrow> all_digits ip \<and> all_digits fp \<and> (dot \<or> fp = []) \<and> ip @ fp \<noteq> []"

definition scaled_decimal :: "nat \<Rightarrow> string \<Rightarrow> int \<Rightarrow> bool" where
  "scaled_decimal n s v \<longleftrightarrow> (\<exists>neg ip dot fp. s = decimal_text neg ip dot fp \<and> decimal_parts ip dot fp \<and>
     v * 10 ^ length fp = (if neg then - 1 else 1) * digits_val (ip @ fp) * 10 ^ n \<and> in_i64 v)"

abbreviation all_zero :: "string \<Rightarrow> bool" where
  "all_zero s \<equiv> list_all (\<lambda>c. c = CHR ''0'') s"

lemma not_digit_chars [simp]: "\<not> is_digit CHR ''.''" "\<not> is_digit CHR ''-''" "is_digit CHR ''0''"
  by (simp_all add: is_digit_def)

lemma digits_val_Cons: "digits_val (c # s) = digit_val c * 10 ^ length s + digits_val s"
  using digits_val_append [of "[c]" s] digits_val_snoc [of "[]" c] by simp

lemma int_loop_digits:
  assumes "all_digits ds" "0 \<le> v" "r = [] \<or> hd r = CHR ''.''"
  shows "int_loop (ds @ r) v any =
    (if ds \<noteq> [] \<and> v * 10 ^ length ds + digits_val ds > INT64_MAX + 1 then None
     else Some (v * 10 ^ length ds + digits_val ds, any \<or> ds \<noteq> [], r))"
  using assms(1,2)
proof (induction ds arbitrary: v any)
  case Nil
  then show ?case using assms(3) by (cases r) auto
next
  case (Cons d ds)
  let ?v = "v * 10 + digit_val d"
  have d: "0 \<le> digit_val d" "d \<noteq> CHR ''.''"
    using Cons.prems(1) digit_val_range [of d] by auto
  have total: "?v * 10 ^ length ds + digits_val ds = v * 10 ^ length (d # ds) + digits_val (d # ds)"
    by (simp add: digits_val_Cons algebra_simps)
  have "?v \<le> ?v * 10 ^ length ds + digits_val ds"
    using d Cons.prems digits_val_nonneg [of ds] mult_left_mono [of 1 "10 ^ length ds" ?v] by simp
  with Cons.prems d Cons.IH [of ?v True] show ?case
    unfolding total by (cases "?v > INT64_MAX + 1") (auto simp: Let_def)
qed

lemma int_loop_bad:
  assumes "all_digits ds" "\<not> is_digit c" "c \<noteq> CHR ''.''"
  shows "int_loop (ds @ c # r) v any = None"
  using assms(1)
proof (induction ds arbitrary: v any)
  case (Cons d ds)
  moreover from Cons.prems have "d \<noteq> CHR ''.''" by auto
  ultimately show ?case by (simp add: Let_def)
qed (use assms in simp)

lemma frac_loop_digits:
  assumes "all_digits fp" "k \<le> n"
  shows "frac_loop n fp v k any =
    (if all_zero (drop (n - k) fp)
     then Some (v * 10 ^ min (n - k) (length fp) + digits_val (take (n - k) fp),
       k + min (n - k) (length fp), any \<or> fp \<noteq> []) else None)"
  using assms
proof (induction fp arbitrary: v k any)
  case (Cons c fp)
  show ?case
  proof (cases "k < n")
    case True
    then have "n - k = Suc (n - Suc k)" by simp
    with True Cons show ?thesis
      by (simp add: digits_val_Cons algebra_simps min_def)
  next
    case False
    with Cons show ?thesis by simp
  qed
qed simp

lemma frac_loop_bad: "\<not> all_digits fp \<Longrightarrow> frac_loop n fp v k any = None"
  by (induction fp arbitrary: v k any) auto

text \<open>Digits beyond the scale are zero exactly when their value is.\<close>

lemma all_zero_iff: "all_digits s \<Longrightarrow> all_zero s \<longleftrightarrow> digits_val s = 0"
proof (induction s)
  case (Cons c s)
  have "c = CHR ''0'' \<longleftrightarrow> digit_val c = 0"
    using of_char_eq_iff [of c "CHR ''0''", where 'a = nat] by (simp add: digit_val_def)
  then show ?case
    using Cons digit_val_range [of c] digits_val_nonneg [of s]
    by (auto simp: digits_val_Cons add_nonneg_eq_0_iff)
qed simp

lemma finish_scaled_iff:
  "0 \<le> mag \<Longrightarrow> finish_scaled neg mag = Some v \<longleftrightarrow> v = (if neg then - mag else mag) \<and> in_i64 v"
  by (auto simp: finish_scaled_def range_defs Let_def split: if_splits)

text \<open>The parser on a well-formed text.\<close>

lemma parse_scaled_text:
  assumes "n \<le> 18" "decimal_parts ip dot fp"
  shows "parse_scaled (decimal_text neg ip dot fp) (int n) =
    (if ip \<noteq> [] \<and> digits_val ip > INT64_MAX + 1 \<or> \<not> all_zero (drop n fp) then None
     else finish_scaled neg (magnitude n (digits_val ip) (digits_val (take n fp)) (min n (length fp))))"
proof -
  let ?t = "ip @ (if dot then CHR ''.'' # fp else [])"
  have "hd ?t \<noteq> CHR ''-''" "?t \<noteq> []"
    using assms(2) by (cases ip; force simp: decimal_parts_def)+
  then have head: "(hd (decimal_text neg ip dot fp) = CHR ''-'') = neg"
      "(if neg then tl (decimal_text neg ip dot fp) else decimal_text neg ip dot fp) = ?t"
      "decimal_text neg ip dot fp \<noteq> []"
    by (auto simp: decimal_text_def)
  have loop: "int_loop ?t 0 False =
      (if ip \<noteq> [] \<and> digits_val ip > INT64_MAX + 1 then None
       else Some (digits_val ip, ip \<noteq> [], if dot then CHR ''.'' # fp else []))"
    using assms(2) int_loop_digits [of ip 0 "if dot then CHR ''.'' # fp else []" False]
    by (simp add: decimal_parts_def)
  show ?thesis
    using assms \<open>?t \<noteq> []\<close> head loop
    by (cases dot) (auto simp: parse_scaled_def Let_def decimal_parts_def frac_loop_digits)
qed

lemma parse_scaled_shape:
  assumes "parse_scaled s (int n) = Some v"
  shows "n \<le> 18 \<and> (\<exists>neg ip dot fp. s = decimal_text neg ip dot fp \<and> decimal_parts ip dot fp)"
proof -
  define neg where "neg = (hd s = CHR ''-'')"
  define t where "t = (if neg then tl s else s)"
  define ip where "ip = takeWhile is_digit t"
  define r where "r = dropWhile is_digit t"
  have s: "s = (if neg then [CHR ''-''] else []) @ ip @ r" and ne: "s \<noteq> []"
    using assms by (cases s; auto simp: neg_def t_def ip_def r_def parse_scaled_def)+
  have tr: "t = ip @ r"
    by (simp add: ip_def r_def)
  have ip: "all_digits ip"
    by (simp add: ip_def list_all_iff) (metis set_takeWhileD)
  have body: "parse_scaled s (int n) =
      (if n > 18 \<or> t = [] then None
       else case int_loop t 0 False of
         None \<Rightarrow> None
       | Some (intpart, any, r) \<Rightarrow>
           (case (if r \<noteq> [] then frac_loop n (tl r) 0 0 any else Some (0, 0, any)) of
              None \<Rightarrow> None
            | Some (frac, k, any') \<Rightarrow>
                if \<not> any' then None else finish_scaled neg (magnitude n intpart frac k)))"
    unfolding parse_scaled_def Let_def neg_def t_def nat_int using ne by simp
  have point: "r = [] \<or> hd r = CHR ''.''"
  proof (rule ccontr)
    assume "\<not> ?thesis"
    then obtain c r' where r: "r = c # r'" "c \<noteq> CHR ''.''" by (cases r) auto
    moreover have "\<not> is_digit c"
      using r(1) hd_dropWhile [of is_digit t] by (simp add: r_def)
    ultimately have "int_loop t 0 False = None"
      unfolding tr r(1) by (intro int_loop_bad ip)
    then show False
      using assms by (simp add: body split: if_splits)
  qed
  obtain intpart where loop: "int_loop t 0 False = Some (intpart, ip \<noteq> [], r)"
    using assms int_loop_digits [OF ip order_refl point, of False, folded tr]
    by (auto simp: body split: if_splits)
  have fp: "all_digits (tl r) \<and> ip @ tl r \<noteq> []"
    using assms loop frac_loop_bad [of "tl r" n 0 0 "ip \<noteq> []"]
    by (cases "all_digits (tl r)"; cases "tl r") (auto simp: body split: if_splits option.splits)
  have "decimal_parts ip (r \<noteq> []) (tl r)"
    using ip fp by (auto simp: decimal_parts_def)
  moreover have "s = decimal_text neg ip (r \<noteq> []) (tl r)"
    using s point by (cases r) (auto simp: decimal_text_def)
  moreover have "n \<le> 18"
    using assms by (simp add: body not_le [symmetric] split: if_splits)
  ultimately show ?thesis by blast
qed

lemma magnitude_exact:
  assumes "decimal_parts ip dot fp" "all_zero (drop n fp)"
  shows "magnitude n (digits_val ip) (digits_val (take n fp)) (min n (length fp)) * 10 ^ length fp =
    digits_val (ip @ fp) * 10 ^ n"
proof -
  let ?k = "min n (length fp)"
  have fp: "digits_val fp = digits_val (take n fp) * 10 ^ (length fp - n)"
  proof -
    have "all_digits (drop n fp)"
      using assms(1) by (auto simp: decimal_parts_def list_all_iff dest: in_set_dropD)
    then have "digits_val (drop n fp) = 0"
      using assms(2) all_zero_iff by blast
    then show ?thesis
      using digits_val_append [of "take n fp" "drop n fp"] by simp
  qed
  have "(10::int) ^ n div 10 ^ ?k = 10 ^ (n - ?k)"
    by (simp add: power_diff_power_eq)
  moreover have "n - ?k + length fp = n + (length fp - n)"
    by (simp add: min_def)
  then have "(10::int) ^ (n - ?k) * 10 ^ length fp = 10 ^ n * 10 ^ (length fp - n)"
    by (simp add: power_add [symmetric])
  ultimately show ?thesis
    by (simp add: magnitude_def digits_val_append fp algebra_simps)
qed

lemma scaled_value_zero_tail:
  assumes "decimal_parts ip dot fp" "w * 10 ^ length fp = digits_val (ip @ fp) * 10 ^ n"
  shows "all_zero (drop n fp)"
proof (cases "n < length fp")
  case True
  let ?m = "length fp - n"
  have d: "all_digits (drop n fp)"
    using assms(1) by (auto simp: decimal_parts_def list_all_iff dest: in_set_dropD)
  have "(10::int) ^ length fp = 10 ^ ?m * 10 ^ n"
    using True by (simp add: power_add [symmetric])
  then have "w * 10 ^ ?m = digits_val (ip @ fp)"
    using assms(2) by (simp add: mult.assoc [symmetric])
  moreover have "digits_val (ip @ fp) = digits_val (ip @ take n fp) * 10 ^ ?m + digits_val (drop n fp)"
    using digits_val_append [of "ip @ take n fp" "drop n fp"] True by simp
  ultimately have "digits_val (drop n fp) = (w - digits_val (ip @ take n fp)) * 10 ^ ?m"
    by (simp add: algebra_simps)
  then have "(10::int) ^ ?m dvd digits_val (drop n fp)"
    by simp
  moreover have "0 \<le> digits_val (drop n fp)" "digits_val (drop n fp) < 10 ^ ?m"
    using digits_val_nonneg [OF d] digits_val_bound [OF d] by simp_all
  ultimately have "digits_val (drop n fp) = 0"
    using zdvd_not_zless by (metis less_le)
  then show ?thesis
    using all_zero_iff [OF d] by simp
qed simp

lemma magnitude_ge_int:
  assumes "decimal_parts ip dot fp"
  shows "digits_val ip \<le> magnitude n (digits_val ip) (digits_val (take n fp)) (min n (length fp))"
    and "0 \<le> magnitude n (digits_val ip) (digits_val (take n fp)) (min n (length fp))"
proof -
  have "all_digits ip" "all_digits (take n fp)"
    using assms by (auto simp: decimal_parts_def list_all_iff dest: in_set_takeD)
  then have nn: "0 \<le> digits_val ip" "0 \<le> digits_val (take n fp)"
    by (simp_all add: digits_val_nonneg)
  then have "digits_val ip * 1 \<le> digits_val ip * 10 ^ n"
    by (intro mult_left_mono) simp_all
  moreover have "0 \<le> digits_val (take n fp) * (10 ^ n div 10 ^ min n (length fp))"
    using nn(2) by (simp add: pos_imp_zdiv_nonneg_iff)
  ultimately show "digits_val ip \<le> magnitude n (digits_val ip) (digits_val (take n fp)) (min n (length fp))"
    by (simp add: magnitude_def)
  with nn(1) show "0 \<le> magnitude n (digits_val ip) (digits_val (take n fp)) (min n (length fp))"
    by simp
qed

text \<open>The sign of the text, as a factor.\<close>

abbreviation sgn_of :: "bool \<Rightarrow> int" where
  "sgn_of neg \<equiv> (if neg then - 1 else 1)"

lemma scaled_value_unique:
  assumes "decimal_parts ip dot fp" "all_zero (drop n fp)"
  shows "w * 10 ^ length fp = sgn_of neg * digits_val (ip @ fp) * 10 ^ n \<longleftrightarrow>
    w = sgn_of neg * magnitude n (digits_val ip) (digits_val (take n fp)) (min n (length fp))"
    (is "_ \<longleftrightarrow> w = sgn_of neg * ?M")
proof -
  have "sgn_of neg * digits_val (ip @ fp) * 10 ^ n = (sgn_of neg * ?M) * 10 ^ length fp"
    using magnitude_exact [OF assms] by (simp only: mult.assoc)
  moreover have "w * 10 ^ length fp = (sgn_of neg * ?M) * 10 ^ length fp \<longleftrightarrow> w = sgn_of neg * ?M"
    by (rule mult_cancel_right [THEN trans]) simp
  ultimately show ?thesis by (simp only:)
qed

lemma signed_zero_tail:
  assumes "decimal_parts ip dot fp" "w * 10 ^ length fp = sgn_of neg * digits_val (ip @ fp) * 10 ^ n"
  shows "all_zero (drop n fp)"
proof (rule scaled_value_zero_tail [OF assms(1), of "sgn_of neg * w"])
  have "sgn_of neg * sgn_of neg = 1" by simp
  with assms(2) show "sgn_of neg * w * 10 ^ length fp = digits_val (ip @ fp) * 10 ^ n"
    by (cases neg) simp_all
qed

lemma parse_scaled_text_iff:
  assumes "n \<le> 18" "decimal_parts ip dot fp"
  shows "parse_scaled (decimal_text neg ip dot fp) (int n) = Some v \<longleftrightarrow>
    v * 10 ^ length fp = sgn_of neg * digits_val (ip @ fp) * 10 ^ n \<and> in_i64 v"
proof (cases "all_zero (drop n fp)")
  case False
  then have "v * 10 ^ length fp \<noteq> sgn_of neg * digits_val (ip @ fp) * 10 ^ n"
    using signed_zero_tail [OF assms(2)] by blast
  with False show ?thesis
    unfolding parse_scaled_text [OF assms] by simp
next
  case True
  let ?M = "magnitude n (digits_val ip) (digits_val (take n fp)) (min n (length fp))"
  note M = magnitude_ge_int [OF assms(2), of n]
  have fin: "finish_scaled neg ?M = Some v \<longleftrightarrow> v = sgn_of neg * ?M \<and> in_i64 v"
    using finish_scaled_iff [OF M(2), of neg v] by simp
  have big: "\<not> in_i64 (sgn_of neg * ?M)" if "digits_val ip > INT64_MAX + 1"
    using that M(1) unfolding in_i64_def INT64_MAX_def INT64_MIN_def by (cases neg) simp_all
  show ?thesis
    unfolding parse_scaled_text [OF assms] scaled_value_unique [OF assms(2) True]
    using True fin big by (cases "digits_val ip > INT64_MAX + 1") auto
qed

lemma parse_scaled_iff: "parse_scaled s (int n) = Some v \<longleftrightarrow> n \<le> 18 \<and> scaled_decimal n s v"
proof
  assume a: "parse_scaled s (int n) = Some v"
  then obtain neg ip dot fp where "n \<le> 18" "s = decimal_text neg ip dot fp" "decimal_parts ip dot fp"
    using parse_scaled_shape by blast
  with a parse_scaled_text_iff [of n ip dot fp neg v] show "n \<le> 18 \<and> scaled_decimal n s v"
    unfolding scaled_decimal_def by blast
next
  assume "n \<le> 18 \<and> scaled_decimal n s v"
  then show "parse_scaled s (int n) = Some v"
    unfolding scaled_decimal_def using parse_scaled_text_iff by blast
qed

text \<open>
  C21: The fixed-point parser is exact.  For every text and every scale, \<open>parse_scaled\<close> returns
  \<open>v\<close> exactly when the scale is at most 18 and the text is an optional minus sign, digits and an
  optional fraction with at least one digit, \<open>v\<close> is the denoted number times \<open>10 ^ scale\<close> with
  no rounding at all, and \<open>v\<close> fits in \<open>int64_t\<close>.  Every other text is refused, among them a
  value with significant digits beyond the scale and a value out of range.
\<close>

theorem parse_scaled_exact: "parse_scaled s (int n) = Some v \<longleftrightarrow> n \<le> 18 \<and> scaled_decimal n s v"
  by (rule parse_scaled_iff)

lemma parse_scaled_in_i64: "parse_scaled s (int n) = Some v \<Longrightarrow> in_i64 v"
  by (auto simp: parse_scaled_iff scaled_decimal_def)

section \<open>The 128-bit intermediate values\<close>

lemma int_loop_bound:
  assumes "int_loop s v any = Some (w, any', r)" "0 \<le> v" "v \<le> INT64_MAX + 1"
  shows "0 \<le> w \<and> w \<le> INT64_MAX + 1"
  using assms
proof (induction s v any rule: int_loop.induct)
  case (2 c cs v any)
  then show ?case
    using digit_val_range [of c] by (cases "c = CHR ''.''") (auto simp: Let_def split: if_splits)
qed simp

text \<open>Also the value just before the range check, one digit further, fits.\<close>

lemma int_step_bound:
  "0 \<le> v \<Longrightarrow> v \<le> INT64_MAX + 1 \<Longrightarrow> is_digit c \<Longrightarrow>
   0 \<le> v * 10 + digit_val c \<and> v * 10 + digit_val c < 2 ^ 127"
  using digit_val_range [of c] by (simp add: range_defs)

lemma frac_loop_bound:
  assumes "frac_loop n s v k any = Some (w, k', any')" "0 \<le> v" "v < 10 ^ k" "k \<le> n"
  shows "0 \<le> w \<and> w < 10 ^ k' \<and> k' \<le> n"
  using assms
proof (induction n s v k any rule: frac_loop.induct)
  case (2 n c cs v k any)
  show ?case
  proof (cases "k < n")
    case True
    have "is_digit c" using 2(3) by (auto split: if_splits)
    then have d: "0 \<le> digit_val c" "digit_val c \<le> 9" using digit_val_range by blast+
    have "v * 10 + digit_val c < 10 ^ (k + 1)"
      using 2(5) d by simp
    with 2 True d \<open>is_digit c\<close> show ?thesis by simp
  next
    case False
    with 2 show ?thesis by (auto split: if_splits)
  qed
qed simp

lemma magnitude_bound:
  assumes "0 \<le> i" "i \<le> INT64_MAX + 1" "0 \<le> f" "f < 10 ^ k" "k \<le> n" "n \<le> 18"
  shows "0 \<le> magnitude n i f k \<and> magnitude n i f k < 2 ^ 127"
proof -
  have q: "(10::int) ^ n div 10 ^ k = 10 ^ (n - k)"
    using assms(5) by (simp add: power_diff_power_eq)
  have "f * 10 ^ (n - k) \<le> 10 ^ k * 10 ^ (n - k)"
    using assms(4) by (intro mult_right_mono) simp_all
  also have "(10::int) ^ k * 10 ^ (n - k) = 10 ^ n"
    using assms(5) by (simp add: power_add [symmetric])
  finally have f: "f * 10 ^ (n - k) \<le> 10 ^ n" .
  have n: "(10::int) ^ n \<le> 10 ^ 18"
    using assms(6) by (intro power_increasing) simp_all
  have "i * 10 ^ n \<le> (INT64_MAX + 1) * 10 ^ 18"
    using assms(1,2) n by (intro mult_mono) simp_all
  with f n have "magnitude n i f k \<le> (INT64_MAX + 1) * 10 ^ 18 + 10 ^ 18"
    by (simp add: magnitude_def q)
  also have "\<dots> < 2 ^ 127"
    by (simp add: range_defs)
  finally show ?thesis
    using assms(1,3) by (simp add: magnitude_def q)
qed



section \<open>Printed numbers read back\<close>

lemma is_digit_not_space: "is_digit c \<Longrightarrow> \<not> is_space c \<and> c \<noteq> CHR ''-'' \<and> c \<noteq> CHR ''+''"
  by (auto simp: is_digit_def is_space_def)

lemma all_digits_takeWhile: "all_digits ds \<Longrightarrow> takeWhile is_digit ds = ds"
  by (simp add: takeWhile_eq_all_conv list_all_iff)

lemma strto_parts_digits:
  assumes "all_digits ds" "ds \<noteq> []"
  shows "strto_parts ds = (False, digits_val ds)" "strto_parts (CHR ''-'' # ds) = (True, digits_val ds)"
proof -
  obtain d ds' where ds: "ds = d # ds'" using assms(2) by (cases ds) auto
  then have d: "\<not> is_space d" "d \<noteq> CHR ''-''" "d \<noteq> CHR ''+''"
    using assms(1) is_digit_not_space [of d] by auto
  then show "strto_parts ds = (False, digits_val ds)"
    using all_digits_takeWhile [OF assms(1)] by (simp add: ds strto_parts_def)
  have "\<not> is_space CHR ''-''" by (simp add: is_space_def)
  then show "strto_parts (CHR ''-'' # ds) = (True, digits_val ds)"
    by (simp add: strto_parts_def all_digits_takeWhile [OF assms(1)])
qed

lemma strto_parts_show_int: "strto_parts (show_int v) = (v < 0, \<bar>v\<bar>)"
  by (simp add: show_int_def strto_parts_digits show_nat_digits)

lemma atoll_show_int: "in_i64 v \<Longrightarrow> atoll (show_int v) = v"
  by (simp add: atoll_def strto_parts_show_int clamp_i64_def in_i64_def)

lemma atoi_show_int: "in_i32 v \<Longrightarrow> atoi (show_int v) = v"
proof -
  assume v: "in_i32 v"
  then have "atoll (show_int v) = v"
    by (intro atoll_show_int) (simp add: range_defs)
  then show ?thesis
    using v by (simp add: atoi_def sint_sbintrunc' signed_take_bit_int_eq_self in_i32_def)
qed

lemma strtoull_show_u64: "strtoull (show_u64 w) = w"
proof -
  have "uint w \<le> 18446744073709551615"
    using unsigned_less [of w, where 'a = int] by simp
  then show ?thesis
    by (simp add: strtoull_def show_u64_def strto_parts_digits show_nat_digits)
qed

interpretation u64_text: codec show_u64 strtoull "\<lambda>_. True"
  by unfold_locales (rule strtoull_show_u64)

interpretation i64_text: codec show_int atoll in_i64
  by unfold_locales (rule atoll_show_int)

interpretation i32_text: codec show_int atoi in_i32
  by unfold_locales (rule atoi_show_int)

text \<open>Printed lengths.\<close>

lemma length_show_u64: "length (show_u64 w) \<le> 20"
proof -
  have "unat w < 2 ^ 64"
    using unsigned_less [of w, where 'a = nat] by simp
  then show ?thesis
    unfolding show_u64_def by (intro length_show_nat) simp_all
qed

lemma length_show_int:
  assumes "\<bar>v\<bar> < 10 ^ k" "0 < k"
  shows "length (show_int v) \<le> k + 1"
proof -
  have "nat \<bar>v\<bar> < 10 ^ k"
    using assms(1) by (simp add: nat_less_iff)
  then have "length (show_nat (nat \<bar>v\<bar>)) \<le> k"
    using assms(2) by (rule length_show_nat)
  then show ?thesis
    by (cases "v < 0") (simp_all add: show_int_def)
qed

lemma length_show_i64: "in_i64 v \<Longrightarrow> length (show_int v) \<le> 20"
  using length_show_int [of v 19] by (simp add: range_defs abs_less_iff)

lemma length_show_i32: "in_i32 v \<Longrightarrow> length (show_int v) \<le> 11"
  using length_show_int [of v 10] by (simp add: range_defs abs_less_iff)

end
