(* ===== verification/Json_Min.thy ===== *)
theory Json_Min
  imports Depth_Event Decimal
begin

text \<open>
  The hand-written extractor for Binance payloads (\<open>src/json_min.cpp\<close>, the build without
  simdjson): key search, number and level readers, the envelope splitter, the stream classifiers
  and the one-pass depth parser.

  Positions are \<open>nat\<close> indices into the text, \<open>npos\<close> is \<open>None\<close>, and a character past the end reads
  as NUL, as \<open>std::string::operator[]\<close> returns it at \<open>size()\<close>.  A function with reference
  parameters takes their old values and returns the new ones.

  The second half states what the parser computes on messages of the exchange's shape and on
  every input at all.
\<close>

section \<open>Positions and searches\<close>

definition char_at :: "string \<Rightarrow> nat \<Rightarrow> char" where
  "char_at s p = (if p < length s then s ! p else CHR 0x00)"

text \<open>The loops \<open>while (p < s.size() && P(s[p])) ++p\<close>.\<close>

function skip_while :: "(char \<Rightarrow> bool) \<Rightarrow> string \<Rightarrow> nat \<Rightarrow> nat" where
  "skip_while P s p = (if p < length s \<and> P (s ! p) then skip_while P s (p + 1) else p)"
  by pat_completeness auto
termination by (relation "measure (\<lambda>(P, s, p). length s - p)") auto

abbreviation skip_to :: "char \<Rightarrow> string \<Rightarrow> nat \<Rightarrow> nat" where
  "skip_to c \<equiv> skip_while (\<lambda>x. x \<noteq> c)"

text \<open>\<open>std::string::find\<close>.\<close>

function find_str :: "string \<Rightarrow> string \<Rightarrow> nat \<Rightarrow> nat option" where
  "find_str s pat from =
     (if length s < from + length pat then None
      else if take (length pat) (drop from s) = pat then Some from
      else find_str s pat (from + 1))"
  by pat_completeness auto
termination by (relation "measure (\<lambda>(s, pat, from). Suc (length s) - from)") auto

declare skip_while.simps [simp del] find_str.simps [simp del]

text \<open>\<open>std::string(data + a, b - a)\<close>.\<close>

definition substr :: "string \<Rightarrow> nat \<Rightarrow> nat \<Rightarrow> string" where
  "substr s a b = take (b - a) (drop a s)"

definition find_key :: "string \<Rightarrow> string \<Rightarrow> nat \<Rightarrow> nat option" where
  "find_key s key from =
     (let pat = [CHR 0x22] @ key @ [CHR 0x22]
      in case find_str s pat from of
           None \<Rightarrow> None
         | Some p \<Rightarrow> Some (skip_while (\<lambda>c. c = CHR '' '' \<or> c = CHR '':'') s (p + length pat)))"

fun read_u64_loop :: "string \<Rightarrow> u64 \<Rightarrow> u64" where
  "read_u64_loop [] v = v"
| "read_u64_loop (c # cs) v =
     (if is_digit c then read_u64_loop cs (v * 10 + of_int (digit_val c)) else v)"

definition read_u64 :: "string \<Rightarrow> nat \<Rightarrow> u64" where
  "read_u64 s p = read_u64_loop (drop p s) 0"

definition key_eq :: "string \<Rightarrow> nat \<Rightarrow> nat \<Rightarrow> string \<Rightarrow> bool" where
  "key_eq s start len key \<longleftrightarrow> len = length key \<and> substr s start (start + length key) = key"

section \<open>The level reader\<close>

text \<open>
  One level: the two quoted texts after an opening bracket.  \<open>None\<close> is the early return, with the
  position the code returns.
\<close>

definition read_quoted :: "string \<Rightarrow> nat \<Rightarrow> (nat \<times> nat) option" where
  "read_quoted s p =
     (let a = skip_to (CHR 0x22) s p
      in if a = length s then None
         else let e = skip_to (CHR 0x22) s (a + 1)
              in if e = length s then None else Some (a + 1, e))"

lemma skip_while_ge: "p \<le> skip_while P s p"
proof (induction P s p rule: skip_while.induct)
  case (1 P s p)
  then have "p < length s \<and> P (s ! p) \<longrightarrow> p \<le> skip_while P s (p + 1)" by linarith
  then show ?case by (subst skip_while.simps) simp
qed

lemma read_quoted_ge: "read_quoted s p = Some (a, e) \<Longrightarrow> p < a \<and> a \<le> e"
  using skip_while_ge [of p "\<lambda>x. x \<noteq> CHR 0x22" s]
    skip_while_ge [of "skip_to (CHR 0x22) s p + 1" "\<lambda>x. x \<noteq> CHR 0x22" s]
  by (auto simp: read_quoted_def Let_def split: if_splits)

text \<open>The position after the bracket that closes the level.\<close>

definition level_end :: "string \<Rightarrow> nat \<Rightarrow> nat" where
  "level_end s p = (let r = skip_to (CHR '']'') s p in if r < length s then r + 1 else r)"

lemma level_end_ge: "p \<le> level_end s p"
  using skip_while_ge [of p "\<lambda>x. x \<noteq> CHR '']''" s] by (auto simp: level_end_def Let_def)

lemma next_level_after:
  "read_quoted s (p + 1) = Some (ps, pe) \<Longrightarrow> read_quoted s (pe + 1) = Some (qs, qe) \<Longrightarrow>
   p < level_end s (qe + 1)"
  using read_quoted_ge [of s "p + 1" ps pe] read_quoted_ge [of s "pe + 1" qs qe]
    level_end_ge [of "qe + 1" s] by linarith

function levels_loop :: "string \<Rightarrow> nat \<Rightarrow> Level list \<Rightarrow> bool \<Rightarrow> nat \<times> Level list \<times> bool" where
  "levels_loop s p out ok =
     (if p < length s \<and> s ! p \<noteq> CHR '']'' then
        if s ! p \<noteq> CHR ''['' then levels_loop s (p + 1) out ok
        else case read_quoted s (p + 1) of
          None \<Rightarrow> (length s, out, False)
        | Some (ps, pe) \<Rightarrow>
            (case read_quoted s (pe + 1) of
               None \<Rightarrow> (length s, out, False)
             | Some (qs, qe) \<Rightarrow>
                 (case (parse_scaled (substr s ps pe) (int kPriceScalePow),
                        parse_scaled (substr s qs qe) (int kQtyScalePow)) of
                    (Some pr, Some q) \<Rightarrow>
                      levels_loop s (level_end s (qe + 1)) (out @ [\<lparr>price = pr, qty = q\<rparr>]) ok
                  | _ \<Rightarrow> levels_loop s (level_end s (qe + 1)) out False))
      else (p, out, ok))"
  by pat_completeness auto
termination
  by (relation "measure (\<lambda>(s, p, out, ok). length s - p)")
    (auto dest: next_level_after [unfolded Suc_eq_plus1 [symmetric]] intro!: diff_less_mono2)

declare levels_loop.simps [simp del]

definition read_levels :: "string \<Rightarrow> nat \<Rightarrow> Level list \<Rightarrow> bool \<Rightarrow> nat \<times> Level list \<times> bool" where
  "read_levels s p out ok =
     (if p \<ge> length s \<or> s ! p \<noteq> CHR ''['' then (p, out, ok)
      else case levels_loop s (p + 1) out ok of
        (q, out', ok') \<Rightarrow>
          (if q < length s \<and> s ! q = CHR '']'' then q + 1 else q, out', ok'))"

section \<open>Envelope and classification\<close>

text \<open>The scan for the brace that closes the payload.\<close>

fun brace_loop :: "string \<Rightarrow> nat \<Rightarrow> int \<Rightarrow> nat \<times> int" where
  "brace_loop [] i depth = (i, depth)"
| "brace_loop (c # cs) i depth =
     (if c = CHR ''{'' then brace_loop cs (i + 1) (depth + 1)
      else if c = CHR ''}'' then
        if depth - 1 = 0 then (i + 1, 0) else brace_loop cs (i + 1) (depth - 1)
      else brace_loop cs (i + 1) depth)"

definition split_envelope :: "string \<Rightarrow> string \<Rightarrow> string \<Rightarrow> bool \<times> string \<times> string" where
  "split_envelope frame stream_out data_out =
     (case (find_key frame ''stream'' 0, find_key frame ''data'' 0) of
        (Some sp, Some dp) \<Rightarrow>
          (case (if char_at frame sp = CHR 0x22
                 then map_option (substr frame (sp + 1)) (find_str frame [CHR 0x22] (sp + 1))
                 else Some stream_out) of
             None \<Rightarrow> (False, stream_out, data_out)
           | Some stream \<Rightarrow>
               if char_at frame dp \<noteq> CHR ''{'' then (False, stream, data_out)
               else case brace_loop (drop dp frame) dp 0 of
                 (i, depth) \<Rightarrow> if depth \<noteq> 0 then (False, stream, data_out)
                               else (True, stream, substr frame dp i))
      | _ \<Rightarrow> (False, stream_out, data_out))"

definition classify_stream :: "string \<Rightarrow> StreamKind" where
  "classify_stream s =
     (if find_str s ''@depth5'' 0 \<noteq> None then Depth5
      else if find_str s ''@trade'' 0 \<noteq> None then Trade
      else if find_str s ''@depth'' 0 \<noteq> None then DepthDiff
      else DepthDiff)"

definition classify :: "string \<Rightarrow> StreamKind" where
  "classify data =
     (let payload = (if find_key data ''lastUpdateId'' 0 \<noteq> None then Depth5 else Depth5)
      in case find_key data ''e'' 0 of
           None \<Rightarrow> payload
         | Some e \<Rightarrow>
             if char_at data e = CHR 0x22 then
               if substr data e (e + 13) = [CHR 0x22] @ ''depthUpdate'' @ [CHR 0x22] then DepthDiff
               else if substr data e (e + 7) = [CHR 0x22] @ ''trade'' @ [CHR 0x22] then Trade
               else payload
             else payload)"

section \<open>The depth parser\<close>

text \<open>What the parser does with the value at \<open>p\<close> of the key between \<open>key_start\<close> and its end.\<close>

definition depth_field ::
  "string \<Rightarrow> nat \<Rightarrow> nat \<Rightarrow> nat \<Rightarrow> DepthEvent \<Rightarrow> bool \<Rightarrow> nat \<times> DepthEvent \<times> bool" where
  "depth_field data key_start len p out ok =
     (if key_eq data key_start len ''E'' then
        (p, out\<lparr>ev_event_time_ms := sint (read_u64 data p)\<rparr>, ok)
      else if key_eq data key_start len ''T'' then
        (p, if ev_event_time_ms out = 0 then out\<lparr>ev_event_time_ms := sint (read_u64 data p)\<rparr> else out, ok)
      else if key_eq data key_start len ''U'' then (p, out\<lparr>ev_U := read_u64 data p\<rparr>, ok)
      else if key_eq data key_start len ''u'' then (p, out\<lparr>ev_u := read_u64 data p\<rparr>, ok)
      else if key_eq data key_start len ''pu'' then
        (p, out\<lparr>ev_pu := read_u64 data p, ev_has_pu := True\<rparr>, ok)
      else if key_eq data key_start len ''lastUpdateId'' then
        (p, out\<lparr>ev_lastUpdateId := read_u64 data p\<rparr>, ok)
      else if key_eq data key_start len ''bids'' \<or> key_eq data key_start len ''b'' then
        (case read_levels data p (ev_bids out) ok of (p', ls, ok') \<Rightarrow> (p', out\<lparr>ev_bids := ls\<rparr>, ok'))
      else if key_eq data key_start len ''asks'' \<or> key_eq data key_start len ''a'' then
        (case read_levels data p (ev_asks out) ok of (p', ls, ok') \<Rightarrow> (p', out\<lparr>ev_asks := ls\<rparr>, ok'))
      else (p, out, ok))"

lemma find_str_bounds: "find_str s pat k = Some q \<Longrightarrow> k \<le> q \<and> q + length pat \<le> length s"
proof (induction s pat k rule: find_str.induct)
  case (1 s pat k)
  then show ?case
    using find_str.simps [of s pat k] by (auto split: if_splits)
qed

function parse_loop :: "string \<Rightarrow> nat \<Rightarrow> DepthEvent \<Rightarrow> bool \<Rightarrow> DepthEvent \<times> bool" where
  "parse_loop data i out ok =
     (if i < length data then
        case find_str data [CHR 0x22] i of
          None \<Rightarrow> (out, ok)
        | Some q \<Rightarrow>
            (case find_str data [CHR 0x22] (q + 1) of
               None \<Rightarrow> (out, ok)
             | Some key_end \<Rightarrow>
                 let colon = skip_while (\<lambda>c. c = CHR '' '') data (key_end + 1)
                 in if colon \<ge> length data \<or> data ! colon \<noteq> CHR '':'' then parse_loop data (key_end + 1) out ok
                    else case depth_field data (q + 1) (key_end - (q + 1))
                           (skip_while (\<lambda>c. c = CHR '' '') data (colon + 1)) out ok of
                      (p, out', ok') \<Rightarrow> parse_loop data (if p > key_end then p else key_end + 1) out' ok')
      else (out, ok))"
  by pat_completeness auto
termination
  by (relation "measure (\<lambda>(data, i, out, ok). length data - i)")
    (auto dest!: find_str_bounds intro!: diff_less_mono2)

declare parse_loop.simps [simp del]

definition parse_depth :: "string \<Rightarrow> DepthEvent \<Rightarrow> bool \<times> DepthEvent" where
  "parse_depth data out =
     (case parse_loop data 0 out True of
        (ev, ok) \<Rightarrow>
          if \<not> ok then (False, ev)
          else (ev_u ev \<noteq> 0 \<or> ev_lastUpdateId ev \<noteq> 0 \<or> ev_bids ev \<noteq> [] \<or> ev_asks ev \<noteq> [], ev))"

definition event_time_ms :: "string \<Rightarrow> i64" where
  "event_time_ms data =
     (case find_key data ''E'' 0 of
        Some p \<Rightarrow> sint (read_u64 data p)
      | None \<Rightarrow>
          (case find_key data ''T'' 0 of
             Some p \<Rightarrow> sint (read_u64 data p)
           | None \<Rightarrow> 0))"

section \<open>Positions as suffixes\<close>

lemma skip_while_eq: "skip_while P s p = p + length (takeWhile P (drop p s))"
proof (induction P s p rule: skip_while.induct)
  case (1 P s p)
  show ?case
  proof (cases "p < length s")
    case True
    then have "drop p s = s ! p # drop (p + 1) s" by (simp add: Cons_nth_drop_Suc)
    with True 1 show ?thesis by (subst skip_while.simps) simp
  next
    case False
    then show ?thesis by (subst skip_while.simps) simp
  qed
qed

text \<open>A skip stops behind the run of characters it skips.\<close>

lemma skip_while_run:
  assumes "drop p s = xs @ ys" "list_all P xs" "ys = [] \<or> \<not> P (hd ys)"
  shows "skip_while P s p = p + length xs"
  by (simp add: skip_while_eq assms takeWhile_run)

lemma find_char_run:
  assumes "drop p s = xs @ c # ys" "c \<notin> set xs"
  shows "find_str s [c] p = Some (p + length xs)"
  using assms
proof (induction xs arbitrary: p)
  case Nil
  then show ?case
    using drop_Cons_nth [of p s c ys] by (subst find_str.simps) simp
next
  case (Cons x xs)
  then have "p < length s" "drop (p + 1) s = xs @ c # ys" "take 1 (drop p s) = [x]"
    using drop_Cons_nth [of p s x "xs @ c # ys"] by simp_all
  with Cons show ?case
    by (subst find_str.simps) auto
qed

lemma find_char_none: "c \<notin> set (drop p s) \<Longrightarrow> find_str s [c] p = None"
proof (induction s "[c]" p rule: find_str.induct)
  case (1 s p)
  have "c \<notin> set (drop (p + 1) s)"
    using "1.prems" set_drop_subset_set_drop [of p "p + 1" s] by auto
  then have "length s < p + 1 \<or> find_str s [c] (p + 1) = None" "take 1 (drop p s) \<noteq> [c]"
    using 1 by (cases "drop p s"; auto)+
  then show ?case
    by (subst find_str.simps) auto
qed

lemma substr_run: "drop p s = xs @ ys \<Longrightarrow> substr s p (p + length xs) = xs"
  by (simp add: substr_def)

text \<open>The number reader, modulo \<open>2 ^ 64\<close>.\<close>

lemma read_u64_loop_eq:
  "read_u64_loop cs v = v * 10 ^ length (takeWhile is_digit cs) + of_int (digits_val (takeWhile is_digit cs))"
proof (induction cs arbitrary: v)
  case (Cons c cs)
  then show ?case by (simp add: digits_val_Cons algebra_simps)
qed simp

lemma read_u64_eq: "read_u64 s p = of_int (digits_val (takeWhile is_digit (drop p s)))"
  by (simp add: read_u64_def read_u64_loop_eq)

section \<open>Messages of the exchange's shape\<close>

text \<open>
  A depth message is an object of fields: numbers, quoted texts and lists of price levels, a
  level being two quoted decimals.  The renderer writes them the way Binance does, without
  blanks.
\<close>

datatype Value = Num string | Text string | Levels "(string \<times> string) list"

type_synonym Field = "string \<times> Value"

definition quoted :: "string \<Rightarrow> string" where
  "quoted t = CHR 0x22 # t @ [CHR 0x22]"

definition render_level :: "string \<times> string \<Rightarrow> string" where
  "render_level l = ''['' @ quoted (fst l) @ '','' @ quoted (snd l) @ '']''"

fun render_value :: "Value \<Rightarrow> string" where
  "render_value (Num ds) = ds"
| "render_value (Text t) = quoted t"
| "render_value (Levels ls) = ''['' @ commas (map render_level ls) @ '']''"

definition render_field :: "Field \<Rightarrow> string" where
  "render_field f = quoted (fst f) @ '':'' @ render_value (snd f)"

definition render_message :: "Field list \<Rightarrow> string" where
  "render_message fs = ''{'' @ commas (map render_field fs) @ ''}''"

text \<open>Texts, keys and decimals hold no quote (Binance escapes nothing), numbers are digits.\<close>

definition no_quote :: "string \<Rightarrow> bool" where
  "no_quote t \<longleftrightarrow> CHR 0x22 \<notin> set t"

fun wf_value :: "Value \<Rightarrow> bool" where
  "wf_value (Num ds) \<longleftrightarrow> all_digits ds \<and> ds \<noteq> []"
| "wf_value (Text t) \<longleftrightarrow> no_quote t"
| "wf_value (Levels ls) \<longleftrightarrow> list_all (\<lambda>l. no_quote (fst l) \<and> no_quote (snd l)) ls"

definition wf_field :: "Field \<Rightarrow> bool" where
  "wf_field f \<longleftrightarrow> no_quote (fst f) \<and> wf_value (snd f)"

text \<open>What a field means for the parsed event.\<close>

fun number_of :: "Value \<Rightarrow> u64" where
  "number_of (Num ds) = of_int (digits_val ds)"
| "number_of _ = 0"

fun levels_of :: "Value \<Rightarrow> (string \<times> string) list" where
  "levels_of (Levels ls) = ls"
| "levels_of _ = []"

definition scaled_level :: "string \<times> string \<Rightarrow> Level option" where
  "scaled_level l =
     (case (parse_scaled (fst l) (int kPriceScalePow), parse_scaled (snd l) (int kQtyScalePow)) of
        (Some pr, Some q) \<Rightarrow> Some \<lparr>price = pr, qty = q\<rparr>
      | _ \<Rightarrow> None)"

abbreviation good_levels :: "(string \<times> string) list \<Rightarrow> Level list" where
  "good_levels ls \<equiv> List.map_filter scaled_level ls"

definition all_scaled :: "(string \<times> string) list \<Rightarrow> bool" where
  "all_scaled ls \<longleftrightarrow> list_all (\<lambda>l. scaled_level l \<noteq> None) ls"

fun field_effect :: "DepthEvent \<times> bool \<Rightarrow> Field \<Rightarrow> DepthEvent \<times> bool" where
  "field_effect (ev, ok) (k, v) =
     (if k = ''E'' then (ev\<lparr>ev_event_time_ms := sint (number_of v)\<rparr>, ok)
      else if k = ''T'' then
        (if ev_event_time_ms ev = 0 then ev\<lparr>ev_event_time_ms := sint (number_of v)\<rparr> else ev, ok)
      else if k = ''U'' then (ev\<lparr>ev_U := number_of v\<rparr>, ok)
      else if k = ''u'' then (ev\<lparr>ev_u := number_of v\<rparr>, ok)
      else if k = ''pu'' then (ev\<lparr>ev_pu := number_of v, ev_has_pu := True\<rparr>, ok)
      else if k = ''lastUpdateId'' then (ev\<lparr>ev_lastUpdateId := number_of v\<rparr>, ok)
      else if k = ''bids'' \<or> k = ''b'' then
        (ev\<lparr>ev_bids := ev_bids ev @ good_levels (levels_of v)\<rparr>, ok \<and> all_scaled (levels_of v))
      else if k = ''asks'' \<or> k = ''a'' then
        (ev\<lparr>ev_asks := ev_asks ev @ good_levels (levels_of v)\<rparr>, ok \<and> all_scaled (levels_of v))
      else (ev, ok))"

subsection \<open>Reading a level list\<close>

lemma read_quoted_run:
  assumes "drop p s = xs @ CHR 0x22 # t @ CHR 0x22 # ys" "no_quote xs" "no_quote t"
  shows "read_quoted s p = Some (p + length xs + 1, p + length xs + 1 + length t)"
proof -
  let ?a = "p + length xs"
  have d: "drop ?a s = CHR 0x22 # t @ CHR 0x22 # ys"
    using assms(1) by (rule drop_shift)
  then have t: "drop (?a + 1) s = t @ CHR 0x22 # ys" and a: "?a < length s"
    using drop_Cons_nth [OF d] by simp_all
  have "skip_to (CHR 0x22) s p = ?a"
    using assms by (intro skip_while_run) (auto simp: no_quote_def list_all_iff)
  moreover have "skip_to (CHR 0x22) s (?a + 1) = ?a + 1 + length t"
    using t assms(3) by (intro skip_while_run) (auto simp: no_quote_def list_all_iff)
  moreover have "?a + 1 + length t < length s"
    using drop_Cons_nth [OF drop_shift [OF t]] by simp
  ultimately show ?thesis
    using a by (simp add: read_quoted_def Let_def)
qed

lemma levels_loop_level:
  assumes "drop p s = render_level l @ ys" "no_quote (fst l)" "no_quote (snd l)"
  shows "levels_loop s p out ok =
    levels_loop s (p + length (render_level l)) (out @ good_levels [l]) (ok \<and> scaled_level l \<noteq> None)"
proof -
  obtain a b where l: "l = (a, b)" by (cases l)
  note d = assms(1) [unfolded l render_level_def quoted_def fst_conv snd_conv]
  have d0: "drop p s = CHR ''['' # CHR 0x22 # a @ CHR 0x22 # CHR '','' # CHR 0x22 # b @ CHR 0x22 # CHR '']'' # ys"
    using d by simp
  have p: "p < length s" "s ! p = CHR ''[''"
    and d1: "drop (p + 1) s = [] @ CHR 0x22 # a @ CHR 0x22 # CHR '','' # CHR 0x22 # b @ CHR 0x22 # CHR '']'' # ys"
    using drop_Cons_nth [OF d0] by simp_all
  let ?pe = "p + 2 + length a" and ?qe = "p + 5 + length a + length b"
  have qa: "read_quoted s (p + 1) = Some (p + 2, ?pe)"
    using read_quoted_run [OF d1] assms(2) l by (simp add: no_quote_def)
  have d2: "drop (?pe + 1) s = [CHR '',''] @ CHR 0x22 # b @ CHR 0x22 # CHR '']'' # ys"
    using drop_shift [of p s "CHR ''['' # CHR 0x22 # a @ [CHR 0x22]"] d0 by simp
  have qb: "read_quoted s (?pe + 1) = Some (p + 5 + length a, ?qe)"
    using read_quoted_run [OF d2] assms(3) l by (simp add: no_quote_def)
  have d3: "drop (?qe + 1) s = [] @ CHR '']'' # ys"
    using drop_shift [of "?pe + 1" s "CHR '','' # CHR 0x22 # b @ [CHR 0x22]"] d2 by (simp add: add.assoc numeral_eq_Suc)
  have "skip_to (CHR '']'') s (?qe + 1) = ?qe + 1"
    using skip_while_run [OF d3] by simp
  then have e: "level_end s (?qe + 1) = p + length (render_level l)"
    using drop_Cons_nth [OF d3 [simplified append_Nil]] by (simp add: level_end_def l render_level_def quoted_def)
  have "drop (p + 2) s = a @ CHR 0x22 # CHR '','' # CHR 0x22 # b @ CHR 0x22 # CHR '']'' # ys"
    using drop_shift [of p s "[CHR ''['', CHR 0x22]"] d0 by simp
  then have sa: "substr s (p + 2) ?pe = a"
    using substr_run by blast
  have "drop (p + 5 + length a) s = b @ CHR 0x22 # CHR '']'' # ys"
    using drop_shift [of "?pe + 1" s "[CHR '','', CHR 0x22]"] d2 by (simp add: add.assoc numeral_eq_Suc)
  then have sb: "substr s (p + 5 + length a) ?qe = b"
    using substr_run by blast
  show ?thesis
    using p qa qb e sa sb
    by (subst levels_loop.simps)
      (auto simp: scaled_level_def l List.map_filter_def split: option.splits)
qed

lemma levels_loop_end: "drop p s = CHR '']'' # ys \<Longrightarrow> levels_loop s p out ok = (p, out, ok)"
  using drop_Cons_nth [of p s "CHR '']''" ys] by (subst levels_loop.simps) simp

lemma levels_loop_comma: "drop p s = CHR '','' # ys \<Longrightarrow> levels_loop s p out ok = levels_loop s (p + 1) out ok"
  using drop_Cons_nth [of p s "CHR '',''" ys] by (subst levels_loop.simps) simp

lemma levels_loop_list:
  assumes "drop p s = commas (map render_level ls) @ CHR '']'' # ys"
    and "list_all (\<lambda>l. no_quote (fst l) \<and> no_quote (snd l)) ls"
  shows "levels_loop s p out ok =
    (p + length (commas (map render_level ls)), out @ good_levels ls, ok \<and> all_scaled ls)"
  using assms
proof (induction ls arbitrary: p out ok rule: induct_list012)
  case 1
  then show ?case
    using levels_loop_end by (simp add: List.map_filter_def all_scaled_def)
next
  case (2 l)
  let ?p = "p + length (render_level l)"
  have "levels_loop s p out ok = levels_loop s ?p (out @ good_levels [l]) (ok \<and> scaled_level l \<noteq> None)"
    using 2 by (intro levels_loop_level) simp_all
  moreover have "drop ?p s = CHR '']'' # ys"
    using 2 by (intro drop_shift) simp
  ultimately show ?case
    by (simp add: levels_loop_end all_scaled_def)
next
  case (3 l l' ls)
  let ?p = "p + length (render_level l)"
  have d: "drop p s = render_level l @ CHR '','' # commas (map render_level (l' # ls)) @ CHR '']'' # ys"
    using "3.prems"(1) by simp
  have dc: "drop ?p s = CHR '','' # commas (map render_level (l' # ls)) @ CHR '']'' # ys"
    using d by (rule drop_shift)
  have dn: "drop (?p + 1) s = commas (map render_level (l' # ls)) @ CHR '']'' # ys"
    using drop_Cons_nth [OF dc] by simp
  have "levels_loop s p out ok = levels_loop s ?p (out @ good_levels [l]) (ok \<and> scaled_level l \<noteq> None)"
    using "3.prems"(2) by (intro levels_loop_level [OF d]) simp_all
  also have "\<dots> = levels_loop s (?p + 1) (out @ good_levels [l]) (ok \<and> scaled_level l \<noteq> None)"
    using dc by (rule levels_loop_comma)
  also have "\<dots> = (?p + 1 + length (commas (map render_level (l' # ls))),
      (out @ good_levels [l]) @ good_levels (l' # ls), (ok \<and> scaled_level l \<noteq> None) \<and> all_scaled (l' # ls))"
    using "3.prems"(2) by (intro "3.IH"(2) [OF dn]) simp
  finally show ?case
    by (simp add: List.map_filter_def all_scaled_def add.assoc)
qed

lemma read_levels_list:
  assumes "drop p s = render_value (Levels ls) @ ys" "wf_value (Levels ls)"
  shows "read_levels s p out ok =
    (p + length (render_value (Levels ls)), out @ good_levels ls, ok \<and> all_scaled ls)"
proof -
  let ?n = "length (commas (map render_level ls))"
  have p: "p < length s" "s ! p = CHR ''[''"
    and d: "drop (p + 1) s = commas (map render_level ls) @ CHR '']'' # ys"
    using assms(1) drop_Cons_nth [of p s "CHR ''[''"] by simp_all
  have "p + 1 + ?n < length s" "s ! (p + 1 + ?n) = CHR '']''"
    using drop_Cons_nth [OF drop_shift [OF d]] by simp_all
  with p levels_loop_list [OF d, of out ok] assms(2) show ?thesis
    by (simp add: read_levels_def)
qed

text \<open>A value that is no list leaves the levels alone.\<close>

lemma read_levels_other: "drop p s = c # ys \<Longrightarrow> c \<noteq> CHR ''['' \<Longrightarrow> read_levels s p out ok = (p, out, ok)"
  using drop_Cons_nth [of p s c ys] by (simp add: read_levels_def)

subsection \<open>Reading the fields\<close>

text \<open>The characters that follow a value.\<close>

definition ends_value :: "char \<Rightarrow> bool" where
  "ends_value c \<longleftrightarrow> c = CHR '','' \<or> c = CHR ''}''"

lemma ends_value_chars: "ends_value c \<Longrightarrow> \<not> is_digit c \<and> c \<noteq> CHR 0x22 \<and> c \<noteq> CHR '':'' \<and> c \<noteq> CHR '' ''"
  by (auto simp: ends_value_def is_digit_def)

lemma render_value_head:
  assumes "wf_value v"
  shows "hd (render_value v @ ys) \<noteq> CHR '' ''"
proof (cases v)
  case (Num ds)
  then show ?thesis
    using assms by (cases ds) (auto simp: is_digit_def)
qed (simp_all add: quoted_def)

lemma read_u64_value:
  assumes "drop p s = render_value v @ c # ys" "wf_value v" "ends_value c"
  shows "read_u64 s p = number_of v"
  using assms ends_value_chars [of c]
  by (cases v) (auto simp: read_u64_eq takeWhile_run quoted_def is_digit_def)

lemma read_levels_value:
  assumes "drop p s = render_value v @ c # ys" "wf_value v"
  shows "\<exists>p' \<ge> p. read_levels s p out ok = (p', out @ good_levels (levels_of v), ok \<and> all_scaled (levels_of v)) \<and>
    (p' = p \<or> drop p' s = c # ys)"
proof (cases v)
  case (Levels ls)
  then show ?thesis
    using read_levels_list [of p s ls "c # ys" out ok] drop_shift [of p s "render_value (Levels ls)" "c # ys"] assms
    by (intro exI [of _ "p + length (render_value v)"]) simp
next
  case (Num ds)
  then obtain d ds' where ds: "ds = d # ds'" "is_digit d" using assms(2) by (cases ds) auto
  then have "d \<noteq> CHR ''[''" by (auto simp: is_digit_def)
  then have "read_levels s p out ok = (p, out, ok)"
    using Num ds assms(1) read_levels_other [of p s d "ds' @ c # ys" out ok] by simp
  then show ?thesis
    using Num by (auto simp: List.map_filter_def all_scaled_def)
next
  case (Text t)
  then show ?thesis
    using assms(1) read_levels_other [of p s "CHR 0x22" "t @ CHR 0x22 # c # ys" out ok]
    by (auto simp: List.map_filter_def all_scaled_def quoted_def)
qed

lemma key_eq_run:
  assumes "drop p s = k @ CHR 0x22 # ys" "no_quote key"
  shows "key_eq s p (length k) key \<longleftrightarrow> k = key"
  using substr_run [OF assms(1)] by (auto simp: key_eq_def)

lemma depth_field_value:
  assumes "drop ks s = k @ CHR 0x22 # zs" "drop p s = render_value v @ c # ys" "wf_value v" "ends_value c"
  shows "\<exists>p' \<ge> p. depth_field s ks (length k) p ev ok = (p', field_effect (ev, ok) (k, v)) \<and>
    (p' = p \<or> drop p' s = c # ys)"
proof -
  note keys = key_eq_run [OF assms(1)] and num = read_u64_value [OF assms(2-4)]
  have k: "key_eq s ks (length k) key \<longleftrightarrow> k = key"
    if "key \<in> {''E'', ''T'', ''U'', ''u'', ''pu'', ''lastUpdateId'', ''bids'', ''b'', ''asks'', ''a''}" for key
    using that by (intro keys) (auto simp: no_quote_def)
  obtain pb where pb: "pb \<ge> p" "pb = p \<or> drop pb s = c # ys"
      "read_levels s p (ev_bids ev) ok = (pb, ev_bids ev @ good_levels (levels_of v), ok \<and> all_scaled (levels_of v))"
    using read_levels_value [OF assms(2,3)] by blast
  obtain pa where pa: "pa \<ge> p" "pa = p \<or> drop pa s = c # ys"
      "read_levels s p (ev_asks ev) ok = (pa, ev_asks ev @ good_levels (levels_of v), ok \<and> all_scaled (levels_of v))"
    using read_levels_value [OF assms(2,3)] by blast
  let ?p = "if k = ''bids'' \<or> k = ''b'' then pb else if k = ''asks'' \<or> k = ''a'' then pa else p"
  have "depth_field s ks (length k) p ev ok = (?p, field_effect (ev, ok) (k, v))"
    by (simp add: depth_field_def k num pa(3) pb(3))
  moreover have "?p \<ge> p" "?p = p \<or> drop ?p s = c # ys"
    using pa pb by auto
  ultimately show ?thesis by blast
qed

text \<open>A quoted text that no colon follows is skipped.\<close>

lemma parse_loop_skip:
  assumes "drop i s = junk @ quoted t @ d # ys" "no_quote junk" "no_quote t" "d \<noteq> CHR '':''" "d \<noteq> CHR '' ''"
  shows "\<exists>i'. parse_loop s i ev ok = parse_loop s i' ev ok \<and> drop i' s = d # ys"
proof -
  let ?q = "i + length junk" and ?e = "i + length junk + 1 + length t"
  have d0: "drop i s = junk @ CHR 0x22 # t @ CHR 0x22 # d # ys"
    using assms(1) by (simp add: quoted_def)
  have d1: "drop (?q + 1) s = t @ CHR 0x22 # d # ys"
    using drop_Cons_nth [OF drop_shift [OF d0]] by simp
  have d2: "drop (?e + 1) s = d # ys"
    using drop_Cons_nth [OF drop_shift [OF d1]] by simp
  have "find_str s [CHR 0x22] i = Some ?q"
    using find_char_run [OF d0] assms(2) by (simp add: no_quote_def)
  moreover have "find_str s [CHR 0x22] (?q + 1) = Some ?e"
    using find_char_run [OF d1] assms(3) by (simp add: no_quote_def)
  moreover have "skip_while (\<lambda>c. c = CHR '' '') s (?e + 1) = ?e + 1"
    using skip_while_run [of "?e + 1" s "[]"] d2 assms(5) by simp
  moreover have "i < length s"
    using d0 by (cases "i < length s") auto
  ultimately have "parse_loop s i ev ok = parse_loop s (?e + 1) ev ok"
    using drop_Cons_nth [OF d2] assms(4) by (subst parse_loop.simps) (simp add: Let_def)
  with d2 show ?thesis by blast
qed

lemma parse_loop_skip_levels:
  assumes "drop i s = junk @ commas (map render_level ls) @ CHR '']'' # c # ys" "no_quote junk"
    and "list_all (\<lambda>l. no_quote (fst l) \<and> no_quote (snd l)) ls"
  shows "\<exists>i' junk'. parse_loop s i ev ok = parse_loop s i' ev ok \<and> drop i' s = junk' @ c # ys \<and> no_quote junk'"
  using assms
proof (induction ls arbitrary: i junk)
  case Nil
  then show ?case
    by (intro exI [of _ i] exI [of _ "junk @ '']''"]) (simp add: no_quote_def)
next
  case (Cons l ls)
  obtain a b where l: "l = (a, b)" by (cases l)
  let ?more = "(if ls = [] then [] else [CHR '','']) @ commas (map render_level ls) @ CHR '']'' # c # ys"
  have d: "drop i s = (junk @ ''['') @ quoted a @ CHR '','' # quoted b @ CHR '']'' # ?more"
    using Cons.prems(1) by (cases ls) (simp_all add: l render_level_def [of "(a, b)"])
  obtain i1 where i1: "parse_loop s i ev ok = parse_loop s i1 ev ok"
      "drop i1 s = '','' @ quoted b @ CHR '']'' # ?more"
    using parse_loop_skip [OF d, of ev ok] Cons.prems(2,3) l by (auto simp: no_quote_def)
  obtain i2 where i2: "parse_loop s i1 ev ok = parse_loop s i2 ev ok" "drop i2 s = CHR '']'' # ?more"
    using parse_loop_skip [OF i1(2)] Cons.prems(3) l by (auto simp: no_quote_def)
  let ?junk = "'']'' @ (if ls = [] then [] else [CHR '',''])"
  have "drop i2 s = ?junk @ commas (map render_level ls) @ CHR '']'' # c # ys"
    using i2(2) by simp
  moreover have "no_quote ?junk" by (simp add: no_quote_def)
  ultimately obtain i' junk' where "parse_loop s i2 ev ok = parse_loop s i' ev ok"
      "drop i' s = junk' @ c # ys" "no_quote junk'"
    using Cons.IH [of i2 ?junk] Cons.prems(3) by auto
  with i1 i2 show ?case by metis
qed

lemma parse_loop_skip_value:
  assumes "drop i s = render_value v @ c # ys" "wf_value v" "ends_value c"
  shows "\<exists>i' junk'. parse_loop s i ev ok = parse_loop s i' ev ok \<and> drop i' s = junk' @ c # ys \<and> no_quote junk'"
proof (cases v)
  case (Num ds)
  then have "no_quote ds"
    using assms(2) by (auto simp: no_quote_def list_all_iff is_digit_def)
  with Num assms(1) show ?thesis by auto
next
  case (Text t)
  then show ?thesis
    using assms ends_value_chars [of c] parse_loop_skip [of i s "[]" t c ys ev ok]
    by (auto simp: no_quote_def intro!: exI [of _ "[]"])
next
  case (Levels ls)
  then show ?thesis
    using assms parse_loop_skip_levels [of i s "''[''" ls c ys ev ok] by (auto simp: no_quote_def)
qed

lemma parse_loop_field:
  assumes "drop i s = junk @ render_field f @ c # ys" "no_quote junk" "wf_field f" "ends_value c"
  shows "\<exists>i' junk'. parse_loop s i ev ok = case_prod (parse_loop s i') (field_effect (ev, ok) f) \<and>
    drop i' s = junk' @ c # ys \<and> no_quote junk'"
proof -
  obtain k v where f: "f = (k, v)" by (cases f)
  let ?q = "i + length junk" and ?e = "i + length junk + 1 + length k" and ?p = "i + length junk + 3 + length k"
  have d0: "drop i s = junk @ CHR 0x22 # k @ CHR 0x22 # CHR '':'' # render_value v @ c # ys"
    using assms(1) by (simp add: f render_field_def quoted_def)
  have d1: "drop (?q + 1) s = k @ CHR 0x22 # CHR '':'' # render_value v @ c # ys"
    using drop_Cons_nth [OF drop_shift [OF d0]] by simp
  have d2: "drop (?e + 1) s = CHR '':'' # render_value v @ c # ys"
    using drop_Cons_nth [OF drop_shift [OF d1]] by simp
  have d3: "drop ?p s = render_value v @ c # ys"
    using drop_Cons_nth [OF d2] by (simp add: numeral_eq_Suc)
  obtain p' where p': "?p \<le> p'" "p' = ?p \<or> drop p' s = c # ys"
      "depth_field s (?q + 1) (length k) ?p ev ok = (p', field_effect (ev, ok) (k, v))"
    using depth_field_value [OF d1 d3] assms(3,4) by (auto simp: f wf_field_def)
  have "find_str s [CHR 0x22] i = Some ?q"
    using find_char_run [OF d0] assms(2) by (simp add: no_quote_def)
  moreover have "find_str s [CHR 0x22] (?q + 1) = Some ?e"
    using find_char_run [OF d1] assms(3) by (simp add: no_quote_def f wf_field_def)
  moreover have "skip_while (\<lambda>c. c = CHR '' '') s (?e + 1) = ?e + 1"
    using skip_while_run [of "?e + 1" s "[]"] d2 by simp
  moreover have "skip_while (\<lambda>c. c = CHR '' '') s (?e + 2) = ?p"
    using skip_while_run [of "?p" s "[]"] d3 render_value_head [of v "c # ys"] assms(3)
    by (simp add: f wf_field_def numeral_eq_Suc)
  moreover have "i < length s"
    using d0 by (cases "i < length s") auto
  ultimately have step: "parse_loop s i ev ok = case_prod (parse_loop s p') (field_effect (ev, ok) f)"
    using drop_Cons_nth [OF d2] p'(1,3) by (subst parse_loop.simps) (simp add: Let_def f split: prod.split)
  obtain ev' ok' where eff: "field_effect (ev, ok) f = (ev', ok')" by (cases "field_effect (ev, ok) f")
  show ?thesis
  proof (cases "p' = ?p")
    case True
    then show ?thesis
      using step eff parse_loop_skip_value [OF d3, of ev' ok'] assms(3,4) by (simp add: f wf_field_def)
  next
    case False
    then show ?thesis
      using step p'(2) by (intro exI [of _ p'] exI [of _ "[]"]) (simp add: no_quote_def)
  qed
qed

lemma parse_loop_end: "no_quote (drop i s) \<Longrightarrow> parse_loop s i ev ok = (ev, ok)"
  using find_char_none [of "CHR 0x22" i s] by (subst parse_loop.simps) (simp add: no_quote_def)

lemma parse_loop_fields:
  assumes "drop i s = junk @ commas (map render_field fs) @ ''}''" "no_quote junk" "list_all wf_field fs"
  shows "parse_loop s i ev ok = foldl field_effect (ev, ok) fs"
  using assms
proof (induction fs arbitrary: i junk ev ok)
  case Nil
  then show ?case by (simp add: parse_loop_end no_quote_def)
next
  case (Cons f fs)
  let ?c = "if fs = [] then CHR ''}'' else CHR '',''"
  let ?ys = "if fs = [] then [] else commas (map render_field fs) @ ''}''"
  have "drop i s = junk @ render_field f @ ?c # ?ys"
    using Cons.prems(1) by (cases fs) simp_all
  moreover have "ends_value ?c" by (simp add: ends_value_def)
  ultimately obtain i' junk' where
      step: "parse_loop s i ev ok = case_prod (parse_loop s i') (field_effect (ev, ok) f)"
      and d: "drop i' s = junk' @ ?c # ?ys" and j: "no_quote junk'"
    using parse_loop_field [of i s junk f ?c ?ys ev ok] Cons.prems(2,3) by auto
  obtain ev' ok' where eff: "field_effect (ev, ok) f = (ev', ok')" by (cases "field_effect (ev, ok) f")
  show ?case
  proof (cases "fs = []")
    case True
    then have "no_quote (drop i' s)" using d j by (simp add: no_quote_def)
    then show ?thesis using step eff True by (simp add: parse_loop_end)
  next
    case False
    then have "drop i' s = (junk' @ '','') @ commas (map render_field fs) @ ''}''"
      using d by simp
    then show ?thesis
      using Cons.IH [of i' "junk' @ '',''" ev' ok'] Cons.prems(3) j step eff by (simp add: no_quote_def)
  qed
qed

text \<open>Whether a parsed event counts as a depth message.\<close>

definition has_content :: "DepthEvent \<Rightarrow> bool" where
  "has_content ev \<longleftrightarrow> ev_u ev \<noteq> 0 \<or> ev_lastUpdateId ev \<noteq> 0 \<or> ev_bids ev \<noteq> [] \<or> ev_asks ev \<noteq> []"

lemma parse_depth_render:
  assumes "list_all wf_field fs"
  shows "parse_depth (render_message fs) out =
    (case foldl field_effect (out, True) fs of (ev, ok) \<Rightarrow> (ok \<and> has_content ev, ev))"
proof -
  have "drop 0 (render_message fs) = ''{'' @ commas (map render_field fs) @ ''}''"
    by (simp add: render_message_def)
  from parse_loop_fields [OF this _ assms, of out True] show ?thesis
    by (auto simp: parse_depth_def has_content_def no_quote_def split: prod.split)
qed

text \<open>
  C18: The depth parser reads every message of the exchange's shape correctly.  For any object of
  number, text and level-list fields, in any order, with unknown keys and repeated keys, parsing
  the rendered message into any event gives exactly the event that results from giving the fields
  their meaning one after another (the 64-bit value of a number, each level's prices and
  quantities scaled exactly), and the parser reports success exactly when every level in the book
  sides is a valid decimal and the message has an update id or a level.
\<close>

theorem parse_depth_message:
  assumes "list_all wf_field fs"
  shows "parse_depth (render_message fs) out =
    (case foldl field_effect (out, True) fs of (ev, ok) \<Rightarrow> (ok \<and> has_content ev, ev))"
  using assms by (rule parse_depth_render)

definition sample_fields :: "Field list" where
  "sample_fields = [(''e'', Text ''depthUpdate''), (''E'', Num ''1700000000123''), (''s'', Text ''BTCUSDT''),
     (''U'', Num ''157''), (''u'', Num ''160''), (''pu'', Num ''149''),
     (''b'', Levels [(''0.00240000'', ''10''), (''0.0023'', ''0.00000000'')]), (''a'', Levels [])]"

theorem parse_depth_message_witness:
  "parse_depth (render_message sample_fields) new_DepthEvent =
    (True, new_DepthEvent\<lparr>ev_U := 157, ev_u := 160, ev_pu := 149, ev_has_pu := True,
       ev_event_time_ms := 1700000000123,
       ev_bids := [\<lparr>price = 240000, qty = 1000000000\<rparr>, \<lparr>price = 230000, qty = 0\<rparr>]\<rparr>)"
proof -
  have wf: "list_all wf_field sample_fields" by code_simp
  have eff: "(case foldl field_effect (new_DepthEvent, True) sample_fields of (ev, ok) \<Rightarrow> (ok \<and> has_content ev, ev)) =
    (True, new_DepthEvent\<lparr>ev_U := 157, ev_u := 160, ev_pu := 149, ev_has_pu := True,
       ev_event_time_ms := 1700000000123,
       ev_bids := [\<lparr>price = 240000, qty = 1000000000\<rparr>, \<lparr>price = 230000, qty = 0\<rparr>]\<rparr>)"
    by code_simp
  show ?thesis
    by (rule parse_depth_message [OF wf, THEN trans]) (rule eff)
qed

section \<open>Every input: parsed values are machine integers\<close>

definition level_in_range :: "Level \<Rightarrow> bool" where
  "level_in_range l \<longleftrightarrow> in_i64 (price l) \<and> in_i64 (qty l)"

definition event_in_range :: "DepthEvent \<Rightarrow> bool" where
  "event_in_range ev \<longleftrightarrow> in_i64 (ev_event_time_ms ev) \<and>
     list_all level_in_range (ev_bids ev) \<and> list_all level_in_range (ev_asks ev)"

lemma sint_in_i64: "in_i64 (sint (w :: u64))"
  using sint_greater_eq [of w] sint_less [of w] by (simp add: range_defs)

lemma levels_loop_range:
  "list_all level_in_range out \<Longrightarrow> list_all level_in_range (fst (snd (levels_loop s p out ok)))"
proof (induction s p out ok rule: levels_loop.induct)
  case (1 s p out ok)
  have new: "list_all level_in_range (out @ [\<lparr>price = a, qty = b\<rparr>])"
    if "parse_scaled t (int kPriceScalePow) = Some a" "parse_scaled t' (int kQtyScalePow) = Some b" for t t' a b
    using that 1(5) by (simp add: level_in_range_def [of "\<lparr>price = a, qty = b\<rparr>"] parse_scaled_in_i64)
  show ?case
    using 1(5)
    by (subst levels_loop.simps)
      (simp add: 1(1-4) new del: One_nat_def list_all_append split: option.split prod.split)
qed

lemma read_levels_range:
  "list_all level_in_range out \<Longrightarrow> read_levels s p out ok = (p', out', ok') \<Longrightarrow> list_all level_in_range out'"
  using levels_loop_range [of out s "p + 1" ok]
  by (auto simp: read_levels_def split: if_splits prod.splits)

lemma depth_field_range:
  "event_in_range out \<Longrightarrow> depth_field data ks len p out ok = (p', out', ok') \<Longrightarrow> event_in_range out'"
  unfolding depth_field_def event_in_range_def
  by (auto split: if_splits prod.splits dest: read_levels_range simp: sint_in_i64)

lemma parse_loop_range:
  "event_in_range out \<Longrightarrow> parse_loop data i out ok = (ev, ok') \<Longrightarrow> event_in_range ev"
proof (induction data i out ok rule: parse_loop.induct)
  case (1 data i out ok)
  from 1(3,4) show ?case
    by (subst (asm) parse_loop.simps)
      (auto simp: Let_def split: if_splits option.splits prod.splits dest: 1(1,2) depth_field_range)
qed

lemma parse_depth_range: "event_in_range out \<Longrightarrow> event_in_range (snd (parse_depth data out))"
  by (auto simp: parse_depth_def split: prod.split dest: parse_loop_range)

lemma new_event_in_range [simp]: "event_in_range new_DepthEvent"
  by (simp add: event_in_range_def new_DepthEvent_def range_defs)

lemma event_time_in_range: "in_i64 (event_time_ms data)"
  by (simp add: event_time_ms_def sint_in_i64 in_i64_def [of 0] INT64_MIN_def INT64_MAX_def split: option.split)

text \<open>
  Whatever the network or a capture file delivers, the depth parser returns (its loops
  terminate on every text) and the event it fills holds only values of their machine types: the
  event time and every price and quantity are in the range of \<open>int64_t\<close>.
\<close>

theorem parse_depth_in_range: "event_in_range (snd (parse_depth data new_DepthEvent))"
  by (rule parse_depth_range) simp

section \<open>Envelopes and stream names\<close>

lemma find_str_step:
  "take (length pat) (drop k s) \<noteq> pat \<Longrightarrow> find_str s pat k = find_str s pat (k + 1)"
  by (subst find_str.simps) (auto simp: find_str.simps [of s pat "Suc k"])

lemma find_str_here: "drop k s = pat @ ys \<Longrightarrow> pat \<noteq> [] \<Longrightarrow> find_str s pat k = Some k"
  using length_drop [of k s] by (subst find_str.simps) auto

text \<open>A search passes over a text without the first character of the pattern.\<close>

lemma find_str_skip:
  assumes "drop k s = xs @ ys" "c \<notin> set xs"
  shows "find_str s (c # pat) k = find_str s (c # pat) (k + length xs)"
  using assms
proof (induction xs arbitrary: k)
  case (Cons x xs)
  then have "drop (k + 1) s = xs @ ys" "take (length (c # pat)) (drop k s) \<noteq> c # pat"
    using drop_Cons_nth [of k s x "xs @ ys"] by auto
  with Cons find_str_step [of "c # pat" k s] show ?case by simp
qed simp

text \<open>The frame of a combined stream and the payloads it can carry: the braces of a payload
  balance for the first time at its end.\<close>

definition frame_of :: "string \<Rightarrow> string \<Rightarrow> string" where
  "frame_of stream data =
     ''{'' @ quoted ''stream'' @ '':'' @ quoted stream @ '','' @ quoted ''data'' @ '':'' @ data @ ''}''"

definition brace_net :: "string \<Rightarrow> int" where
  "brace_net s = int (count_list s (CHR ''{'')) - int (count_list s (CHR ''}''))"

definition object_text :: "string \<Rightarrow> bool" where
  "object_text s \<longleftrightarrow> s \<noteq> [] \<and> hd s = CHR ''{'' \<and> brace_net s = 0 \<and>
     (\<forall>n < length s. 0 < n \<longrightarrow> 0 < brace_net (take n s))"

lemma brace_net_simps [simp]:
  "brace_net [] = 0"
  "brace_net (c # s) = (if c = CHR ''{'' then 1 else if c = CHR ''}'' then - 1 else 0) + brace_net s"
  by (simp_all add: brace_net_def)

lemma brace_loop_inside:
  assumes "0 < d" "d + brace_net s = 0" "\<forall>n < length s. 0 < d + brace_net (take n s)"
  shows "brace_loop (s @ ys) i d = (i + length s, 0)"
  using assms
proof (induction s arbitrary: i d)
  case (Cons c s)
  let ?d = "d + brace_net [c]"
  have pre: "0 < ?d + brace_net (take n s)" if "n < length s" for n
    using Cons.prems(3) that by (auto dest: spec [of _ "Suc n"])
  show ?case
  proof (cases "s = []")
    case True
    with Cons.prems show ?thesis by (auto split: if_splits)
  next
    case False
    then have "0 < ?d" using pre [of 0] by simp
    with Cons.IH [of ?d "i + 1"] Cons.prems(2) pre show ?thesis
      by (auto split: if_splits)
  qed
qed simp

lemma brace_loop_object: "object_text s \<Longrightarrow> brace_loop (s @ ys) i 0 = (i + length s, 0)"
proof -
  assume o: "object_text s"
  then obtain t where s: "s = CHR ''{'' # t" by (cases s) (auto simp: object_text_def)
  have "0 < 1 + brace_net (take n t)" if "n < length t" for n
    using o that by (auto simp: object_text_def s dest: spec [of _ "Suc n"])
  then show ?thesis
    using o brace_loop_inside [of 1 t ys "i + 1"] by (simp add: s object_text_def)
qed

lemma find_data_key:
  assumes "no_quote stream" "stream \<noteq> ''data''"
  shows "find_str (frame_of stream data) (quoted ''data'') 0 = Some (13 + length stream)"
proof -
  let ?f = "frame_of stream data" and ?pat = "quoted ''data''"
  let ?k = "13 + length stream"
  have f: "?f = CHR ''{'' # quoted ''stream'' @ CHR '':'' # CHR 0x22 # stream @ CHR 0x22 # CHR '','' # ?pat @ CHR '':'' # data @ ''}''"
    by (simp add: frame_of_def quoted_def)
  have d: "drop 11 ?f = stream @ CHR 0x22 # CHR '','' # ?pat @ CHR '':'' # data @ ''}''"
    by (simp add: f quoted_def)
  have d10: "drop 10 ?f = CHR 0x22 # stream @ CHR 0x22 # CHR '','' # ?pat @ CHR '':'' # data @ ''}''"
    by (simp add: f quoted_def)
  have no10: "take (length ?pat) (drop 10 ?f) \<noteq> ?pat"
  proof
    assume "take (length ?pat) (drop 10 ?f) = ?pat"
    then have e: "take 5 (stream @ CHR 0x22 # CHR '','' # ?pat @ CHR '':'' # data @ ''}'') = ''data'' @ [CHR 0x22]"
      unfolding d10 by (simp add: quoted_def numeral_eq_Suc)
    have "takeWhile (\<lambda>c. c \<noteq> CHR 0x22) (take 5 (stream @ CHR 0x22 # CHR '','' # ?pat @ CHR '':'' # data @ ''}'')) =
        take 5 stream"
      using assms(1) by (auto simp: no_quote_def takeWhile_append takeWhile_eq_all_conv
          take_Cons' dest: in_set_takeD)
    with e have "take 5 stream = ''data''" by simp
    with assms(2) show False
      by (cases "length stream \<le> 5") (auto dest: arg_cong [of _ _ length])
  qed
  have "find_str ?f ?pat 0 = find_str ?f ?pat 10"
    by (simp add: f quoted_def find_str_step numeral_eq_Suc)
  also have "\<dots> = find_str ?f ?pat 11"
    using find_str_step [OF no10] by simp
  also have "\<dots> = find_str ?f ?pat (11 + length stream)"
    using find_str_skip [OF d, of "CHR 0x22"] assms(1) by (simp add: no_quote_def quoted_def)
  also have "\<dots> = find_str ?f ?pat (12 + length stream)"
    using find_str_step [of ?pat "11 + length stream" ?f] drop_shift [OF d] by (simp add: quoted_def)
  also have "\<dots> = find_str ?f ?pat ?k"
    using find_str_step [of ?pat "12 + length stream" ?f] drop_Cons_nth [OF drop_shift [OF d]]
    by (simp add: quoted_def)
  also have "\<dots> = Some ?k"
    using drop_shift [of 11 ?f "stream @ [CHR 0x22, CHR '','']"] d
    by (intro find_str_here [of _ _ _ "CHR '':'' # data @ ''}''"]) (simp_all add: quoted_def)
  finally show ?thesis .
qed

lemma split_envelope_eq:
  assumes "no_quote stream" "stream \<noteq> ''data''" "object_text data"
  shows "split_envelope (frame_of stream data) stream_out data_out = (True, stream, data)"
proof -
  let ?f = "frame_of stream data" and ?k = "20 + length stream"
  obtain t where data: "data = CHR ''{'' # t"
    using assms(3) by (cases data) (auto simp: object_text_def)
  have d1: "drop 1 ?f = quoted ''stream'' @ '':'' @ quoted stream @ '','' @ quoted ''data'' @ '':'' @ data @ ''}''"
    by (simp add: frame_of_def)
  have d9: "drop 9 ?f = '':'' @ quoted stream @ '','' @ quoted ''data'' @ '':'' @ data @ ''}''"
    by (simp add: frame_of_def quoted_def)
  have d10: "drop 10 ?f = quoted stream @ '','' @ quoted ''data'' @ '':'' @ data @ ''}''"
    by (simp add: frame_of_def quoted_def)
  have d11: "drop 11 ?f = stream @ CHR 0x22 # '','' @ quoted ''data'' @ '':'' @ data @ ''}''"
    by (simp add: frame_of_def quoted_def)
  have dk: "drop (19 + length stream) ?f = '':'' @ data @ ''}''"
    using drop_shift [of 11 ?f "stream @ CHR 0x22 # '','' @ quoted ''data''"] d11 by (simp add: quoted_def)
  have dd: "drop ?k ?f = data @ ''}''"
    using drop_Cons_nth [of "19 + length stream" ?f "CHR '':''" "data @ ''}''"] dk by simp
  have "find_str ?f (quoted ''stream'') 0 = find_str ?f (quoted ''stream'') 1"
    by (subst find_str_step) (simp_all add: frame_of_def quoted_def)
  then have "find_str ?f (quoted ''stream'') 0 = Some 1"
    using find_str_here [OF d1] by (simp add: quoted_def)
  then have sp: "find_key ?f ''stream'' 0 = Some 10"
    using skip_while_run [OF d9, of "\<lambda>c. c = CHR '' '' \<or> c = CHR '':''"]
    by (simp add: find_key_def quoted_def numeral_eq_Suc)
  have dp: "find_key ?f ''data'' 0 = Some ?k"
    using find_data_key [OF assms(1,2), of data] skip_while_run [OF dk, of "\<lambda>c. c = CHR '' '' \<or> c = CHR '':''"]
    by (simp add: find_key_def quoted_def data add.commute)
  have st: "find_str ?f [CHR 0x22] 11 = Some (11 + length stream)" "substr ?f 11 (11 + length stream) = stream"
    using find_char_run [OF d11] assms(1) substr_run [OF d11] by (simp_all add: no_quote_def)
  have q: "char_at ?f 10 = CHR 0x22" "char_at ?f ?k = CHR ''{''"
    using drop_Cons_nth [of 10 ?f "CHR 0x22"] drop_Cons_nth [of ?k ?f "CHR ''{''"] d10 dd
    by (simp_all add: char_at_def quoted_def data)
  have "substr ?f ?k (?k + length data) = data"
    using dd by (rule substr_run)
  with sp dp st q brace_loop_object [OF assms(3), of "''}''" ?k] dd show ?thesis
    by (simp add: split_envelope_def)
qed

text \<open>
  C32: A combined-stream frame is split exactly.  For every stream name without quotes (other than
  the literal \<open>data\<close>) and every payload whose braces balance for the first time at its end,
  \<open>split_envelope\<close> succeeds on the frame and returns the stream name and the payload, unchanged
  and complete, whatever the payload contains.
\<close>

theorem split_envelope_frame:
  assumes "no_quote stream" "stream \<noteq> ''data''" "object_text data"
  shows "split_envelope (frame_of stream data) stream_out data_out = (True, stream, data)"
  using assms by (rule split_envelope_eq)

definition sample_payload :: string where
  "sample_payload = ''{'' @ quoted ''stream'' @ '':{},'' @ quoted ''data'' @ '':{}}''"

theorem split_envelope_frame_witness:
  "split_envelope (frame_of ''btcusdt@depth@100ms'' sample_payload) [] [] =
    (True, ''btcusdt@depth@100ms'', sample_payload)"
proof (rule split_envelope_frame)
  show "no_quote ''btcusdt@depth@100ms''" "''btcusdt@depth@100ms'' \<noteq> ''data''"
    by (simp_all add: no_quote_def)
  show "object_text sample_payload"
    unfolding object_text_def by code_simp
qed

text \<open>Stream names, as the exchange echoes the requested names: symbol, channel, speed.\<close>

lemma find_str_drop:
  assumes "k \<le> length s"
  shows "find_str s pat (k + j) = map_option ((+) k) (find_str (drop k s) pat j)"
proof (induction "drop k s" pat j rule: find_str.induct)
  case (1 pat j)
  have "drop j (drop k s) = drop (k + j) s" by (simp add: add.commute)
  moreover have "length (drop k s) < j + length pat \<longleftrightarrow> length s < k + j + length pat"
    using assms by auto
  ultimately show ?case
    using 1 by (subst find_str.simps, subst (2) find_str.simps) (simp add: add.assoc)
qed

lemma find_str_after:
  assumes "c \<notin> set xs"
  shows "find_str (xs @ ys) (c # pat) 0 = map_option ((+) (length xs)) (find_str ys (c # pat) 0)"
  using find_str_skip [of 0 "xs @ ys" xs ys c pat] find_str_drop [of "length xs" "xs @ ys" "c # pat" 0] assms
  by simp

definition channel :: "StreamKind \<Rightarrow> string" where
  "channel k = (case k of DepthDiff \<Rightarrow> ''@depth@100ms'' | Depth5 \<Rightarrow> ''@depth5@100ms'' | Trade \<Rightarrow> ''@trade'')"

lemma classify_stream_channel: "CHR ''@'' \<notin> set name \<Longrightarrow> classify_stream (name @ channel k) = k"
proof -
  assume "CHR ''@'' \<notin> set name"
  then have "classify_stream (name @ channel k) = classify_stream (channel k)"
    unfolding classify_stream_def by (simp add: find_str_after)
  moreover have "classify_stream (channel k) = k"
    by (cases k; simp only:; code_simp)
  ultimately show ?thesis by simp
qed

end
