(* ===== verification/Csv_Text.thy ===== *)
theory Csv_Text
  imports Order_Book Decimal
begin

text \<open>
  The CSV dialect of the program: field escaping and the row formats of \<open>src/csv_writer.cpp\<close>, the
  sidecar row of \<open>src/main.cpp\<close>, and the line reader of \<open>src/replay.cpp\<close>.

  A row that the code formats into a stack buffer with \<open>snprintf\<close> and then copies by the returned
  length is an \<open>option\<close>: \<open>None\<close> stands for a text that does not fit, where the copy would read past
  the buffer.
\<close>

section \<open>Writing\<close>

definition needs_quote :: "string \<Rightarrow> bool" where
  "needs_quote s \<longleftrightarrow> list_ex (\<lambda>c. c = CHR '','' \<or> c = CHR 0x22 \<or> c = CHR 0x0A \<or> c = CHR 0x0D) s"

definition csv_escape_append :: "string \<Rightarrow> string \<Rightarrow> string" where
  "csv_escape_append out field =
     (if \<not> needs_quote field then out @ field
      else out @ [CHR 0x22] @ concat (map (\<lambda>c. if c = CHR 0x22 then [CHR 0x22, c] else [c]) field) @ [CHR 0x22])"

definition csv_escape :: "string \<Rightarrow> string" where
  "csv_escape field = csv_escape_append [] field"

text \<open>\<open>snprintf\<close> into a buffer of \<open>cap\<close> bytes whose content is then used by its full length.\<close>

definition snprintf :: "nat \<Rightarrow> string \<Rightarrow> string option" where
  "snprintf cap text = (if length text < cap then Some text else None)"

definition md_header :: string where
  "md_header = ''recv_tsec,recv_tnsec,venue,stream_kind,shard_id,conn_epoch,conn_seq,symbol,payload_json''"

definition md_row ::
  "Timestamp \<Rightarrow> Venue \<Rightarrow> StreamKind \<Rightarrow> i32 \<Rightarrow> u64 \<Rightarrow> u64 \<Rightarrow> string \<Rightarrow> string \<Rightarrow> string option" where
  "md_row recv venue kind shard_id conn_epoch conn_seq symbol payload_json =
     (case snprintf 128
        (show_int (tsec recv) @ '','' @ show_int (tnsec recv) @ '','' @ venue_to_string venue @ '','' @
         kind_to_string kind @ '','' @ show_int shard_id @ '','' @ show_u64 conn_epoch @ '','' @
         show_u64 conn_seq @ '','') of
        None \<Rightarrow> None
      | Some pre \<Rightarrow> Some (csv_escape_append (pre @ symbol @ '','') payload_json @ [CHR 0x0A]))"

definition ob_header :: string where
  "ob_header = ''tsec,tnsec,seqNo,id,type,side,'' @
     ''bid0,bid1,bid2,bid3,bid4,bid_size0,bid_size1,bid_size2,bid_size3,bid_size4,'' @
     ''ask0,ask1,ask2,ask3,ask4,ask_size0,ask_size1,ask_size2,ask_size3,ask_size4''"

definition ob_row_columns :: "ObRow \<Rightarrow> string list" where
  "ob_row_columns r =
     [show_int (tsec (row_ts r)), show_int (tnsec (row_ts r)), show_u64 (row_seqNo r), show_int (row_id r),
      [row_type r], [row_side r]] @
     map show_int (row_bid r) @ map show_int (row_bid_size r) @
     map show_int (row_ask r) @ map show_int (row_ask_size r)"

definition ob_row :: "ObRow \<Rightarrow> string option" where
  "ob_row r = snprintf 640 (commas (ob_row_columns r) @ [CHR 0x0A])"

text \<open>The row that the resynchronisation in \<open>main.cpp\<close> adds to the snapshot sidecar.\<close>

definition snap_header :: string where
  "snap_header = ''recv_tsec,recv_tnsec,symbol,lastUpdateId,payload_json''"

definition snap_row :: "Timestamp \<Rightarrow> string \<Rightarrow> u64 \<Rightarrow> string \<Rightarrow> string option" where
  "snap_row t symbol lastUpdateId raw =
     (case snprintf 96 (show_int (tsec t) @ '','' @ show_int (tnsec t) @ '','') of
        None \<Rightarrow> None
      | Some pre \<Rightarrow>
          Some (csv_escape_append (pre @ symbol @ '','' @ show_u64 lastUpdateId @ '','') raw @ [CHR 0x0A]))"

section \<open>Reading\<close>

text \<open>The character loop of \<open>parse_csv_line\<close>, with the field under construction, the quote flag and
  the finished fields.\<close>

fun csv_loop :: "string \<Rightarrow> string \<Rightarrow> bool \<Rightarrow> string list \<Rightarrow> string list" where
  "csv_loop [] cur q f = f @ [cur]"
| "csv_loop (ch # cs) cur True f =
     (if ch = CHR 0x22 then
        (case cs of
           [] \<Rightarrow> csv_loop cs cur False f
         | c # cs' \<Rightarrow> if c = CHR 0x22 then csv_loop cs' (cur @ [CHR 0x22]) True f else csv_loop cs cur False f)
      else csv_loop cs (cur @ [ch]) True f)"
| "csv_loop (ch # cs) cur False f =
     (if ch = CHR 0x22 then csv_loop cs cur True f
      else if ch = CHR '','' then csv_loop cs [] False (f @ [cur])
      else csv_loop cs (cur @ [ch]) False f)"

definition parse_csv_line :: "string \<Rightarrow> string list" where
  "parse_csv_line line = csv_loop line [] False []"

text \<open>The lines of a file.\<close>

definition getlines :: "string \<Rightarrow> string list" where
  "getlines text = getline_all (CHR 0x0A) text"

section \<open>What is written can be read\<close>

abbreviation escape_body :: "string \<Rightarrow> string" where
  "escape_body s \<equiv> concat (map (\<lambda>c. if c = CHR 0x22 then [CHR 0x22, c] else [c]) s)"

definition ends_field :: "string \<Rightarrow> bool" where
  "ends_field r \<longleftrightarrow> r = [] \<or> hd r = CHR '',''"

lemma csv_loop_plain:
  "\<not> needs_quote s \<Longrightarrow> csv_loop (s @ r) cur False f = csv_loop r (cur @ s) False f"
  by (induction s arbitrary: cur) (auto simp: needs_quote_def)

lemma csv_loop_body:
  "ends_field r \<Longrightarrow> csv_loop (escape_body s @ CHR 0x22 # r) cur True f = csv_loop r (cur @ s) False f"
proof (induction s arbitrary: cur)
  case Nil
  then show ?case by (cases r) (auto simp: ends_field_def)
qed auto

lemma csv_loop_field:
  assumes "ends_field r"
  shows "csv_loop (csv_escape s @ r) cur False f = csv_loop r (cur @ s) False f"
  using csv_loop_plain [of s r cur f] csv_loop_body [OF assms, of s cur f]
  by (simp add: csv_escape_def csv_escape_append_def)

lemma csv_loop_fields: "csv_loop (commas (map csv_escape (x # xs))) [] False f = f @ x # xs"
proof (induction xs arbitrary: x f)
  case Nil
  then show ?case
    using csv_loop_field [of "[]" x "[]" f] by (simp add: ends_field_def)
next
  case (Cons y xs)
  then show ?case
    by (simp add: csv_loop_field ends_field_def)
qed

text \<open>
  C33: CSV lines survive the round trip.  The replay's line parser, on any non-empty list of
  fields escaped by \<open>csv_escape\<close> and joined by commas, returns exactly these fields, also when
  they contain commas, quotes or line breaks.
\<close>

theorem parse_csv_line_escaped: "parse_csv_line (commas (map csv_escape (x # xs))) = x # xs"
  unfolding parse_csv_line_def csv_loop_fields by simp

interpretation csv_line: codec "\<lambda>fs. commas (map csv_escape fs)" parse_csv_line "\<lambda>fs. fs \<noteq> []"
proof unfold_locales
  fix fs :: "string list"
  assume "fs \<noteq> []"
  then obtain x xs where "fs = x # xs" by (cases fs) auto
  then show "parse_csv_line (commas (map csv_escape fs)) = fs"
    by (simp only: parse_csv_line_def csv_loop_fields append_Nil)
qed

text \<open>Numbers and names need no quotes.\<close>

lemma needs_quote_append [simp]: "needs_quote (s @ t) \<longleftrightarrow> needs_quote s \<or> needs_quote t"
  by (auto simp: needs_quote_def list_ex_iff)

lemma escape_plain: "\<not> needs_quote s \<Longrightarrow> csv_escape s = s"
  by (simp add: csv_escape_def csv_escape_append_def)

lemma escape_append: "csv_escape_append out s = out @ csv_escape s"
  by (simp add: csv_escape_def csv_escape_append_def)

lemma plain_digits: "all_digits s \<Longrightarrow> \<not> needs_quote s"
  by (induction s) (auto simp: needs_quote_def is_digit_def)

lemma plain_numbers [simp]: "\<not> needs_quote (show_int v)" "\<not> needs_quote (show_u64 w)"
proof -
  have "\<not> needs_quote (show_nat n)" for n
    by (rule plain_digits) (rule show_nat_digits)
  then show "\<not> needs_quote (show_int v)" "\<not> needs_quote (show_u64 w)"
    by (auto simp: show_int_def show_u64_def needs_quote_def)
qed

lemma plain_names [simp]: "\<not> needs_quote (venue_to_string v)" "\<not> needs_quote (kind_to_string k)"
  by (cases v; simp add: needs_quote_def) (cases k; simp add: needs_quote_def)

lemma length_names: "length (venue_to_string v) = 4" "length (kind_to_string k) \<le> 10"
  by (cases v; simp) (cases k; simp)

lemma line_of_plain:
  "fs \<noteq> [] \<Longrightarrow> list_all (\<lambda>s. \<not> needs_quote s) fs \<Longrightarrow> parse_csv_line (commas fs) = fs"
  using csv_line.dec_enc [of fs] map_idI [of fs csv_escape] by (simp add: list_all_iff escape_plain)

section \<open>Market-data rows\<close>

definition md_fields ::
  "Timestamp \<Rightarrow> Venue \<Rightarrow> StreamKind \<Rightarrow> i32 \<Rightarrow> u64 \<Rightarrow> u64 \<Rightarrow> string \<Rightarrow> string \<Rightarrow> string list" where
  "md_fields recv venue kind shard_id conn_epoch conn_seq symbol payload =
     [show_int (tsec recv), show_int (tnsec recv), venue_to_string venue, kind_to_string kind,
      show_int shard_id, show_u64 conn_epoch, show_u64 conn_seq, symbol, payload]"

lemma md_fields_nonempty: "md_fields recv venue kind shard_id conn_epoch conn_seq symbol payload \<noteq> []"
  by (simp add: md_fields_def)

definition ts_in_range :: "Timestamp \<Rightarrow> bool" where
  "ts_in_range t \<longleftrightarrow> in_i64 (tsec t) \<and> in_i32 (tnsec t)"

text \<open>The prefix takes at most 105 of the 128 bytes.\<close>

lemma md_row_text_eq:
  assumes "ts_in_range recv" "in_i32 shard_id"
  shows "md_row recv venue kind shard_id conn_epoch conn_seq symbol payload =
    Some (commas [show_int (tsec recv), show_int (tnsec recv), venue_to_string venue, kind_to_string kind,
      show_int shard_id, show_u64 conn_epoch, show_u64 conn_seq, symbol, csv_escape payload] @ [CHR 0x0A])"
proof -
  have "length (show_int (tsec recv)) \<le> 20" "length (show_int (tnsec recv)) \<le> 11" "length (show_int shard_id) \<le> 11"
    using assms by (simp_all add: ts_in_range_def length_show_i64 length_show_i32)
  then show ?thesis
    using length_show_u64 [of conn_epoch] length_show_u64 [of conn_seq] length_names(1) [of venue] length_names(2) [of kind]
    by (simp add: md_row_def snprintf_def escape_append)
qed

lemma md_row_eq:
  assumes "ts_in_range recv" "in_i32 shard_id" "\<not> needs_quote symbol"
  shows "md_row recv venue kind shard_id conn_epoch conn_seq symbol payload =
    Some (commas (map csv_escape (md_fields recv venue kind shard_id conn_epoch conn_seq symbol payload)) @ [CHR 0x0A])"
  using assms by (simp add: md_row_text_eq md_fields_def escape_plain)



section \<open>Order-book rows\<close>

definition row_in_range :: "ObRow \<Rightarrow> bool" where
  "row_in_range r \<longleftrightarrow> row_shape r \<and> ts_in_range (row_ts r) \<and> in_i32 (row_id r) \<and>
     list_all in_i64 (row_bid r @ row_bid_size r @ row_ask r @ row_ask_size r)"

definition plain_row :: "ObRow \<Rightarrow> bool" where
  "plain_row r \<longleftrightarrow> \<not> needs_quote [row_type r, row_side r]"

lemma length_ob_row_columns: "row_shape r \<Longrightarrow> length (ob_row_columns r) = 26"
  by (simp add: ob_row_columns_def row_shape_def)

text \<open>The text of a row takes at most 490 of the 640 bytes.\<close>

lemma ob_row_eq:
  assumes "row_in_range r"
  shows "ob_row r = Some (commas (ob_row_columns r) @ [CHR 0x0A])"
proof -
  let ?num = "map show_int (row_bid r @ row_bid_size r @ row_ask r @ row_ask_size r)"
  let ?pre = "[show_int (tsec (row_ts r)), show_int (tnsec (row_ts r)), show_u64 (row_seqNo r), show_int (row_id r),
      [row_type r], [row_side r]]"
  have cols: "ob_row_columns r = ?pre @ ?num"
    by (simp add: ob_row_columns_def)
  have "list_all (\<lambda>x. length x \<le> 20) ?num"
    using assms length_show_i64 by (auto simp: row_in_range_def list_all_iff)
  then have "sum_list (map length ?num) \<le> 20 * length ?num"
    by (rule sum_lengths_le)
  moreover have "length ?num = 20"
    using assms by (simp add: row_in_range_def row_shape_def)
  moreover have "sum_list (map length ?pre) \<le> 64"
    using assms length_show_u64 [of "row_seqNo r"] length_show_i64 [of "tsec (row_ts r)"]
      length_show_i32 [of "tnsec (row_ts r)"] length_show_i32 [of "row_id r"]
    by (simp add: row_in_range_def ts_in_range_def)
  ultimately have "length (commas (ob_row_columns r)) \<le> 489"
    unfolding cols length_commas by (simp del: map_append)
  then show ?thesis
    by (simp add: ob_row_def snprintf_def)
qed

lemma ob_row_line:
  assumes "plain_row r"
  shows "parse_csv_line (commas (ob_row_columns r)) = ob_row_columns r"
  using assms by (intro line_of_plain)
    (auto simp: ob_row_columns_def plain_row_def needs_quote_def [of "[_]"] needs_quote_def [of "[_, _]"] list_all_iff)

text \<open>Reading a row back, as an analysis of the output would.\<close>

definition decode_ob_row :: "string \<Rightarrow> ObRow" where
  "decode_ob_row line =
     (let f = parse_csv_line line; nums = map atoll (drop 6 f)
      in \<lparr>row_ts = \<lparr>tsec = atoll (f ! 0), tnsec = atoi (f ! 1)\<rparr>, row_seqNo = strtoull (f ! 2), row_id = atoi (f ! 3),
          row_type = hd (f ! 4), row_side = hd (f ! 5), row_bid = take 5 nums, row_bid_size = take 5 (drop 5 nums),
          row_ask = take 5 (drop 10 nums), row_ask_size = take 5 (drop 15 nums)\<rparr>)"

interpretation ob_row_text: codec "\<lambda>r. commas (ob_row_columns r)" decode_ob_row "\<lambda>r. row_in_range r \<and> plain_row r"
proof unfold_locales
  fix r
  assume r: "row_in_range r \<and> plain_row r"
  let ?nums = "row_bid r @ row_bid_size r @ row_ask r @ row_ask_size r"
  have "map atoll (map show_int ?nums) = ?nums"
    using r by (intro i64_text.map_dec_enc) (simp add: row_in_range_def list_all_iff)
  then have "map atoll (drop 6 (ob_row_columns r)) = ?nums"
    by (simp add: ob_row_columns_def)
  moreover have "length (row_bid r) = 5" "length (row_bid_size r) = 5" "length (row_ask r) = 5" "length (row_ask_size r) = 5"
    using r by (simp_all add: row_in_range_def row_shape_def)
  moreover have "in_i64 (tsec (row_ts r))" "in_i32 (tnsec (row_ts r))" "in_i32 (row_id r)"
    using r by (simp_all add: row_in_range_def ts_in_range_def)
  ultimately show "decode_ob_row (commas (ob_row_columns r)) = r"
    using r by (simp add: decode_ob_row_def Let_def ob_row_line)
      (simp add: ob_row_columns_def i64_text.dec_enc i32_text.dec_enc u64_text.dec_enc)
qed

text \<open>
  C34: Every order-book row fits its buffer and is lossless.  For every row of machine values with
  plain type and side letters, the text that \<open>OrderBookWriter::write_row\<close> formats fits in its
  640 bytes, has exactly the 26 columns of the header, ends with a line break and decodes to
  the row itself.
\<close>

theorem ob_row_lossless:
  assumes "row_in_range r" "plain_row r"
  shows "map_option (\<lambda>text. (length (parse_csv_line (butlast text)), last text, decode_ob_row (butlast text))) (ob_row r) =
    Some (length (parse_csv_line ob_header), CHR 0x0A, r)"
proof -
  have "length (parse_csv_line ob_header) = 26" by code_simp
  moreover have "length (parse_csv_line (commas (ob_row_columns r))) = 26"
    using assms by (simp add: ob_row_line length_ob_row_columns row_in_range_def)
  ultimately show ?thesis
    using ob_row_text.dec_enc [of r] assms by (simp add: ob_row_eq)
qed

theorem ob_row_lossless_witness:
  "map_option (\<lambda>text. (length (parse_csv_line (butlast text)), last text, decode_ob_row (butlast text)))
      (ob_row (empty_row\<lparr>row_type := CHR ''D'', row_bid := [INT64_MAX, INT64_MIN, 0, - 1, 5]\<rparr>)) =
    Some (length (parse_csv_line ob_header), CHR 0x0A, empty_row\<lparr>row_type := CHR ''D'', row_bid := [INT64_MAX, INT64_MIN, 0, - 1, 5]\<rparr>)"
proof (rule ob_row_lossless)
  show "row_in_range (empty_row\<lparr>row_type := CHR ''D'', row_bid := [INT64_MAX, INT64_MIN, 0, - 1, 5]\<rparr>)"
    by code_simp
  show "plain_row (empty_row\<lparr>row_type := CHR ''D'', row_bid := [INT64_MAX, INT64_MIN, 0, - 1, 5]\<rparr>)"
    by code_simp
qed

section \<open>Snapshot rows\<close>

lemma snap_row_text_eq:
  assumes "ts_in_range t"
  shows "snap_row t symbol luid raw =
    Some (commas [show_int (tsec t), show_int (tnsec t), symbol, show_u64 luid, csv_escape raw] @ [CHR 0x0A])"
proof -
  have "length (show_int (tsec t)) \<le> 20" "length (show_int (tnsec t)) \<le> 11"
    using assms by (simp_all add: ts_in_range_def length_show_i64 length_show_i32)
  then show ?thesis
    by (simp add: snap_row_def snprintf_def escape_append)
qed

lemma snap_row_eq:
  assumes "ts_in_range t" "\<not> needs_quote symbol"
  shows "snap_row t symbol luid raw =
    Some (commas (map csv_escape [show_int (tsec t), show_int (tnsec t), symbol, show_u64 luid, raw]) @ [CHR 0x0A])"
  using assms by (simp add: snap_row_text_eq escape_plain)

section \<open>Files\<close>

lemma no_break_escape: "CHR 0x0A \<notin> set s \<Longrightarrow> CHR 0x0A \<notin> set (csv_escape s)"
  by (auto simp: csv_escape_def csv_escape_append_def)

lemma no_break_line: "list_all (\<lambda>s. CHR 0x0A \<notin> set s) fs \<Longrightarrow> CHR 0x0A \<notin> set (commas (map csv_escape fs))"
  using set_commas [of "map csv_escape fs"] no_break_escape by (fastforce simp: list_all_iff)

definition file_text :: "string list list \<Rightarrow> string" where
  "file_text rows = concat (map (\<lambda>fs. commas (map csv_escape fs) @ [CHR 0x0A]) rows)"

text \<open>A file of rows whose fields hold no line break is read back row by row.\<close>

lemma file_reads_back:
  assumes "list_all (\<lambda>fs. fs \<noteq> [] \<and> list_all (\<lambda>s. CHR 0x0A \<notin> set s) fs) rows"
  shows "map parse_csv_line (getlines (file_text rows)) = rows"
proof -
  have "getlines (file_text rows) = map (\<lambda>fs. commas (map csv_escape fs)) rows"
    using assms getline_all_pieces [of "CHR 0x0A" "map (\<lambda>fs. commas (map csv_escape fs)) rows"]
    by (auto simp: getlines_def file_text_def comp_def list_all_iff no_break_line)
  moreover have "map parse_csv_line (map (\<lambda>fs. commas (map csv_escape fs)) rows) = rows"
    using assms by (intro csv_line.map_dec_enc) (auto simp: list_all_iff)
  ultimately show ?thesis by simp
qed

text \<open>
  The escaping protects line breaks inside a field, but the replay reads line by line: a field with
  a line break is split in two lines.
\<close>

lemma line_break_splits_row:
  "getlines (file_text [[''a'', [CHR ''b'', CHR 0x0A, CHR ''c'']]]) =
     [''a,'' @ [CHR 0x22, CHR ''b''], [CHR ''c'', CHR 0x22]]"
  by code_simp

end
