(* ===== verification/App_Config.thy ===== *)
theory App_Config
  imports Json_Min "HOL-Library.Multiset"
begin

text \<open>
  Configuration and sharding (\<open>include/config.hpp\<close>, \<open>src/config.cpp\<close>): the command-line parser,
  the combined-stream query and the partition of the symbols over connections.

  \<open>from_args\<close> takes the arguments after the program name and returns the configuration with the
  error text, empty for no error, as the code returns it through \<open>err\<close>.
\<close>

section \<open>Definitions\<close>

definition kStreamsPerSymbol :: nat where
  "kStreamsPerSymbol = 3"

definition kMaxCombinedStreams :: nat where
  "kMaxCombinedStreams = 1024"

datatype TimePolicy = RecvWallClock | BinanceEventTime

record Config =
  cfg_venue :: Venue
  cfg_symbols :: "string list"
  cfg_output_dir :: string
  cfg_duration_s :: i32
  cfg_time_policy :: TimePolicy
  cfg_integrate_trades :: bool
  cfg_sync_writes :: bool
  cfg_shard_id :: i32
  cfg_shards :: i32
  cfg_replay_input :: string

definition new_Config :: Config where
  "new_Config = \<lparr>cfg_venue = Spot, cfg_symbols = [], cfg_output_dir = ''./output'', cfg_duration_s = 0,
     cfg_time_policy = RecvWallClock, cfg_integrate_trades = False, cfg_sync_writes = False,
     cfg_shard_id = 0, cfg_shards = 1, cfg_replay_input = []\<rparr>"

text \<open>\<open>toupper\<close> and \<open>tolower\<close> of the C locale.\<close>

definition toupper :: "char \<Rightarrow> char" where
  "toupper c = (let n = (of_char c :: nat) in if 97 \<le> n \<and> n \<le> 122 then char_of (n - 32) else c)"

definition tolower :: "char \<Rightarrow> char" where
  "tolower c = (let n = (of_char c :: nat) in if 65 \<le> n \<and> n \<le> 90 then char_of (n + 32) else c)"

definition split_csv :: "string \<Rightarrow> string list" where
  "split_csv s = filter (\<lambda>tok. tok \<noteq> []) (getline_all (CHR '','') s)"

text \<open>One argument that takes a value: the new configuration or an error.\<close>

fun set_option :: "Config \<Rightarrow> string \<Rightarrow> string \<Rightarrow> string + Config" where
  "set_option c a v =
     (if a = ''--venue'' then
        (if v = ''spot'' then Inr (c\<lparr>cfg_venue := Spot\<rparr>)
         else if v = ''usdm'' then Inr (c\<lparr>cfg_venue := Usdm\<rparr>)
         else Inl ''invalid --venue'')
      else if a = ''--symbols'' then Inr (c\<lparr>cfg_symbols := map (map toupper) (split_csv v)\<rparr>)
      else if a = ''--output-dir'' then Inr (c\<lparr>cfg_output_dir := v\<rparr>)
      else if a = ''--duration'' then Inr (c\<lparr>cfg_duration_s := atoi v\<rparr>)
      else if a = ''--shard-id'' then Inr (c\<lparr>cfg_shard_id := atoi v\<rparr>)
      else if a = ''--shards'' then Inr (c\<lparr>cfg_shards := (if atoi v < 1 then 1 else atoi v)\<rparr>)
      else if a = ''--time-policy'' then
        Inr (c\<lparr>cfg_time_policy := (if v = ''event'' then BinanceEventTime else RecvWallClock)\<rparr>)
      else Inr (c\<lparr>cfg_replay_input := v\<rparr>))"

definition takes_value :: "string \<Rightarrow> bool" where
  "takes_value a \<longleftrightarrow> a \<in> {''--venue'', ''--symbols'', ''--output-dir'', ''--duration'', ''--shard-id'',
     ''--shards'', ''--time-policy'', ''--replay''}"

fun args_loop :: "string list \<Rightarrow> Config \<Rightarrow> Config \<times> string" where
  "args_loop [] c = (c, [])"
| "args_loop (a # args) c =
     (if takes_value a then
        (case args of
           [] \<Rightarrow> (c, ''missing value for '' @ a)
         | v # args' \<Rightarrow>
             (case set_option c a v of Inl err \<Rightarrow> (c, err) | Inr c' \<Rightarrow> args_loop args' c'))
      else if a = ''--integrate-trades'' then args_loop args (c\<lparr>cfg_integrate_trades := True\<rparr>)
      else if a = ''--sync-writes'' then args_loop args (c\<lparr>cfg_sync_writes := True\<rparr>)
      else if a = ''--help'' \<or> a = ''-h'' then (c, ''help'')
      else (c, ''unknown argument: '' @ a))"

definition dedup :: "string list \<Rightarrow> string list" where
  "dedup symbols = foldl (\<lambda>uniq sy. if sy \<in> set uniq then uniq else uniq @ [sy]) [] symbols"

definition from_args :: "string list \<Rightarrow> Config \<times> string" where
  "from_args args =
     (case args_loop args new_Config of (c, err) \<Rightarrow>
        if err \<noteq> [] then (c, err)
        else
          let c' = c\<lparr>cfg_symbols := dedup (cfg_symbols c)\<rparr>;
              n = length (cfg_symbols c')
          in if cfg_replay_input c' \<noteq> [] then (c', [])
             else if n = 0 then (c', ''at least one --symbols required (or use --replay)'')
             else
               let shard_count = min n (nat (cfg_shards c'));
                   max_symbols_per_shard = (n + shard_count - 1) div shard_count
               in if max_symbols_per_shard * kStreamsPerSymbol > kMaxCombinedStreams
                  then (c', ''too many symbols per shard: Binance permits at most '' @
                          show_nat kMaxCombinedStreams @
                          '' combined streams per connection; increase --shards'')
                  else (c', []))"

definition ws_base_url :: "Config \<Rightarrow> string" where
  "ws_base_url c = (if cfg_venue c = Spot then ''wss://stream.binance.com:9443/stream?streams=''
     else ''wss://fstream.binance.com/public/stream?streams='')"

definition symbol_streams :: "string \<Rightarrow> string" where
  "symbol_streams symbol = (let name = map tolower symbol
     in name @ ''@depth@100ms/'' @ name @ ''@depth5@100ms/'' @ name @ ''@trade'')"

fun append_symbol :: "string \<Rightarrow> nat \<times> string \<Rightarrow> string" where
  "append_symbol out (s, symbol) = out @ (if s \<noteq> 0 then ''/'' else []) @ symbol_streams symbol"

definition combined_streams :: "Config \<Rightarrow> string" where
  "combined_streams c = foldl append_symbol [] (enumerate 0 (cfg_symbols c))"

definition shard_symbols :: "string list \<Rightarrow> int \<Rightarrow> string list list" where
  "shard_symbols symbols shards =
     (let shards1 = (if shards < 1 then 1 else shards);
          shards2 = (if nat shards1 > length symbols then if symbols = [] then 1 else length symbols
                     else nat shards1)
      in foldl (\<lambda>out i. out[i mod shards2 := out ! (i mod shards2) @ [symbols ! i]])
           (replicate shards2 []) [0..<length symbols])"

section \<open>Deduplication\<close>

lemma dedup_snoc: "dedup (xs @ [x]) = (if x \<in> set (dedup xs) then dedup xs else dedup xs @ [x])"
  by (simp add: dedup_def)

lemma dedup_Nil [simp]: "dedup [] = []"
  by (simp add: dedup_def)

lemma set_dedup [simp]: "set (dedup xs) = set xs"
  by (induction xs rule: rev_induct) (auto simp: dedup_snoc)

lemma distinct_dedup [simp]: "distinct (dedup xs)"
  by (induction xs rule: rev_induct) (auto simp: dedup_snoc)

lemma dedup_eq_Nil [simp]: "dedup xs = [] \<longleftrightarrow> xs = []"
  by (metis set_dedup set_empty)

text \<open>The first occurrence of every symbol stays, in order.\<close>

lemma dedup_first: "dedup xs = rev (remdups (rev xs))"
  by (induction xs rule: rev_induct) (auto simp: dedup_snoc)

section \<open>Sharding\<close>

definition shard_count :: "string list \<Rightarrow> int \<Rightarrow> nat" where
  "shard_count symbols shards = (if symbols = [] then 1 else min (length symbols) (nat (max 1 shards)))"

lemma shard_count_pos: "0 < shard_count symbols shards"
  by (auto simp: shard_count_def)

definition shard_of :: "string list \<Rightarrow> nat \<Rightarrow> nat \<Rightarrow> string list" where
  "shard_of symbols n j = map ((!) symbols) (filter (\<lambda>i. i mod n = j) [0..<length symbols])"

lemma shard_fold:
  assumes "0 < n"
  shows "foldl (\<lambda>out i. out[i mod n := out ! (i mod n) @ [f i]]) (replicate n []) [0..<m] =
    map (\<lambda>j. map f (filter (\<lambda>i. i mod n = j) [0..<m])) [0..<n]"
proof (induction m)
  case 0
  show ?case by (simp add: map_replicate_trivial)
next
  case (Suc m)
  have "m mod n < n" using assms by simp
  then show ?case
    by (simp add: Suc) (rule nth_equalityI; simp add: nth_list_update)
qed

lemma shard_symbols_eq:
  "shard_symbols symbols shards = map (shard_of symbols (shard_count symbols shards)) [0..<shard_count symbols shards]"
proof -
  let ?s1 = "if shards < 1 then 1 else shards"
  have "(if nat ?s1 > length symbols then if symbols = [] then 1 else length symbols else nat ?s1) =
      shard_count symbols shards"
    by (cases symbols) (auto simp: shard_count_def min_def max_def)
  then show ?thesis
    unfolding shard_symbols_def Let_def by (simp add: shard_fold shard_count_pos shard_of_def)
qed

lemma shifted_multiple:
  fixes m n j :: nat
  assumes "j < n"
  shows "(m + (n - j)) mod n = 0 \<longleftrightarrow> m mod n = j"
proof -
  have "n dvd m + (n - j) \<longleftrightarrow> int n dvd int m - int j"
  proof -
    have "int (m + (n - j)) = (int m - int j) + int n" using assms by simp
    then show ?thesis
      by (metis dvd_add_left_iff dvd_refl int_dvd_int_iff)
  qed
  also have "\<dots> \<longleftrightarrow> m mod n = j"
    using assms by (metis mod_eq_dvd_iff mod_less of_nat_eq_iff of_nat_mod)
  finally show ?thesis by (simp only: dvd_eq_mod_eq_0)
qed

lemma length_filter_mod:
  assumes "j < n"
  shows "length (filter (\<lambda>i. i mod n = j) [0..<m]) = (m + (n - 1 - j)) div n"
proof (induction m)
  case 0
  with assms show ?case by simp
next
  case (Suc m)
  have e: "Suc m + (n - 1 - j) = Suc (m + (n - 1 - j))" by simp
  have "Suc (m + (n - 1 - j)) = m + (n - j)" using assms by simp
  then have "Suc (m + (n - 1 - j)) mod n = 0 \<longleftrightarrow> m mod n = j"
    using shifted_multiple [OF assms, of m] by (simp only:)
  with Suc show ?case unfolding e div_Suc by simp
qed

lemma length_shard_of:
  "j < n \<Longrightarrow> length (shard_of symbols n j) \<le> (length symbols + n - 1) div n"
  by (simp add: shard_of_def length_filter_mod div_le_mono)

lemma shard_of_nonempty: "j < n \<Longrightarrow> n \<le> length symbols \<Longrightarrow> shard_of symbols n j \<noteq> []"
proof -
  assume a: "j < n" "n \<le> length symbols"
  then have "j \<in> set (filter (\<lambda>i. i mod n = j) [0..<length symbols])" by simp
  then show ?thesis by (force simp: shard_of_def filter_empty_conv)
qed

lemma concat_filter_mod_mset:
  assumes "0 < n"
  shows "mset (concat (map (\<lambda>j. map f (filter (\<lambda>i. i mod n = j) xs)) [0..<n])) = mset (map f xs)"
proof (induction xs)
  case Nil
  show ?case by (simp add: concat_map_singleton)
next
  case (Cons x xs)
  let ?g = "\<lambda>j. map f (filter (\<lambda>i. i mod n = j) xs)"
  have x: "x mod n < n" using assms by simp
  then have split: "[0..<n] = [0..<x mod n] @ [x mod n] @ [Suc (x mod n)..<n]"
    by (metis append_Cons append_Nil less_imp_le upt_conv_Cons upt_add_eq_append le0 le_add_diff_inverse)
  have "map (\<lambda>j. map f (filter (\<lambda>i. i mod n = j) (x # xs))) [0..<n] =
      map ?g [0..<x mod n] @ [f x # ?g (x mod n)] @ map ?g [Suc (x mod n)..<n]"
    unfolding split by auto
  moreover have "map ?g [0..<n] = map ?g [0..<x mod n] @ [?g (x mod n)] @ map ?g [Suc (x mod n)..<n]"
    unfolding split by simp
  ultimately show ?case using Cons by simp
qed

lemma shards_mset: "mset (concat (shard_symbols symbols shards)) = mset symbols"
  unfolding shard_symbols_eq shard_of_def
  by (rule concat_filter_mod_mset [OF shard_count_pos, THEN trans]) (simp only: map_nth)

lemma shard_count_le: "symbols \<noteq> [] \<Longrightarrow> shard_count symbols shards \<le> length symbols"
  by (simp add: shard_count_def)

lemma shard_size: "g \<in> set (shard_symbols symbols shards) \<Longrightarrow>
  length g \<le> (length symbols + shard_count symbols shards - 1) div shard_count symbols shards"
  using length_shard_of by (auto simp: shard_symbols_eq simp del: One_nat_def)

lemma shard_empty: "[] \<in> set (shard_symbols symbols shards) \<longleftrightarrow> symbols = []"
proof
  assume "symbols = []"
  then show "[] \<in> set (shard_symbols symbols shards)"
    by (simp add: shard_symbols_def)
next
  assume "[] \<in> set (shard_symbols symbols shards)"
  then show "symbols = []"
    using shard_of_nonempty [OF _ shard_count_le] by (fastforce simp: shard_symbols_eq)
qed

text \<open>
  Sharding is a partition.  For every list of symbols and every shard count, also zero,
  negative or larger than the number of symbols, \<open>shard_symbols\<close> puts every occurrence of a symbol
  in exactly one shard, makes no shard empty (unless there are no symbols at all), makes as many
  shards as asked for up to the number of symbols, and no shard gets more than its rounded-up
  share.
\<close>

theorem sharding_partitions:
  "mset (concat (shard_symbols symbols shards)) = mset symbols \<and>
   ([] \<in> set (shard_symbols symbols shards) \<longleftrightarrow> symbols = []) \<and>
   length (shard_symbols symbols shards) = max 1 (min (length symbols) (nat (max 1 shards))) \<and>
   list_all (\<lambda>g. length g \<le> (length symbols + length (shard_symbols symbols shards) - 1) div
       length (shard_symbols symbols shards)) (shard_symbols symbols shards)"
proof -
  have n: "length (shard_symbols symbols shards) = shard_count symbols shards"
    by (simp add: shard_symbols_eq)
  have "shard_count symbols shards = max 1 (min (length symbols) (nat (max 1 shards)))"
    by (cases symbols) (auto simp: shard_count_def max_def min_def)
  then show ?thesis
    unfolding n list_all_iff using shards_mset shard_empty shard_size by blast
qed

section \<open>Accepted configurations\<close>

definition config_ok :: "Config \<Rightarrow> bool" where
  "config_ok c \<longleftrightarrow> 1 \<le> cfg_shards c \<and> list_all (\<lambda>s. s \<noteq> [] \<and> map toupper s = s \<and> CHR '','' \<notin> set s) (cfg_symbols c)"

lemma toupper_idem [simp]: "toupper (toupper c) = toupper c"
  by (auto simp: toupper_def Let_def of_char_of)

lemma toupper_tolower [simp]: "toupper (tolower c) = toupper c"
  by (auto simp: toupper_def tolower_def Let_def of_char_of)

lemma toupper_comma: "toupper c = CHR '','' \<longleftrightarrow> c = CHR '',''"
proof -
  have "(of_char c :: nat) = 44 \<longleftrightarrow> c = CHR '',''"
    using of_char_eq_iff [of c "CHR '',''", where 'a = nat] by simp
  moreover have "toupper c = CHR '','' \<longleftrightarrow> (of_char (toupper c) :: nat) = 44"
    using of_char_eq_iff [of "toupper c" "CHR '',''", where 'a = nat] by simp
  ultimately show ?thesis
    by (auto simp: toupper_def Let_def of_char_of split: if_splits)
qed

lemma split_csv_tokens: "s \<in> set (split_csv v) \<Longrightarrow> s \<noteq> [] \<and> CHR '','' \<notin> set s"
  using getline_from_set [of s "CHR '',''" "[]" v] by (auto simp: split_csv_def getline_all_def)

lemma config_ok_new [simp]: "config_ok new_Config"
  by (simp add: config_ok_def new_Config_def)

lemma set_option_shards: "1 \<le> cfg_shards c \<Longrightarrow> set_option c a v = Inr c' \<Longrightarrow> 1 \<le> cfg_shards c'"
  by (simp split: if_split_asm) auto

lemma set_option_symbols:
  "set_option c a v = Inr c' \<Longrightarrow> cfg_symbols c' = cfg_symbols c \<or> cfg_symbols c' = map (map toupper) (split_csv v)"
  by (simp split: if_split_asm) auto

lemma config_ok_set_option:
  assumes "config_ok c" "set_option c a v = Inr c'"
  shows "config_ok c'"
proof -
  have "map toupper s \<noteq> [] \<and> CHR '','' \<notin> set (map toupper s)" if "s \<in> set (split_csv v)" for s
  proof -
    have "CHR '','' \<notin> set s" "s \<noteq> []" using split_csv_tokens [OF that] by blast+
    moreover have "c = CHR '',''" if "CHR '','' = toupper c" for c
      using that [symmetric] by (simp only: toupper_comma)
    ultimately show ?thesis unfolding set_map map_is_Nil_conv by blast
  qed
  then have "list_all (\<lambda>s. s \<noteq> [] \<and> map toupper s = s \<and> CHR '','' \<notin> set s) (map (map toupper) (split_csv v))"
    by (simp add: list_all_iff)
  then show ?thesis
    using assms(1) set_option_shards [OF _ assms(2)] set_option_symbols [OF assms(2)]
    by (auto simp: config_ok_def)
qed

lemma config_ok_args: "config_ok c \<Longrightarrow> config_ok (fst (args_loop args c))"
proof (induction args c rule: args_loop.induct)
  case (2 a args c)
  have flags: "config_ok (c\<lparr>cfg_integrate_trades := True\<rparr>)" "config_ok (c\<lparr>cfg_sync_writes := True\<rparr>)"
    using 2(4) by (simp_all add: config_ok_def)
  show ?case
  proof (cases "takes_value a")
    case True
    then show ?thesis
      using 2(1) 2(4) config_ok_set_option [OF 2(4), of a]
      by (cases args) (simp_all del: set_option.simps split: sum.split)
  next
    case False
    have "a = ''--integrate-trades'' \<Longrightarrow> ?thesis" "a = ''--sync-writes'' \<Longrightarrow> ?thesis"
      using False 2(2,3) flags by simp_all
    moreover have "a \<noteq> ''--integrate-trades'' \<Longrightarrow> a \<noteq> ''--sync-writes'' \<Longrightarrow> ?thesis"
      using False 2(4) by simp
    ultimately show ?thesis by blast
  qed
qed simp

text \<open>The names the program subscribes to, one per symbol and channel.\<close>

definition stream_name :: "string \<Rightarrow> StreamKind \<Rightarrow> string" where
  "stream_name symbol k = map tolower symbol @ channel k"

definition stream_names :: "string list \<Rightarrow> string list" where
  "stream_names symbols = concat (map (\<lambda>s. map (stream_name s) [DepthDiff, Depth5, Trade]) symbols)"

lemma length_stream_names: "length (stream_names symbols) = kStreamsPerSymbol * length symbols"
  by (induction symbols) (simp_all add: stream_names_def kStreamsPerSymbol_def)

text \<open>What acceptance means.\<close>

lemma from_args_accepted:
  assumes "from_args args = (c, [])" "cfg_replay_input c = []"
  shows "cfg_symbols c \<noteq> []" "distinct (cfg_symbols c)" "config_ok c"
    "(length (cfg_symbols c) + shard_count (cfg_symbols c) (cfg_shards c) - 1) div
       shard_count (cfg_symbols c) (cfg_shards c) * kStreamsPerSymbol \<le> kMaxCombinedStreams"
proof -
  obtain c0 err where a: "args_loop args new_Config = (c0, err)" by (cases "args_loop args new_Config")
  let ?c = "c0\<lparr>cfg_symbols := dedup (cfg_symbols c0)\<rparr>"
  let ?n = "length (cfg_symbols ?c)"
  let ?k = "min ?n (nat (cfg_shards ?c))"
  have c: "err = [] \<and> c = ?c \<and> ?n \<noteq> 0 \<and> (?n + ?k - 1) div ?k * kStreamsPerSymbol \<le> kMaxCombinedStreams"
    using assms unfolding from_args_def a Let_def
    by (auto simp: not_less split: if_split_asm)
  have ok: "config_ok c0"
    using config_ok_args [OF config_ok_new, of args] a by simp
  then show "config_ok c"
    using c by (simp add: config_ok_def list_all_iff)
  show ne: "cfg_symbols c \<noteq> []" "distinct (cfg_symbols c)"
    using c by auto
  have "shard_count (cfg_symbols c) (cfg_shards c) = ?k"
    using ne(1) ok c by (simp add: shard_count_def config_ok_def max_def)
  then show "(length (cfg_symbols c) + shard_count (cfg_symbols c) (cfg_shards c) - 1) div
       shard_count (cfg_symbols c) (cfg_shards c) * kStreamsPerSymbol \<le> kMaxCombinedStreams"
    using c by (simp only:)
qed

text \<open>
  C28: A command line that is accepted for live capture is safe to run.  The symbols are non-empty
  and free of duplicates, every symbol is owned by exactly one shard (the shards' symbols are
  distinct and together they are the configured ones), and no connection asks Binance for more
  than 1024 streams.
\<close>

theorem accepted_config_is_safe:
  assumes "from_args args = (c, [])" "cfg_replay_input c = []"
  shows "cfg_symbols c \<noteq> [] \<and>
    distinct (concat (shard_symbols (cfg_symbols c) (cfg_shards c))) \<and>
    set (concat (shard_symbols (cfg_symbols c) (cfg_shards c))) = set (cfg_symbols c) \<and>
    list_all (\<lambda>g. g \<noteq> [] \<and> length (stream_names g) \<le> 1024) (shard_symbols (cfg_symbols c) (cfg_shards c))"
proof -
  let ?shards = "shard_symbols (cfg_symbols c) (cfg_shards c)"
  note acc = from_args_accepted [OF assms]
  have "g \<noteq> [] \<and> length (stream_names g) \<le> 1024" if "g \<in> set ?shards" for g
  proof -
    have "length g * kStreamsPerSymbol \<le> kMaxCombinedStreams"
      using mult_le_mono1 [OF shard_size [OF that], of kStreamsPerSymbol] acc(4) by (rule order_trans)
    then show ?thesis
      using that shard_empty [of "cfg_symbols c" "cfg_shards c"] acc(1)
      by (auto simp: length_stream_names kMaxCombinedStreams_def mult.commute)
  qed
  moreover have "distinct (concat ?shards)" "set (concat ?shards) = set (cfg_symbols c)"
    using acc(2) shards_mset [of "cfg_symbols c" "cfg_shards c"]
    by (metis mset_eq_imp_distinct_iff) (metis mset_eq_setD shards_mset)
  ultimately show ?thesis
    using acc(1) by (simp only: list_all_iff) blast
qed

theorem accepted_config_is_safe_witness:
  "(let c = new_Config\<lparr>cfg_symbols := [''BTCUSDT'', ''ETHUSDT'', ''BNBUSDT''], cfg_shards := 2\<rparr>
    in cfg_symbols c \<noteq> [] \<and>
      distinct (concat (shard_symbols (cfg_symbols c) (cfg_shards c))) \<and>
      set (concat (shard_symbols (cfg_symbols c) (cfg_shards c))) = set (cfg_symbols c) \<and>
      list_all (\<lambda>g. g \<noteq> [] \<and> length (stream_names g) \<le> 1024) (shard_symbols (cfg_symbols c) (cfg_shards c)))"
  unfolding Let_def
proof (rule accepted_config_is_safe)
  show "from_args [''--symbols'', ''btcusdt,ETHUSDT,,btcUSDT,bnbusdt'', ''--shards'', ''2''] =
    (new_Config\<lparr>cfg_symbols := [''BTCUSDT'', ''ETHUSDT'', ''BNBUSDT''], cfg_shards := 2\<rparr>, [])"
    by code_simp
  show "cfg_replay_input (new_Config\<lparr>cfg_symbols := [''BTCUSDT'', ''ETHUSDT'', ''BNBUSDT''], cfg_shards := 2\<rparr>) = []"
    by code_simp
qed

section \<open>The stream query\<close>

lemma tolower_slash: "CHR ''/'' = tolower c \<Longrightarrow> c = CHR ''/''"
proof -
  assume "CHR ''/'' = tolower c"
  then have "(of_char (tolower c) :: nat) = of_char (CHR ''/'')" by (simp only:)
  then have "(of_char (tolower c) :: nat) = 47" by simp
  then have "(of_char c :: nat) = 47"
    by (auto simp: tolower_def Let_def of_char_of split: if_splits)
  then show ?thesis
    using of_char_eq_iff [of c "CHR ''/''", where 'a = nat] by simp
qed

lemma combined_rest:
  "0 < k \<Longrightarrow> foldl append_symbol out (enumerate k xs) =
     out @ concat (map ((#) (CHR ''/'')) (stream_names xs))"
  by (induction xs arbitrary: k out)
    (simp_all add: stream_names_def symbol_streams_def stream_name_def channel_def Let_def)

lemma combined_streams_eq:
  "cfg_symbols c = s # ss \<Longrightarrow> combined_streams c =
     stream_name s DepthDiff @ concat (map ((#) (CHR ''/'')) (tl (stream_names (s # ss))))"
  by (simp add: combined_streams_def combined_rest)
    (simp add: stream_names_def symbol_streams_def stream_name_def channel_def Let_def)

lemma stream_name_plain:
  assumes "CHR ''/'' \<notin> set s"
  shows "CHR ''/'' \<notin> set (stream_name s k) \<and> stream_name s k \<noteq> []"
proof -
  have "CHR ''/'' \<notin> set (map tolower s)"
    unfolding set_map using assms tolower_slash by blast
  then show ?thesis
    by (cases k) (simp_all add: stream_name_def channel_def)
qed

text \<open>
  The subscription names the right streams.  For symbols without a slash, the query that
  \<open>combined_streams\<close> builds, cut at its slashes, is exactly the list of the three stream names of
  every symbol, in the order of the symbols, and there are three names per symbol.
\<close>

theorem subscription_exact:
  assumes "list_all (\<lambda>s. CHR ''/'' \<notin> set s) (cfg_symbols c)"
  shows "getline_all (CHR ''/'') (combined_streams c) = stream_names (cfg_symbols c) \<and>
    length (stream_names (cfg_symbols c)) = 3 * length (cfg_symbols c)"
proof (cases "cfg_symbols c")
  case Nil
  then show ?thesis
    by (simp add: combined_streams_def stream_names_def getline_all_def)
next
  case (Cons s ss)
  have names: "stream_names (s # ss) = stream_name s DepthDiff # tl (stream_names (s # ss))"
    by (simp add: stream_names_def)
  have "list_all (\<lambda>l. CHR ''/'' \<notin> set l \<and> l \<noteq> []) (stream_names (s # ss))"
    using assms stream_name_plain unfolding Cons by (auto simp: stream_names_def list_all_iff)
  then show ?thesis
    using getline_all_separated [of "CHR ''/''" "stream_name s DepthDiff" "tl (stream_names (s # ss))"]
      combined_streams_eq [OF Cons] names Cons
    by (simp add: length_stream_names kStreamsPerSymbol_def)
qed

theorem subscription_exact_witness:
  "getline_all (CHR ''/'') (combined_streams (new_Config\<lparr>cfg_symbols := [''BTCUSDT'', ''ETHUSDT'']\<rparr>)) =
     [''btcusdt@depth@100ms'', ''btcusdt@depth5@100ms'', ''btcusdt@trade'',
      ''ethusdt@depth@100ms'', ''ethusdt@depth5@100ms'', ''ethusdt@trade'']"
proof -
  have "list_all (\<lambda>s. CHR ''/'' \<notin> set s) (cfg_symbols (new_Config\<lparr>cfg_symbols := [''BTCUSDT'', ''ETHUSDT'']\<rparr>))"
    by code_simp
  from subscription_exact [OF this, THEN conjunct1]
  have "getline_all (CHR ''/'') (combined_streams (new_Config\<lparr>cfg_symbols := [''BTCUSDT'', ''ETHUSDT'']\<rparr>)) =
      stream_names (cfg_symbols (new_Config\<lparr>cfg_symbols := [''BTCUSDT'', ''ETHUSDT'']\<rparr>))" .
  also have "\<dots> = [''btcusdt@depth@100ms'', ''btcusdt@depth5@100ms'', ''btcusdt@trade'',
      ''ethusdt@depth@100ms'', ''ethusdt@depth5@100ms'', ''ethusdt@trade'']"
    by code_simp
  finally show ?thesis .
qed

end
