(* ===== verification/Capture_Rows.thy ===== *)
theory Capture_Rows
  imports Book_Session Json_Min Csv_Text App_Config
begin

text \<open>
  What the live capture and the replay share: the counters of \<open>include/metrics.hpp\<close>, the instrument
  id, the order-book rows that both build from a book or from a depth5 message, and the rows of the
  two other files.  The writers are modelled by the list of the rows passed to them; \<open>Csv_Text\<close>
  gives the bytes of a row and \<open>Csv_Sink\<close> how they reach the file.
\<close>

unbundle bit_operations_syntax

section \<open>Counters\<close>

record Metrics =
  mx_msgs_total :: u64
  mx_msgs_depth_diff :: u64
  mx_msgs_depth5 :: u64
  mx_msgs_trade :: u64
  mx_parse_errors :: u64
  mx_gaps_detected :: u64
  mx_reconnects :: u64
  mx_resyncs :: u64
  mx_depth5_mismatch :: u64
  mx_buffer_overflows :: u64
  mx_md_rows_written :: u64
  mx_ob_rows_written :: u64

definition new_Metrics :: Metrics where
  "new_Metrics = \<lparr>mx_msgs_total = 0, mx_msgs_depth_diff = 0, mx_msgs_depth5 = 0, mx_msgs_trade = 0,
     mx_parse_errors = 0, mx_gaps_detected = 0, mx_reconnects = 0, mx_resyncs = 0, mx_depth5_mismatch = 0,
     mx_buffer_overflows = 0, mx_md_rows_written = 0, mx_ob_rows_written = 0\<rparr>"

definition metrics_dump :: "Metrics \<Rightarrow> string" where
  "metrics_dump m =
     ''msgs_total='' @ show_u64 (mx_msgs_total m) @ '' depth_diff='' @ show_u64 (mx_msgs_depth_diff m) @
     '' depth5='' @ show_u64 (mx_msgs_depth5 m) @ '' trade='' @ show_u64 (mx_msgs_trade m) @
     '' parse_errors='' @ show_u64 (mx_parse_errors m) @ '' gaps='' @ show_u64 (mx_gaps_detected m) @
     '' reconnects='' @ show_u64 (mx_reconnects m) @ '' resyncs='' @ show_u64 (mx_resyncs m) @
     '' depth5_mismatch='' @ show_u64 (mx_depth5_mismatch m) @
     '' buffer_overflows='' @ show_u64 (mx_buffer_overflows m) @ '' md_rows='' @ show_u64 (mx_md_rows_written m) @
     '' ob_rows='' @ show_u64 (mx_ob_rows_written m) @ [CHR 0x0A]"

section \<open>Instrument ids\<close>

definition derive_id :: "string \<Rightarrow> i32" where
  "derive_id s =
     sint (foldl (\<lambda>h c. (h XOR of_nat (of_char c)) * 16777619) (2166136261 :: u32) s AND 0x7fffffff)"

section \<open>Order-book rows\<close>

text \<open>The row for the state of a book, as after an applied diff or at a trade.\<close>

definition book_row :: "Timestamp \<Rightarrow> u64 \<Rightarrow> char \<Rightarrow> OrderBook \<Rightarrow> ObRow" where
  "book_row ts n type_char book =
     fill_top5 book (empty_row\<lparr>row_ts := ts, row_seqNo := n, row_type := type_char, row_side := CHR ''N''\<rparr>)"

text \<open>The row of a depth5 message, filled level by level.\<close>

fun fill_bid :: "Level list \<Rightarrow> ObRow \<Rightarrow> nat \<Rightarrow> ObRow" where
  "fill_bid ls row i = row\<lparr>row_bid := (row_bid row)[i := price (ls ! i)], row_bid_size := (row_bid_size row)[i := qty (ls ! i)]\<rparr>"

fun fill_ask :: "Level list \<Rightarrow> ObRow \<Rightarrow> nat \<Rightarrow> ObRow" where
  "fill_ask ls row i = row\<lparr>row_ask := (row_ask row)[i := price (ls ! i)], row_ask_size := (row_ask_size row)[i := qty (ls ! i)]\<rparr>"

definition depth5_row :: "Timestamp \<Rightarrow> u64 \<Rightarrow> i32 \<Rightarrow> DepthEvent \<Rightarrow> ObRow" where
  "depth5_row ts n i ev =
     (let row0 = empty_row\<lparr>row_ts := ts, row_seqNo := n, row_id := i, row_type := CHR ''S'', row_side := CHR ''N''\<rparr>;
          row1 = foldl (fill_bid (ev_bids ev)) row0 [0..<min (length (ev_bids ev)) 5]
      in foldl (fill_ask (ev_asks ev)) row1 [0..<min (length (ev_asks ev)) 5])"

text \<open>The cross-check of a depth5 message against the book.\<close>

definition depth5_disagrees :: "OrderBook \<Rightarrow> DepthEvent \<Rightarrow> bool" where
  "depth5_disagrees book ev \<longleftrightarrow>
     ev_bids ev \<noteq> [] \<and> row_bid (fill_top5 book empty_row) ! 0 \<noteq> price (ev_bids ev ! 0)"

text \<open>The callback of \<open>on_snapshot\<close>: a numbered row for every replayed diff.\<close>

fun emit_replayed :: "u64 \<times> ObRow list \<times> Metrics \<Rightarrow> DepthEvent \<times> OrderBook \<Rightarrow> u64 \<times> ObRow list \<times> Metrics" where
  "emit_replayed (n, rows, m) (ev, book) =
     (n + 1, rows @ [book_row (ev_applied_time ev) (n + 1) (CHR ''D'') book],
      m\<lparr>mx_ob_rows_written := mx_ob_rows_written m + 1\<rparr>)"

section \<open>Rows of the other files\<close>

record MdRow =
  md_recv :: Timestamp
  md_venue :: Venue
  md_kind :: StreamKind
  md_shard :: i32
  md_epoch :: u64
  md_seq :: u64
  md_symbol :: string
  md_payload :: string

record SnapRow =
  sn_time :: Timestamp
  sn_symbol :: string
  sn_last_update_id :: u64
  sn_raw :: string

text \<open>The files: a header line, then what \<open>write_row\<close> produced for every row.\<close>

definition md_row_text :: "MdRow \<Rightarrow> string option" where
  "md_row_text r = md_row (md_recv r) (md_venue r) (md_kind r) (md_shard r) (md_epoch r) (md_seq r) (md_symbol r) (md_payload r)"

definition snap_row_text :: "SnapRow \<Rightarrow> string option" where
  "snap_row_text r = snap_row (sn_time r) (sn_symbol r) (sn_last_update_id r) (sn_raw r)"

section \<open>Properties of rows\<close>

lemma derive_id_range: "0 \<le> derive_id s \<and> derive_id s < 2 ^ 31"
proof -
  define h :: u32 where "h = foldl (\<lambda>h c. (h XOR of_nat (of_char c)) * 16777619) 2166136261 s AND 0x7fffffff"
  have "h = take_bit 31 h"
    by (simp add: h_def take_bit_eq_mask mask_eq_exp_minus_1 and.assoc)
  then have u: "uint h < 2 ^ 31"
    by (metis take_bit_int_less_exp unsigned_take_bit_eq)
  have "0 \<le> uint h" by simp
  then have "signed_take_bit 31 (uint h) = uint h"
    using u by (intro signed_take_bit_int_eq_self) linarith+
  then have "sint h = uint h"
    by (simp add: sint_uint)
  with u show ?thesis
    by (simp add: derive_id_def h_def [symmetric])
qed

lemma zeros5: "[0,0,0,0,0] = replicate 5 (0::int)"
  by (simp add: numeral_eq_Suc)

text \<open>A row of zeros with its labels.\<close>

definition labelled :: "Timestamp \<Rightarrow> u64 \<Rightarrow> i32 \<Rightarrow> char \<Rightarrow> ObRow" where
  "labelled ts n i c = empty_row\<lparr>row_ts := ts, row_seqNo := n, row_id := i, row_type := c, row_side := CHR ''N''\<rparr>"

definition show_levels :: "Level list \<Rightarrow> Level list \<Rightarrow> ObRow \<Rightarrow> ObRow" where
  "show_levels bs as row = row\<lparr>row_bid := pad5 (map price bs), row_bid_size := pad5 (map qty bs),
     row_ask := pad5 (map price as), row_ask_size := pad5 (map qty as)\<rparr>"

lemma labelled_zero:
  "row_bid (labelled ts n i c) = replicate 5 0" "row_bid_size (labelled ts n i c) = replicate 5 0"
  "row_ask (labelled ts n i c) = replicate 5 0" "row_ask_size (labelled ts n i c) = replicate 5 0"
  by (simp_all add: labelled_def empty_row_def zeros5)

lemma book_row_best:
  assumes "book_inv ob"
  shows "\<exists>bs as. top_levels better_bid 5 (sb_bids (abs_book ob)) bs \<and>
      top_levels better_ask 5 (sb_asks (abs_book ob)) as \<and>
      book_row ts n c ob = show_levels bs as (labelled ts n (ob_id ob) c)"
proof -
  from assms obtain xs ys where
    bid: "ob_bid_cache ob = mk_cache xs" "take 5 xs = take 5 (sorted_side better_bid (ob_bids ob))"
      "distinct (map fst (ob_bids ob))" and
    ask: "ob_ask_cache ob = mk_cache ys" "take 5 ys = take 5 (sorted_side better_ask (ob_asks ob))"
      "distinct (map fst (ob_asks ob))"
    unfolding book_inv_def by (elim conjE side_invE) blast
  have top: "top_levels better_bid 5 (sb_bids (abs_book ob)) (take 5 xs)"
    "top_levels better_ask 5 (sb_asks (abs_book ob)) (take 5 ys)"
    using bid.sorted_side_top_levels [OF bid(3), of 5] ask.sorted_side_top_levels [OF ask(3), of 5]
    by (simp_all add: abs_book_def bid(2) ask(2))
  have "row_shape (labelled ts n (ob_id ob) c)"
    by (simp add: row_shape_def labelled_zero)
  from fill_top5_upto [OF bid(1) ask(1) this order_refl]
  have "fold (fill_top5_at ob) [0..<5] (labelled ts n (ob_id ob) c) =
      show_levels (take 5 xs) (take 5 ys) (labelled ts n (ob_id ob) c)"
    unfolding show_levels_def labelled_zero pad5_def by (simp add: min_def)
  moreover have "(empty_row\<lparr>row_ts := ts, row_seqNo := n, row_type := c, row_side := CHR ''N''\<rparr>)\<lparr>row_id := ob_id ob\<rparr> =
      labelled ts n (ob_id ob) c"
    by (simp add: labelled_def empty_row_def)
  ultimately have "book_row ts n c ob = show_levels (take 5 xs) (take 5 ys) (labelled ts n (ob_id ob) c)"
    by (simp add: book_row_def fill_top5_def)
  with top show ?thesis by blast
qed

lemma book_row_type: "row_type (book_row ts n c ob) = c"
proof -
  have "row_type (fold (fill_top5_at ob) is row) = row_type row" for "is" row
    by (induction "is" arbitrary: row) (simp_all add: fill_top5_at_def Let_def)
  then show ?thesis
    by (simp add: book_row_def fill_top5_def)
qed

lemma fill_prefix:
  assumes "length rs = 5" "n \<le> length ls" "n \<le> 5"
  shows "foldl (\<lambda>rs i. rs[i := f (ls ! i)]) rs [0..<n] = map f (take n ls) @ drop n rs"
  using assms(2,3)
proof (induction n)
  case (Suc n)
  then show ?case
    using update_prefix [of n ls rs f] assms(1) by simp
qed simp

lemma fill_bid_fold:
  "foldl (fill_bid ls) row is = row\<lparr>row_bid := foldl (\<lambda>rs i. rs[i := price (ls ! i)]) (row_bid row) is,
     row_bid_size := foldl (\<lambda>rs i. rs[i := qty (ls ! i)]) (row_bid_size row) is\<rparr>"
  by (induction "is" arbitrary: row) simp_all

lemma fill_ask_fold:
  "foldl (fill_ask ls) row is = row\<lparr>row_ask := foldl (\<lambda>rs i. rs[i := price (ls ! i)]) (row_ask row) is,
     row_ask_size := foldl (\<lambda>rs i. rs[i := qty (ls ! i)]) (row_ask_size row) is\<rparr>"
  by (induction "is" arbitrary: row) simp_all

lemma fill_zeros:
  "foldl (\<lambda>rs i. rs[i := f (ls ! i)]) (replicate 5 (0::int)) [0..<min (length ls) 5] = pad5 (map f (take 5 ls))"
  using fill_prefix [of "replicate 5 0" "min (length ls) 5" ls f]
  by (simp add: pad5_def min_def split: if_splits)

lemma depth5_row_eq: "depth5_row ts n i ev = show_levels (take 5 (ev_bids ev)) (take 5 (ev_asks ev)) (labelled ts n i (CHR ''S''))"
proof -
  have row0: "empty_row\<lparr>row_ts := ts, row_seqNo := n, row_id := i, row_type := CHR ''S'', row_side := CHR ''N''\<rparr> =
      labelled ts n i (CHR ''S'')"
    by (simp add: labelled_def)
  show ?thesis
    unfolding depth5_row_def Let_def row0
    by (simp add: fill_bid_fold fill_ask_fold labelled_zero fill_zeros show_levels_def)
qed

section \<open>Numbered rows\<close>

text \<open>
  The rows of one order-book file: numbered from one without gaps, all with the instrument's id,
  with a side letter \<open>N\<close>, a known type letter and five entries per column group.
\<close>

definition good_row :: "i32 \<Rightarrow> ObRow \<Rightarrow> bool" where
  "good_row i r \<longleftrightarrow> row_id r = i \<and> row_side r = CHR ''N'' \<and>
     row_type r \<in> {CHR ''D'', CHR ''S'', CHR ''T''} \<and> row_shape r"

definition numbered :: "i32 \<Rightarrow> u64 \<Rightarrow> ObRow list \<Rightarrow> bool" where
  "numbered i n rows \<longleftrightarrow> n = of_nat (length rows) \<and>
     map row_seqNo rows = map (\<lambda>k. of_nat (k + 1)) [0..<length rows] \<and> list_all (good_row i) rows"

lemma numbered_Nil [simp]: "numbered i 0 []"
  by (simp add: numbered_def)

lemma numbered_snoc:
  "numbered i n rows \<Longrightarrow> good_row i r \<Longrightarrow> row_seqNo r = n + 1 \<Longrightarrow> numbered i (n + 1) (rows @ [r])"
  by (simp add: numbered_def)

lemma length_pad5: "length xs \<le> 5 \<Longrightarrow> length (pad5 xs) = 5"
  by (simp add: pad5_def)

lemma good_show_levels:
  assumes "length bs \<le> 5" "length as \<le> 5" "c \<in> {CHR ''D'', CHR ''S'', CHR ''T''}"
  shows "good_row i (show_levels bs as (labelled ts n i c)) \<and> row_seqNo (show_levels bs as (labelled ts n i c)) = n"
  using assms by (auto simp: good_row_def show_levels_def labelled_def row_shape_def length_pad5)

lemma good_depth5_row: "good_row i (depth5_row ts n i ev) \<and> row_seqNo (depth5_row ts n i ev) = n"
  unfolding depth5_row_eq by (rule good_show_levels) simp_all

lemma good_book_row:
  assumes "book_inv ob" "c \<in> {CHR ''D'', CHR ''T''}"
  shows "good_row (ob_id ob) (book_row ts n c ob) \<and> row_seqNo (book_row ts n c ob) = n"
proof -
  obtain bs as where top: "top_levels better_bid 5 (sb_bids (abs_book ob)) bs"
      "top_levels better_ask 5 (sb_asks (abs_book ob)) as"
      and row: "book_row ts n c ob = show_levels bs as (labelled ts n (ob_id ob) c)"
    using book_row_best [OF assms(1)] by blast
  have "length bs \<le> 5" "length as \<le> 5"
    using top by (auto simp: top_levels_def)
  then show ?thesis
    unfolding row using assms(2) by (intro good_show_levels) auto
qed

text \<open>Replayed diffs continue the numbering.\<close>

definition books_of :: "i32 \<Rightarrow> (DepthEvent \<times> OrderBook) list \<Rightarrow> bool" where
  "books_of i calls \<longleftrightarrow> list_all (\<lambda>(ev, ob). ob_id ob = i \<and> book_inv ob) calls"

lemma emit_replayed_numbered:
  assumes "numbered i n rows" "books_of i calls" "foldl emit_replayed (n, rows, m) calls = (n', rows', m')"
  shows "numbered i n' rows' \<and> length rows' = length rows + length calls \<and>
    m' = m\<lparr>mx_ob_rows_written := mx_ob_rows_written m + of_nat (length calls)\<rparr>"
  using assms
proof (induction calls arbitrary: n rows m)
  case (Cons c calls)
  obtain ev ob where c: "c = (ev, ob)" by (cases c)
  let ?row = "book_row (ev_applied_time ev) (n + 1) (CHR ''D'') ob"
  have "good_row i ?row" "row_seqNo ?row = n + 1"
    using good_book_row [of ob "CHR ''D''" "ev_applied_time ev" "n + 1"] Cons.prems(2) by (simp_all add: c books_of_def)
  then have "numbered i (n + 1) (rows @ [?row])"
    using numbered_snoc Cons.prems(1) by blast
  from Cons.IH [OF this, of "m\<lparr>mx_ob_rows_written := mx_ob_rows_written m + 1\<rparr>"] Cons.prems(2,3) show ?case
    by (simp add: c books_of_def add.commute add.left_commute)
qed simp

lemma ob_id_applied [simp]: "ob_id (applied_book ob ev) = ob_id ob"
  by (simp add: applied_book_def)

lemma replay_books:
  "book_inv (bs_ob s) \<Longrightarrow> ob_id (bs_ob s) = i \<Longrightarrow>
   books_of i (snd (replay s evs)) \<and> ob_id (bs_ob (fst (replay s evs))) = i"
  by (induction s evs rule: replay.induct) (auto simp: Let_def split_beta books_of_def)

lemma on_snapshot_books:
  assumes "session_inv s" "ob_id (bs_ob s) = i" "on_snapshot s bids asks sid = (s', n, calls)"
  shows "books_of i calls \<and> ob_id (bs_ob s') = i \<and> session_inv s' \<and> bs_venue s' = bs_venue s"
proof -
  have "book_inv (bs_ob (seeded s bids asks sid))" "ob_id (bs_ob (seeded s bids asks sid)) = i"
    using assms(1,2) by (simp_all add: session_inv_def book_inv_set_snapshot)
  from replay_books [OF this, of "bs_buffer s"]
  have "books_of i calls" "ob_id (bs_ob s') = i" "bs_venue s' = bs_venue s"
    using assms(3) unfolding on_snapshot_eq by (auto simp: Let_def split_beta)
  then show ?thesis
    using session_inv_on_snapshot [OF assms(1), of bids asks sid] assms(3) by simp
qed

lemma on_diff_book:
  assumes "session_inv s" "ob_id (bs_ob s) = i" "on_diff s ev = (s', o')"
  shows "session_inv s' \<and> ob_id (bs_ob s') = i \<and> bs_venue s' = bs_venue s"
  using session_inv_on_diff [OF assms(1), of ev] assms(2,3)
  by (auto simp: on_diff_def apply_one_eq buffer_event_def Let_def split: if_splits)

end
