(* ===== verification/Snapshot_Fetch.thy ===== *)
theory Snapshot_Fetch
  imports Json_Min
begin

text \<open>
  The REST snapshot (\<open>include/snapshot.hpp\<close>, \<open>src/snapshot_beast.cpp\<close>, \<open>src/snapshot_stub.cpp\<close>).

  The libraries (Boost.Beast, OpenSSL) are a parameter: a function from host and path to the
  behaviour of one HTTPS exchange, that is how each asynchronous operation completes, what the
  response is and whether an exception is thrown.  The chain of callbacks and the decisions on its
  result are the code's.
\<close>

section \<open>The exchange\<close>

text \<open>The end of an asynchronous operation: its callback without an error, with one, or not at all
  before \<open>ioc.run()\<close> returns.\<close>

datatype IoResult = IoDone | IoError string | IoPending

record HttpExchange =
  hx_throws :: "string option"
  hx_sni_ok :: bool
  hx_resolve :: IoResult
  hx_connect :: IoResult
  hx_handshake :: IoResult
  hx_write :: IoResult
  hx_read :: IoResult
  hx_status :: nat
  hx_body :: string

definition snapshot_host :: "Venue \<Rightarrow> string" where
  "snapshot_host venue = (if venue = Spot then ''api.binance.com'' else ''fapi.binance.com'')"

definition snapshot_path :: "Venue \<Rightarrow> string \<Rightarrow> i32 \<Rightarrow> string" where
  "snapshot_path venue symbol limit =
     (if venue = Spot then ''/api/v3/depth?symbol='' @ symbol @ ''&limit='' @ show_int limit
      else ''/fapi/v1/depth?symbol='' @ symbol @ ''&limit='' @ show_int limit)"

text \<open>
  The chain: every callback starts the next operation or records its error; the last one, of the
  read, records its error code and that the chain was completed.  The result is \<open>final_ec\<close> and
  \<open>completed\<close>.
\<close>

fun io_chain :: "IoResult list \<Rightarrow> string option \<times> bool" where
  "io_chain [] = (None, False)"
| "io_chain [r] = (case r of IoDone \<Rightarrow> (None, True) | IoError ec \<Rightarrow> (Some ec, True) | IoPending \<Rightarrow> (None, False))"
| "io_chain (r # rs) = (case r of IoDone \<Rightarrow> io_chain rs | IoError ec \<Rightarrow> (Some ec, False) | IoPending \<Rightarrow> (None, False))"

definition run_exchange :: "HttpExchange \<Rightarrow> string option \<times> bool" where
  "run_exchange x = io_chain [hx_resolve x, hx_connect x, hx_handshake x, hx_write x, hx_read x]"

section \<open>The fetch\<close>

text \<open>The result: success, the event, the error text and the raw body.\<close>

definition fetch_depth_snapshot ::
  "(string \<Rightarrow> string \<Rightarrow> HttpExchange) \<Rightarrow> Venue \<Rightarrow> string \<Rightarrow> i32 \<Rightarrow> DepthEvent \<Rightarrow> string \<Rightarrow> string
   \<Rightarrow> bool \<times> DepthEvent \<times> string \<times> string" where
  "fetch_depth_snapshot http venue symbol limit out err raw_json =
     (let x = http (snapshot_host venue) (snapshot_path venue symbol limit)
      in case hx_throws x of
           Some what \<Rightarrow> (False, out, what, raw_json)
         | None \<Rightarrow>
             if \<not> hx_sni_ok x then (False, out, ''SNI failed'', raw_json)
             else case run_exchange x of
               (Some ec, completed) \<Rightarrow> (False, out, ec, raw_json)
             | (None, False) \<Rightarrow> (False, out, ''incomplete'', raw_json)
             | (None, True) \<Rightarrow>
                 if hx_status x \<noteq> 200 then (False, out, ''HTTP '' @ show_nat (hx_status x), raw_json)
                 else case parse_depth (hx_body x) new_DepthEvent of (ok, ev) \<Rightarrow> (ok, ev, err, hx_body x))"

definition fetch_depth_snapshot_stub ::
  "Venue \<Rightarrow> string \<Rightarrow> i32 \<Rightarrow> DepthEvent \<Rightarrow> string \<Rightarrow> string \<Rightarrow> bool \<times> DepthEvent \<times> string \<times> string" where
  "fetch_depth_snapshot_stub venue symbol limit out err raw_json =
     (False, out, ''REST snapshot unavailable (built without ENABLE_LIVE)'', raw_json)"

section \<open>When it succeeds\<close>

text \<open>A complete answer with status 200.\<close>

definition answered :: "HttpExchange \<Rightarrow> bool" where
  "answered x \<longleftrightarrow> hx_throws x = None \<and> hx_sni_ok x \<and>
     [hx_resolve x, hx_connect x, hx_handshake x, hx_write x, hx_read x] = replicate 5 IoDone \<and> hx_status x = 200"

lemma run_exchange_done:
  "run_exchange x = (None, True) \<longleftrightarrow>
     [hx_resolve x, hx_connect x, hx_handshake x, hx_write x, hx_read x] = replicate 5 IoDone"
  by (auto simp: run_exchange_def numeral_eq_Suc split: IoResult.splits)

lemma fetch_answered:
  "answered (http (snapshot_host venue) (snapshot_path venue symbol limit)) \<Longrightarrow>
   fetch_depth_snapshot http venue symbol limit out err raw_json =
     (case parse_depth (hx_body (http (snapshot_host venue) (snapshot_path venue symbol limit))) new_DepthEvent of
        (ok, ev) \<Rightarrow> (ok, ev, err, hx_body (http (snapshot_host venue) (snapshot_path venue symbol limit))))"
  by (simp add: fetch_depth_snapshot_def answered_def run_exchange_done [symmetric] Let_def)

lemma fetch_not_answered:
  assumes "\<not> answered (http (snapshot_host venue) (snapshot_path venue symbol limit))"
  shows "\<exists>msg. fetch_depth_snapshot http venue symbol limit out err raw_json = (False, out, msg, raw_json)"
proof -
  let ?x = "http (snapshot_host venue) (snapshot_path venue symbol limit)"
  obtain ec completed where r: "run_exchange ?x = (ec, completed)" by (cases "run_exchange ?x")
  have "hx_throws ?x \<noteq> None \<or> \<not> hx_sni_ok ?x \<or> ec \<noteq> None \<or> \<not> completed \<or> hx_status ?x \<noteq> 200"
    using assms r run_exchange_done [of ?x] by (auto simp: answered_def)
  then show ?thesis
    by (auto simp: fetch_depth_snapshot_def r Let_def split: option.split bool.split)
qed

lemma fetch_ok_iff:
  "fetch_depth_snapshot http venue symbol limit out err raw_json = (True, ev, err', raw) \<longleftrightarrow>
     answered (http (snapshot_host venue) (snapshot_path venue symbol limit)) \<and>
     raw = hx_body (http (snapshot_host venue) (snapshot_path venue symbol limit)) \<and>
     parse_depth raw new_DepthEvent = (True, ev) \<and> err' = err"
proof (cases "answered (http (snapshot_host venue) (snapshot_path venue symbol limit))")
  case True
  then show ?thesis by (auto simp: fetch_answered split: prod.splits)
next
  case False
  from fetch_not_answered [of http venue symbol limit out err raw_json] False show ?thesis by auto
qed

text \<open>
  C31: A snapshot is used only when it was received completely.  The fetch reports success exactly when
  no exception was thrown, the five network operations all completed without an error, the status is
  200 and the body parses; it then returns the parsed body.  When the answer is not complete, the
  event and the raw text of the caller stay untouched.
\<close>

theorem snapshot_fetch_exact:
  "let x = http (snapshot_host venue) (snapshot_path venue symbol limit);
       (ok, ev, err', raw) = fetch_depth_snapshot http venue symbol limit out err raw_json
   in (ok \<longleftrightarrow> answered x \<and> fst (parse_depth (hx_body x) new_DepthEvent)) \<and>
      (if answered x then ev = snd (parse_depth (hx_body x) new_DepthEvent) \<and> raw = hx_body x
       else ev = out \<and> raw = raw_json)"
proof (cases "answered (http (snapshot_host venue) (snapshot_path venue symbol limit))")
  case True
  then show ?thesis by (simp add: fetch_answered Let_def split: prod.split)
next
  case False
  from fetch_not_answered [of http venue symbol limit out err raw_json] False show ?thesis by auto
qed

text \<open>Two exchanges for examples.\<close>

definition answer_with :: "string \<Rightarrow> HttpExchange" where
  "answer_with body = \<lparr>hx_throws = None, hx_sni_ok = True, hx_resolve = IoDone, hx_connect = IoDone,
     hx_handshake = IoDone, hx_write = IoDone, hx_read = IoDone, hx_status = 200, hx_body = body\<rparr>"

definition no_route :: HttpExchange where
  "no_route = (answer_with [])\<lparr>hx_connect := IoError ''no route''\<rparr>"

lemma answer_with_sel [simp]: "answered (answer_with body)" "hx_body (answer_with body) = body" "\<not> answered no_route"
  by (simp_all add: answered_def answer_with_def no_route_def numeral_eq_Suc)

end
