(* ===== verification/Live_Shard.thy ===== *)
theory Live_Shard
  imports Capture_Rows Snapshot_Fetch "HOL-Library.Signed_Division"
begin

text \<open>
  One shard of the live capture (\<open>run_shard\<close> of \<open>src/main.cpp\<close>): the message handler with its
  timestamping, the audit row of every message, the epoch check, the book session of the symbol,
  the resynchronisation and the order-book rows.

  Inputs from outside come with every message: the clock readings and the HTTPS exchange.  The
  writers are lists of rows; a shard has one market-data file, one snapshot sidecar and one
  order-book file per symbol.
\<close>

section \<open>State\<close>

record SymState =
  ss_sess :: BookSession
  ss_rows :: "ObRow list"
  ss_scratch :: DepthEvent
  ss_seq :: u64
  ss_last_epoch :: u64

record Shard =
  sh_md :: "MdRow list"
  sh_snaps :: "SnapRow list"
  sh_syms :: "(string \<times> SymState) list"
  sh_metrics :: Metrics

record Env =
  env_now :: Timestamp
  env_snap_now :: Timestamp
  env_http :: "string \<Rightarrow> string \<Rightarrow> HttpExchange"

definition UINT64_MAX :: u64 where
  "UINT64_MAX = - 1"

definition new_SymState :: "Venue \<Rightarrow> string \<Rightarrow> SymState" where
  "new_SymState venue s = \<lparr>ss_sess = new_BookSession (derive_id s) venue, ss_rows = [],
     ss_scratch = new_DepthEvent, ss_seq = 0, ss_last_epoch = UINT64_MAX\<rparr>"

text \<open>The shard after its files are opened.\<close>

definition new_Shard :: "Config \<Rightarrow> string list \<Rightarrow> Metrics \<Rightarrow> Shard" where
  "new_Shard cfg syms m = \<lparr>sh_md = [], sh_snaps = [],
     sh_syms = map (\<lambda>s. (s, new_SymState (cfg_venue cfg) s)) syms, sh_metrics = m\<rparr>"

section \<open>Operations\<close>

definition ms_to_ts :: "i64 \<Rightarrow> Timestamp" where
  "ms_to_ts ms = \<lparr>tsec = ms sdiv 1000, tnsec = (ms smod 1000) * 1000000\<rparr>"

text \<open>The symbol of a stream name: the part before the first \<open>@\<close>, in upper case.\<close>

definition stream_symbol :: "string \<Rightarrow> string" where
  "stream_symbol stream = map toupper (takeWhile (\<lambda>c. c \<noteq> CHR ''@'') stream)"

definition resync ::
  "Config \<Rightarrow> Env \<Rightarrow> SymState \<Rightarrow> string \<Rightarrow> Metrics \<Rightarrow> SnapRow list \<Rightarrow> SymState \<times> Metrics \<times> SnapRow list" where
  "resync cfg env st symbol m snaps =
     (let limit = (if cfg_venue cfg = Spot then 5000 else 1000)
      in case fetch_depth_snapshot (env_http env) (cfg_venue cfg) symbol limit new_DepthEvent [] [] of
        (ok, snap, serr, raw) \<Rightarrow>
          if \<not> ok then (st, m, snaps)
          else case on_snapshot (ss_sess st) (ev_bids snap) (ev_asks snap) (ev_lastUpdateId snap) of
            (sess, applied, calls) \<Rightarrow>
              (case foldl emit_replayed (ss_seq st, ss_rows st, m) calls of
                 (n, rows, m1) \<Rightarrow>
                   (st\<lparr>ss_sess := sess, ss_seq := n, ss_rows := rows\<rparr>,
                    m1\<lparr>mx_resyncs := mx_resyncs m1 + 1\<rparr>,
                    snaps @ [\<lparr>sn_time = env_snap_now env, sn_symbol = symbol,
                      sn_last_update_id = ev_lastUpdateId snap, sn_raw = raw\<rparr>])))"

text \<open>A reconnect invalidates the book before the first event of the new connection.\<close>

definition check_epoch :: "SymState \<Rightarrow> u64 \<Rightarrow> SymState" where
  "check_epoch st conn_epoch =
     (if ss_last_epoch st \<noteq> conn_epoch
      then (if ss_last_epoch st \<noteq> UINT64_MAX then st\<lparr>ss_sess := request_resync (ss_sess st)\<rparr> else st)
             \<lparr>ss_last_epoch := conn_epoch\<rparr>
      else st)"

text \<open>A row from the diff book, unless it is unseeded or waits for a snapshot.\<close>

definition emit_book_row :: "Timestamp \<Rightarrow> char \<Rightarrow> SymState \<Rightarrow> Metrics \<Rightarrow> SymState \<times> Metrics" where
  "emit_book_row ts type_char st m =
     (if \<not> ob_initialized (bs_ob (ss_sess st)) \<or> bs_resync_pending (ss_sess st) then (st, m)
      else (st\<lparr>ss_seq := ss_seq st + 1,
              ss_rows := ss_rows st @ [book_row ts (ss_seq st + 1) type_char (bs_ob (ss_sess st))]\<rparr>,
            m\<lparr>mx_ob_rows_written := mx_ob_rows_written m + 1\<rparr>))"

text \<open>The part of the handler that follows the audit row, for a known symbol and a parsed payload.\<close>

definition handle_kind ::
  "Config \<Rightarrow> Env \<Rightarrow> StreamKind \<Rightarrow> Timestamp \<Rightarrow> string \<Rightarrow> SymState \<Rightarrow> Metrics \<Rightarrow> SnapRow list
   \<Rightarrow> SymState \<times> Metrics \<times> SnapRow list" where
  "handle_kind cfg env kind ts symbol st m snaps =
     (case kind of
        DepthDiff \<Rightarrow>
          let m1 = m\<lparr>mx_msgs_depth_diff := mx_msgs_depth_diff m + 1\<rparr>
          in (case on_diff (ss_sess st) (ss_scratch st) of
                (sess, o') \<Rightarrow>
                  let st1 = st\<lparr>ss_sess := sess\<rparr>
                  in if o' = OutApplied then
                       (case emit_book_row ts (CHR ''D'') st1 m1 of (st2, m2) \<Rightarrow> (st2, m2, snaps))
                     else if o' = OutResyncNeeded \<or> o' = OutBuffered \<and> bs_resync_pending sess then
                       resync cfg env st1 symbol
                         (if o' = OutResyncNeeded then m1\<lparr>mx_gaps_detected := mx_gaps_detected m1 + 1\<rparr> else m1) snaps
                     else (st1, m1, snaps))
      | Depth5 \<Rightarrow>
          let m1 = m\<lparr>mx_msgs_depth5 := mx_msgs_depth5 m + 1\<rparr>;
              ob = bs_ob (ss_sess st);
              m2 = (if ob_initialized ob \<and> depth5_disagrees ob (ss_scratch st)
                    then m1\<lparr>mx_depth5_mismatch := mx_depth5_mismatch m1 + 1\<rparr> else m1)
          in (st\<lparr>ss_seq := ss_seq st + 1,
                ss_rows := ss_rows st @ [depth5_row ts (ss_seq st + 1) (ob_id ob) (ss_scratch st)]\<rparr>,
              m2\<lparr>mx_ob_rows_written := mx_ob_rows_written m2 + 1\<rparr>, snaps)
      | Trade \<Rightarrow>
          let m1 = m\<lparr>mx_msgs_trade := mx_msgs_trade m + 1\<rparr>
          in if cfg_integrate_trades cfg then
               (case emit_book_row ts (CHR ''T'') st m1 of (st2, m2) \<Rightarrow> (st2, m2, snaps))
             else (st, m1, snaps))"

text \<open>
  The timestamp of a message, and for depth messages of a known symbol the parsed event: the
  result has the timestamp, the scratch event (if used) and whether parsing failed.
\<close>

definition stamp_message ::
  "Config \<Rightarrow> Timestamp \<Rightarrow> StreamKind \<Rightarrow> SymState option \<Rightarrow> string \<Rightarrow> Timestamp \<times> DepthEvent option \<times> bool" where
  "stamp_message cfg recv kind stp data =
     (case stp of
        Some st \<Rightarrow>
          if kind = DepthDiff \<or> kind = Depth5 then
            (case parse_depth data (reset_depth_event (ss_scratch st)) of
               (ok, ev) \<Rightarrow>
                 let ts = (if ok \<and> cfg_time_policy cfg = BinanceEventTime \<and> ev_event_time_ms ev > 0
                           then ms_to_ts (ev_event_time_ms ev) else recv)
                 in (ts, Some (ev\<lparr>ev_applied_time := ts\<rparr>), \<not> ok))
          else (if cfg_time_policy cfg = BinanceEventTime \<and> event_time_ms data > 0
                then ms_to_ts (event_time_ms data) else recv, None, False)
      | None \<Rightarrow>
          (if cfg_time_policy cfg = BinanceEventTime \<and> event_time_ms data > 0
           then ms_to_ts (event_time_ms data) else recv, None, False))"

definition handler :: "Config \<Rightarrow> i32 \<Rightarrow> Env \<Rightarrow> Shard \<Rightarrow> string \<Rightarrow> u64 \<Rightarrow> u64 \<Rightarrow> Shard" where
  "handler cfg shard_id env sh frame conn_epoch conn_seq =
     (case split_envelope frame [] [] of
        (ok, stream, data) \<Rightarrow>
          if \<not> ok then sh\<lparr>sh_metrics := (sh_metrics sh)\<lparr>mx_parse_errors := mx_parse_errors (sh_metrics sh) + 1\<rparr>\<rparr>
          else
            let symbol = stream_symbol stream;
                kind = classify_stream stream;
                stp = map_of (sh_syms sh) symbol
            in case stamp_message cfg (env_now env) kind stp data of
                 (ts, parsed, failed) \<Rightarrow>
                   let m0 = (if failed then (sh_metrics sh)\<lparr>mx_parse_errors := mx_parse_errors (sh_metrics sh) + 1\<rparr>
                             else sh_metrics sh);
                       m1 = m0\<lparr>mx_md_rows_written := mx_md_rows_written m0 + 1, mx_msgs_total := mx_msgs_total m0 + 1\<rparr>;
                       row = \<lparr>md_recv = ts, md_venue = cfg_venue cfg, md_kind = kind, md_shard = shard_id,
                              md_epoch = conn_epoch, md_seq = conn_seq, md_symbol = symbol, md_payload = data\<rparr>;
                       sh1 = sh\<lparr>sh_md := sh_md sh @ [row], sh_metrics := m1\<rparr>
                   in (case stp of
                         None \<Rightarrow> sh1
                       | Some st \<Rightarrow>
                           let st1 = (case parsed of None \<Rightarrow> st | Some ev \<Rightarrow> st\<lparr>ss_scratch := ev\<rparr>)
                           in if failed then sh1\<lparr>sh_syms := AList.update symbol st1 (sh_syms sh1)\<rparr>
                              else (case handle_kind cfg env kind ts symbol (check_epoch st1 conn_epoch) m1 (sh_snaps sh1) of
                                      (st2, m2, snaps) \<Rightarrow>
                                        sh1\<lparr>sh_syms := AList.update symbol st2 (sh_syms sh1), sh_metrics := m2,
                                            sh_snaps := snaps\<rparr>)))"

text \<open>A message as the client delivers it: what the clock and the network say, frame, epoch, sequence number.\<close>

type_synonym delivery = "Env \<times> string \<times> u64 \<times> u64"

fun deliver :: "Config \<Rightarrow> i32 \<Rightarrow> Shard \<Rightarrow> delivery \<Rightarrow> Shard" where
  "deliver cfg shard_id sh (env, frame, conn_epoch, conn_seq) = handler cfg shard_id env sh frame conn_epoch conn_seq"

section \<open>The invariant of a symbol\<close>

definition sym_inv :: "Venue \<Rightarrow> string \<Rightarrow> SymState \<Rightarrow> bool" where
  "sym_inv v s st \<longleftrightarrow> session_inv (ss_sess st) \<and> bs_venue (ss_sess st) = v \<and>
     ob_id (bs_ob (ss_sess st)) = derive_id s \<and> numbered (derive_id s) (ss_seq st) (ss_rows st)"

lemma sym_inv_new: "sym_inv v s (new_SymState v s)"
  by (simp add: sym_inv_def new_SymState_def new_BookSession_def new_OrderBook_def)
    (metis new_BookSession_def new_OrderBook_def session_inv_new)

text \<open>The steps change the row counter by the rows they add.\<close>

definition rows_added :: "SymState \<Rightarrow> Metrics \<Rightarrow> SymState \<Rightarrow> Metrics \<Rightarrow> bool" where
  "rows_added st m st' m' \<longleftrightarrow>
     (\<exists>k. length (ss_rows st') = length (ss_rows st) + k \<and>
        mx_ob_rows_written m' = mx_ob_rows_written m + of_nat k) \<and>
     mx_md_rows_written m' = mx_md_rows_written m \<and> mx_msgs_total m' = mx_msgs_total m"

text \<open>The counters that the accounting is about are the same.\<close>

definition same_counts :: "Metrics \<Rightarrow> Metrics \<Rightarrow> bool" where
  "same_counts m m' \<longleftrightarrow> mx_ob_rows_written m' = mx_ob_rows_written m \<and> mx_md_rows_written m' = mx_md_rows_written m \<and>
     mx_msgs_total m' = mx_msgs_total m \<and> mx_resyncs m' = mx_resyncs m"

lemma rows_added_same:
  "rows_added st0 m1 st' m' \<Longrightarrow> same_counts m m1 \<Longrightarrow> ss_rows st0 = ss_rows st \<Longrightarrow> rows_added st m st' m'"
  by (simp add: rows_added_def same_counts_def)

lemma rows_added_none: "same_counts m m' \<Longrightarrow> ss_rows st' = ss_rows st \<Longrightarrow> rows_added st m st' m'"
  by (auto simp: rows_added_def same_counts_def)

lemma emit_book_row_inv:
  assumes "sym_inv v s st" "c \<in> {CHR ''D'', CHR ''T''}" "emit_book_row ts c st m = (st', m')"
  shows "sym_inv v s st' \<and> rows_added st m st' m' \<and> mx_resyncs m' = mx_resyncs m"
proof -
  have row: "good_row (derive_id s) (book_row ts (ss_seq st + 1) c (bs_ob (ss_sess st)))"
      "row_seqNo (book_row ts (ss_seq st + 1) c (bs_ob (ss_sess st))) = ss_seq st + 1"
    using good_book_row [of "bs_ob (ss_sess st)" c ts "ss_seq st + 1"] assms(1,2)
    by (simp_all add: sym_inv_def session_inv_def)
  show ?thesis
  proof (cases "\<not> ob_initialized (bs_ob (ss_sess st)) \<or> bs_resync_pending (ss_sess st)")
    case True
    then show ?thesis
      using assms(1,3) by (auto simp: emit_book_row_def rows_added_def)
  next
    case False
    then have e: "st' = st\<lparr>ss_seq := ss_seq st + 1,
          ss_rows := ss_rows st @ [book_row ts (ss_seq st + 1) c (bs_ob (ss_sess st))]\<rparr>"
        "m' = m\<lparr>mx_ob_rows_written := mx_ob_rows_written m + 1\<rparr>"
      using assms(3) by (auto simp: emit_book_row_def)
    have "rows_added st m st' m'"
      unfolding e rows_added_def by (auto intro!: exI [of _ "1::nat"])
    then show ?thesis
      using assms(1) row numbered_snoc unfolding e sym_inv_def by simp
  qed
qed

lemma resync_inv:
  assumes "sym_inv v s st" "resync cfg env st symbol m snaps = (st', m', snaps')"
  shows "sym_inv v s st' \<and> rows_added st m st' m' \<and>
    mx_resyncs m' = mx_resyncs m + of_nat (length snaps' - length snaps) \<and> length snaps \<le> length snaps'"
proof -
  obtain ok snap serr raw where f: "fetch_depth_snapshot (env_http env) (cfg_venue cfg) symbol
      (if cfg_venue cfg = Spot then 5000 else 1000) new_DepthEvent [] [] = (ok, snap, serr, raw)"
    by (metis prod_cases4)
  show ?thesis
  proof (cases ok)
    case False
    then show ?thesis
      using assms f by (auto simp: resync_def rows_added_def)
  next
    case True
    obtain sess applied calls where o': "on_snapshot (ss_sess st) (ev_bids snap) (ev_asks snap) (ev_lastUpdateId snap) =
        (sess, applied, calls)"
      by (metis prod_cases3)
    obtain n rows m1 where e: "foldl emit_replayed (ss_seq st, ss_rows st, m) calls = (n, rows, m1)"
      by (metis prod_cases3)
    have books: "books_of (derive_id s) calls" "ob_id (bs_ob sess) = derive_id s" "session_inv sess" "bs_venue sess = v"
      using on_snapshot_books [OF _ _ o'] assms(1) by (auto simp: sym_inv_def)
    have num: "numbered (derive_id s) n rows" "length rows = length (ss_rows st) + length calls"
        "m1 = m\<lparr>mx_ob_rows_written := mx_ob_rows_written m + of_nat (length calls)\<rparr>"
      using emit_replayed_numbered [OF _ books(1) e] assms(1) by (auto simp: sym_inv_def)
    have r: "st' = st\<lparr>ss_sess := sess, ss_seq := n, ss_rows := rows\<rparr>" "m' = m1\<lparr>mx_resyncs := mx_resyncs m1 + 1\<rparr>"
        "length snaps' = length snaps + 1"
      using assms(2) f True o' e by (auto simp: resync_def Let_def)
    have "rows_added st m st' m'"
      using num(2) unfolding r num(3) rows_added_def by auto
    then show ?thesis
      using books num(1) r unfolding sym_inv_def by (simp add: num(3))
  qed
qed

lemma check_epoch_inv: "sym_inv v s st \<Longrightarrow> sym_inv v s (check_epoch st e) \<and> ss_rows (check_epoch st e) = ss_rows st"
  using session_inv_request_resync [of "ss_sess st"]
  by (auto simp: check_epoch_def sym_inv_def request_resync_def)

text \<open>What the handler does after a diff: write a row, resynchronise, or nothing.\<close>

lemma diff_cases:
  obtains (app) "o' = OutApplied"
    | (sync) "o' \<noteq> OutApplied" "o' = OutResyncNeeded \<or> o' = OutBuffered \<and> bs_resync_pending sess"
    | (quiet) "o' \<noteq> OutApplied" "\<not> (o' = OutResyncNeeded \<or> o' = OutBuffered \<and> bs_resync_pending sess)"
  by blast

lemma handle_diff_inv:
  assumes inv: "sym_inv v s st" and h: "handle_kind cfg env DepthDiff ts symbol st m snaps = (st', m', snaps')"
  shows "sym_inv v s st' \<and> rows_added st m st' m' \<and>
    mx_resyncs m' = mx_resyncs m + of_nat (length snaps' - length snaps) \<and> length snaps \<le> length snaps'"
proof -
  obtain sess o' where d: "on_diff (ss_sess st) (ss_scratch st) = (sess, o')"
    by (metis surj_pair)
  have inv1: "sym_inv v s (st\<lparr>ss_sess := sess\<rparr>)"
    using on_diff_book [OF _ _ d] inv by (auto simp: sym_inv_def)
  let ?m1 = "m\<lparr>mx_msgs_depth_diff := mx_msgs_depth_diff m + 1\<rparr>"
  let ?m2 = "if o' = OutResyncNeeded then ?m1\<lparr>mx_gaps_detected := mx_gaps_detected ?m1 + 1\<rparr> else ?m1"
  have same: "same_counts m ?m1" "same_counts m ?m2"
    by (simp_all add: same_counts_def)
  show ?thesis
  proof (cases rule: diff_cases [where o' = o' and sess = sess])
    case app
    then have e: "emit_book_row ts (CHR ''D'') (st\<lparr>ss_sess := sess\<rparr>) ?m1 = (st', m')" "snaps' = snaps"
      using h d by (auto simp: handle_kind_def Let_def split: prod.splits)
    then show ?thesis
      using emit_book_row_inv [OF inv1 _ e(1)] rows_added_same [OF _ same(1), of "st\<lparr>ss_sess := sess\<rparr>" st' m' st] by simp
  next
    case sync
    then have "resync cfg env (st\<lparr>ss_sess := sess\<rparr>) symbol ?m2 snaps = (st', m', snaps')"
      using h d by (simp add: handle_kind_def Let_def)
    from resync_inv [OF inv1 this] show ?thesis
      using rows_added_same [OF _ same(2), of "st\<lparr>ss_sess := sess\<rparr>" st' m' st] by (simp split: if_splits)
  next
    case quiet
    then have "st' = st\<lparr>ss_sess := sess\<rparr>" "m' = ?m1" "snaps' = snaps"
      using h d by (auto simp: handle_kind_def Let_def split: if_splits)
    then show ?thesis
      using inv1 rows_added_none [OF same(1)] by simp
  qed
qed

lemma handle_trade_inv:
  assumes inv: "sym_inv v s st" and h: "handle_kind cfg env Trade ts symbol st m snaps = (st', m', snaps')"
  shows "sym_inv v s st' \<and> rows_added st m st' m' \<and>
    mx_resyncs m' = mx_resyncs m + of_nat (length snaps' - length snaps) \<and> length snaps \<le> length snaps'"
proof -
  let ?m1 = "m\<lparr>mx_msgs_trade := mx_msgs_trade m + 1\<rparr>"
  have same: "same_counts m ?m1" by (simp add: same_counts_def)
  show ?thesis
  proof (cases "cfg_integrate_trades cfg")
    case True
    then have e: "emit_book_row ts (CHR ''T'') st ?m1 = (st', m')" "snaps' = snaps"
      using h by (auto simp: handle_kind_def Let_def split: prod.splits)
    then show ?thesis
      using emit_book_row_inv [OF inv _ e(1)] rows_added_same [OF _ same, of st st' m' st] by simp
  next
    case False
    then have "st' = st" "m' = ?m1" "snaps' = snaps"
      using h by (simp_all add: handle_kind_def Let_def)
    then show ?thesis
      using inv rows_added_none [OF same] by simp
  qed
qed

lemma handle_kind_inv:
  assumes inv: "sym_inv v s st" and h: "handle_kind cfg env kind ts symbol st m snaps = (st', m', snaps')"
  shows "sym_inv v s st' \<and> rows_added st m st' m' \<and>
    mx_resyncs m' = mx_resyncs m + of_nat (length snaps' - length snaps) \<and> length snaps \<le> length snaps'"
proof (cases kind)
  case DepthDiff
  with h show ?thesis by (intro handle_diff_inv [OF inv]) simp
next
  case Depth5
  have "good_row (derive_id s) (depth5_row ts (ss_seq st + 1) (derive_id s) (ss_scratch st))"
    "row_seqNo (depth5_row ts (ss_seq st + 1) (derive_id s) (ss_scratch st)) = ss_seq st + 1"
    using good_depth5_row by blast+
  then show ?thesis
    using h Depth5 inv numbered_snoc
    by (auto simp: handle_kind_def Let_def sym_inv_def rows_added_def intro!: exI [of _ "1::nat"])
next
  case Trade
  with h show ?thesis by (intro handle_trade_inv [OF inv]) simp
qed

section \<open>The invariant of a shard\<close>

definition total_rows :: "(string \<times> SymState) list \<Rightarrow> nat" where
  "total_rows syms = sum_list (map (\<lambda>(s, st). length (ss_rows st)) syms)"

definition syms_inv :: "Venue \<Rightarrow> (string \<times> SymState) list \<Rightarrow> bool" where
  "syms_inv v syms \<longleftrightarrow> distinct (map fst syms) \<and> list_all (\<lambda>(s, st). sym_inv v s st) syms"

text \<open>The counters account for the rows.\<close>

definition shard_inv :: "Venue \<Rightarrow> Shard \<Rightarrow> bool" where
  "shard_inv v sh \<longleftrightarrow> syms_inv v (sh_syms sh) \<and>
     mx_md_rows_written (sh_metrics sh) = of_nat (length (sh_md sh)) \<and>
     mx_msgs_total (sh_metrics sh) = of_nat (length (sh_md sh)) \<and>
     mx_ob_rows_written (sh_metrics sh) = of_nat (total_rows (sh_syms sh)) \<and>
     mx_resyncs (sh_metrics sh) = of_nat (length (sh_snaps sh))"

lemma total_rows_update:
  "map_of syms s = Some st \<Longrightarrow> total_rows (AList.update s st' syms) + length (ss_rows st) = total_rows syms + length (ss_rows st')"
  by (induction syms) (auto simp: total_rows_def)

lemma syms_inv_update:
  assumes "syms_inv v syms" "sym_inv v s st'"
  shows "syms_inv v (AList.update s st' syms)"
proof -
  have "list_all (\<lambda>(s, st). sym_inv v s st) (AList.update s st' syms)"
    using assms by (induction syms) (auto simp: syms_inv_def)
  then show ?thesis
    using assms(1) distinct_update [of syms s st'] by (simp add: syms_inv_def)
qed

lemma syms_inv_lookup: "syms_inv v syms \<Longrightarrow> map_of syms s = Some st \<Longrightarrow> sym_inv v s st"
  by (auto simp: syms_inv_def list_all_iff dest!: map_of_SomeD)

lemma shard_inv_new: "distinct syms \<Longrightarrow> shard_inv (cfg_venue cfg) (new_Shard cfg syms new_Metrics)"
proof -
  assume d: "distinct syms"
  have "total_rows (map (\<lambda>s. (s, new_SymState v s)) syms) = 0" for v
    by (induction syms) (simp_all add: total_rows_def new_SymState_def)
  with d show ?thesis
    by (auto simp: shard_inv_def new_Shard_def syms_inv_def list_all_iff sym_inv_new new_Metrics_def comp_def)
qed

lemma sym_inv_scratch: "sym_inv v s (st\<lparr>ss_scratch := ev\<rparr>) \<longleftrightarrow> sym_inv v s st"
  by (simp add: sym_inv_def)

text \<open>The update that a handled message makes to a shard whose audit row is already counted.\<close>

lemma shard_inv_update:
  assumes "shard_inv v sh" "map_of (sh_syms sh) s = Some st" "sym_inv v s st'" "rows_added st (sh_metrics sh) st' m'"
    and "mx_resyncs m' = mx_resyncs (sh_metrics sh) + of_nat (length snaps' - length (sh_snaps sh))"
      "length (sh_snaps sh) \<le> length snaps'"
  shows "shard_inv v (sh\<lparr>sh_syms := AList.update s st' (sh_syms sh), sh_metrics := m', sh_snaps := snaps'\<rparr>)"
proof -
  obtain k where k: "length (ss_rows st') = length (ss_rows st) + k"
      "mx_ob_rows_written m' = mx_ob_rows_written (sh_metrics sh) + of_nat k"
      "mx_md_rows_written m' = mx_md_rows_written (sh_metrics sh)" "mx_msgs_total m' = mx_msgs_total (sh_metrics sh)"
    using assms(4) by (auto simp: rows_added_def)
  have "total_rows (AList.update s st' (sh_syms sh)) = total_rows (sh_syms sh) + k"
    using total_rows_update [OF assms(2), of st'] k(1) by simp
  then show ?thesis
    using assms(1,5,6) syms_inv_update [OF _ assms(3), of "sh_syms sh"] k
    by (simp add: shard_inv_def of_nat_diff)
qed

lemma shard_inv_handler:
  assumes inv: "shard_inv v sh"
  shows "shard_inv v (handler cfg shard_id env sh frame conn_epoch conn_seq)"
proof -
  obtain ok stream data where sp: "split_envelope frame [] [] = (ok, stream, data)"
    by (metis prod_cases3)
  let ?sym = "stream_symbol stream" and ?kind = "classify_stream stream"
  let ?stp = "map_of (sh_syms sh) ?sym"
  obtain ts parsed failed where st: "stamp_message cfg (env_now env) ?kind ?stp data = (ts, parsed, failed)"
    by (metis prod_cases3)
  let ?m0 = "if failed then (sh_metrics sh)\<lparr>mx_parse_errors := mx_parse_errors (sh_metrics sh) + 1\<rparr> else sh_metrics sh"
  let ?m1 = "?m0\<lparr>mx_md_rows_written := mx_md_rows_written ?m0 + 1, mx_msgs_total := mx_msgs_total ?m0 + 1\<rparr>"
  let ?row = "\<lparr>md_recv = ts, md_venue = cfg_venue cfg, md_kind = ?kind, md_shard = shard_id,
      md_epoch = conn_epoch, md_seq = conn_seq, md_symbol = ?sym, md_payload = data\<rparr>"
  let ?sh1 = "sh\<lparr>sh_md := sh_md sh @ [?row], sh_metrics := ?m1\<rparr>"
  have inv1: "shard_inv v ?sh1"
    using inv by (simp add: shard_inv_def)
  consider (bad) "\<not> ok" | (unknown) "ok" "?stp = None" | (known) st where "ok" "?stp = Some st"
    by (cases ?stp) auto
  then show ?thesis
  proof cases
    case bad
    then show ?thesis
      using inv by (simp add: handler_def sp shard_inv_def)
  next
    case unknown
    then show ?thesis
      using inv1 st by (simp add: handler_def sp Let_def)
  next
    case (known st0)
    let ?st1 = "case parsed of None \<Rightarrow> st0 | Some ev \<Rightarrow> st0\<lparr>ss_scratch := ev\<rparr>"
    have look: "map_of (sh_syms ?sh1) ?sym = Some st0" using known by simp
    have s0: "sym_inv v ?sym st0"
      using inv syms_inv_lookup [OF _ known(2)] by (simp add: shard_inv_def)
    have s1: "sym_inv v ?sym ?st1" "ss_rows ?st1 = ss_rows st0"
      using s0 by (simp_all add: sym_inv_scratch split: option.split)
    show ?thesis
    proof (cases failed)
      case True
      have "shard_inv v (?sh1\<lparr>sh_syms := AList.update ?sym ?st1 (sh_syms ?sh1), sh_metrics := ?m1, sh_snaps := sh_snaps ?sh1\<rparr>)"
        using s1 by (intro shard_inv_update [OF inv1 look]) (simp_all add: rows_added_none same_counts_def)
      then show ?thesis
        using known st True by (simp add: handler_def sp Let_def shard_inv_def)
    next
      case False
      obtain st2 m2 snaps where h: "handle_kind cfg env ?kind ts ?sym (check_epoch ?st1 conn_epoch) ?m1 (sh_snaps ?sh1) = (st2, m2, snaps)"
        by (metis prod_cases3)
      note hk = handle_kind_inv [OF check_epoch_inv [OF s1(1), THEN conjunct1] h]
      have "rows_added st0 ?m1 st2 m2"
        using hk rows_added_same [of "check_epoch ?st1 conn_epoch" ?m1 st2 m2 ?m1 st0] check_epoch_inv [OF s1(1)] s1(2)
        by (simp add: same_counts_def)
      then have "shard_inv v (?sh1\<lparr>sh_syms := AList.update ?sym st2 (sh_syms ?sh1), sh_metrics := m2, sh_snaps := snaps\<rparr>)"
        using hk by (intro shard_inv_update [OF inv1 look]) simp_all
      then show ?thesis
        using known st False h by (simp add: handler_def sp Let_def)
    qed
  qed
qed

lemma handler_symbols: "map fst (sh_syms (handler cfg shard_id env sh frame conn_epoch conn_seq)) = map fst (sh_syms sh)"
proof -
  have "map fst (AList.update k v syms) = map fst syms" if "map_of syms k = Some v0" for k v v0 and syms :: "(string \<times> SymState) list"
    using that by (force simp: update_keys dest: map_of_SomeD)
  then show ?thesis
    by (auto simp: handler_def Let_def split: prod.split option.split)
qed

lemma run_symbols: "map fst (sh_syms (foldl (deliver cfg shard_id) sh ds)) = map fst (sh_syms sh)"
proof (induction ds arbitrary: sh)
  case (Cons d ds)
  then show ?case by (cases d) (simp add: handler_symbols)
qed simp

text \<open>
  A shard run is a transition system; the interpretation gives the invariant after every sequence
  of messages.
\<close>

interpretation shard_run: transition_system "new_Shard cfg (dedup syms) new_Metrics" "deliver cfg shard_id"
    "shard_inv (cfg_venue cfg)" for cfg syms shard_id
proof unfold_locales
  show "shard_inv (cfg_venue cfg) (new_Shard cfg (dedup syms) new_Metrics)"
    by (rule shard_inv_new) simp
  show "shard_inv (cfg_venue cfg) (deliver cfg shard_id sh d)" if "shard_inv (cfg_venue cfg) sh" for sh d
    using shard_inv_handler [OF that] by (cases d) simp
qed

section \<open>Times\<close>

lemma ms_to_ts_exact:
  assumes "0 \<le> ms"
  shows "tsec (ms_to_ts ms) * 1000 + tnsec (ms_to_ts ms) div 1000000 = ms"
    and "0 \<le> tnsec (ms_to_ts ms) \<and> tnsec (ms_to_ts ms) \<le> 999999999"
    and "0 \<le> tsec (ms_to_ts ms) \<and> tsec (ms_to_ts ms) \<le> ms"
proof -
  have d: "tsec (ms_to_ts ms) = ms div 1000" "tnsec (ms_to_ts ms) = ms mod 1000 * 1000000"
    using assms by (cases "ms = 0"; simp add: ms_to_ts_def signed_divide_int_def signed_modulo_int_def)+
  show "tsec (ms_to_ts ms) * 1000 + tnsec (ms_to_ts ms) div 1000000 = ms"
    by (simp add: d)
  show "0 \<le> tnsec (ms_to_ts ms) \<and> tnsec (ms_to_ts ms) \<le> 999999999"
    using pos_mod_bound [of 1000 ms] pos_mod_sign [of 1000 ms] by (simp add: d)
  show "0 \<le> tsec (ms_to_ts ms) \<and> tsec (ms_to_ts ms) \<le> ms"
    using assms mult_div_mod_eq [of 1000 ms] pos_mod_sign [of 1000 ms] pos_imp_zdiv_nonneg_iff [of 1000 ms]
    unfolding d by linarith
qed

lemma ms_to_ts_in_range: "0 \<le> ms \<Longrightarrow> in_i64 ms \<Longrightarrow> ts_in_range (ms_to_ts ms)"
  using ms_to_ts_exact [of ms] by (auto simp: ts_in_range_def range_defs)

lemma stamp_in_range:
  assumes "ts_in_range recv" "stamp_message cfg recv kind stp data = (ts, parsed, failed)"
  shows "ts_in_range ts"
proof -
  obtain ok ev where p: "parse_depth data new_DepthEvent = (ok, ev)" by (metis surj_pair)
  have "ts_in_range (ms_to_ts (ev_event_time_ms ev))" if "0 < ev_event_time_ms ev"
    using that parse_depth_range [OF new_event_in_range, of data] ms_to_ts_in_range
    by (simp add: p event_in_range_def)
  moreover have "ts_in_range (ms_to_ts (event_time_ms data))" if "0 < event_time_ms data"
    using that event_time_in_range ms_to_ts_in_range by simp
  ultimately show ?thesis
    using assms by (auto simp: stamp_message_def reset_depth_event_fresh p Let_def split: option.splits if_splits)
qed

section \<open>The effect of a message\<close>

text \<open>The effect of a message on a known symbol.\<close>

lemma handler_known:
  assumes "split_envelope frame [] [] = (True, stream, data)" "map_of (sh_syms sh) (stream_symbol stream) = Some st0"
    and "stamp_message cfg (env_now env) (classify_stream stream) (Some st0) data = (ts, parsed, False)"
    and "st1 = (case parsed of None \<Rightarrow> st0 | Some ev \<Rightarrow> st0\<lparr>ss_scratch := ev\<rparr>)"
  shows "\<exists>m1 m2 st2 snaps. handle_kind cfg env (classify_stream stream) ts (stream_symbol stream) (check_epoch st1 e) m1 (sh_snaps sh)
      = (st2, m2, snaps) \<and>
    sh_snaps (handler cfg shard_id env sh frame e q) = snaps \<and>
    sh_syms (handler cfg shard_id env sh frame e q) = AList.update (stream_symbol stream) st2 (sh_syms sh)"
proof -
  let ?m1 = "(sh_metrics sh)\<lparr>mx_md_rows_written := mx_md_rows_written (sh_metrics sh) + 1, mx_msgs_total := mx_msgs_total (sh_metrics sh) + 1\<rparr>"
  obtain st2 m2 snaps where h: "handle_kind cfg env (classify_stream stream) ts (stream_symbol stream) (check_epoch st1 e) ?m1 (sh_snaps sh) = (st2, m2, snaps)"
    by (metis prod_cases3)
  then show ?thesis
    using assms by (intro exI [of _ ?m1] exI [of _ m2] exI [of _ st2] exI [of _ snaps]) (simp add: handler_def Let_def)
qed

lemma handler_unknown:
  assumes "split_envelope frame [] [] = (True, stream, data)" "map_of (sh_syms sh) (stream_symbol stream) = None"
  shows "sh_snaps (handler cfg shard_id env sh frame e q) = sh_snaps sh"
    "sh_syms (handler cfg shard_id env sh frame e q) = sh_syms sh"
  using assms by (simp_all add: handler_def Let_def split: prod.split)

lemma handler_row:
  assumes "split_envelope frame [] [] = (True, stream, data)"
    and "stamp_message cfg (env_now env) (classify_stream stream) (map_of (sh_syms sh) (stream_symbol stream)) data = (ts, parsed, failed)"
  shows "sh_md (handler cfg shard_id env sh frame e q) = sh_md sh @
    [\<lparr>md_recv = ts, md_venue = cfg_venue cfg, md_kind = classify_stream stream, md_shard = shard_id,
      md_epoch = e, md_seq = q, md_symbol = stream_symbol stream, md_payload = data\<rparr>]"
  using assms by (simp add: handler_def Let_def split: prod.split option.split)

section \<open>Properties\<close>

text \<open>
  C8: The order-book files and the counters of a shard agree.  After any sequence of frames, with
  any clock readings and snapshot answers, the rows of every symbol are numbered from one without
  gaps or repetitions, carry the symbol's id, a type letter \<open>D\<close>, \<open>S\<close> or \<open>T\<close>, the side letter \<open>N\<close>
  and five entries per column group, and the counters for audit rows, messages, order-book rows
  and resynchronisations are exactly the numbers of rows in the files.
\<close>

theorem live_rows_accounted:
  "let sh = foldl (deliver cfg shard_id) (new_Shard cfg (dedup syms) new_Metrics) ds
   in list_all (\<lambda>(s, st). map row_seqNo (ss_rows st) = map (\<lambda>k. of_nat (k + 1)) [0..<length (ss_rows st)] \<and>
        list_all (good_row (derive_id s)) (ss_rows st)) (sh_syms sh) \<and>
      mx_md_rows_written (sh_metrics sh) = of_nat (length (sh_md sh)) \<and>
      mx_msgs_total (sh_metrics sh) = of_nat (length (sh_md sh)) \<and>
      mx_ob_rows_written (sh_metrics sh) = of_nat (total_rows (sh_syms sh)) \<and>
      mx_resyncs (sh_metrics sh) = of_nat (length (sh_snaps sh))"
  using shard_run.inv_run [where cfg = cfg and syms = syms and shard_id = shard_id and es = ds]
  unfolding Let_def shard_inv_def syms_inv_def sym_inv_def numbered_def list_all_iff by auto

lemma stream_name_parts:
  assumes "CHR ''@'' \<notin> set s" "map toupper s = s"
  shows "stream_symbol (stream_name s k) = s" "classify_stream (stream_name s k) = k"
proof -
  have "CHR ''@'' \<noteq> tolower c" if "c \<in> set s" for c
  proof
    assume "CHR ''@'' = tolower c"
    then have "(of_char (tolower c) :: nat) = of_char (CHR ''@'')" by (simp only:)
    then have "(of_char c :: nat) = 64"
      by (auto simp: tolower_def Let_def of_char_of split: if_splits)
    then have "c = CHR ''@''"
      using of_char_eq_iff [of c "CHR ''@''", where 'a = nat] by simp
    with that assms(1) show False by simp
  qed
  then have low: "CHR ''@'' \<notin> set (map tolower s)" by auto
  have "list_all (\<lambda>c. c \<noteq> CHR ''@'') (map tolower s)"
    using low unfolding list_all_iff by metis
  then have "takeWhile (\<lambda>c. c \<noteq> CHR ''@'') (map tolower s @ channel k) = map tolower s"
    by (rule takeWhile_run) (simp add: channel_def split: StreamKind.split)
  then show "stream_symbol (stream_name s k) = s"
    using assms(2) by (simp add: stream_symbol_def stream_name_def comp_def)
  show "classify_stream (stream_name s k) = k"
    using low by (simp add: stream_name_def classify_stream_channel)
qed

lemma split_stream_frame:
  assumes "no_quote s" "object_text payload"
  shows "split_envelope (frame_of (stream_name s k) payload) [] [] = (True, stream_name s k, payload)"
proof (rule split_envelope_eq [OF _ _ assms(2)])
  have "CHR 0x22 \<noteq> tolower c" if "c \<in> set s" for c
  proof
    assume "CHR 0x22 = tolower c"
    then have "(of_char (tolower c) :: nat) = of_char (CHR 0x22)" by (simp only:)
    then have "(of_char c :: nat) = 34"
      by (auto simp: tolower_def Let_def of_char_of split: if_splits)
    then have "c = CHR 0x22"
      using of_char_eq_iff [of c "CHR 0x22", where 'a = nat] by simp
    with that assms(1) show False by (simp add: no_quote_def)
  qed
  then show "no_quote (stream_name s k)"
    by (cases k) (auto simp: no_quote_def stream_name_def channel_def)
  have "CHR ''@'' \<in> set (stream_name s k)"
    by (cases k) (simp_all add: stream_name_def channel_def)
  then show "stream_name s k \<noteq> ''data''" by auto
qed

lemma handler_md:
  assumes "split_envelope frame [] [] = (True, stream, data)"
  shows "\<exists>ts. sh_md (handler cfg shard_id env sh frame conn_epoch conn_seq) = sh_md sh @
    [\<lparr>md_recv = ts, md_venue = cfg_venue cfg, md_kind = classify_stream stream, md_shard = shard_id,
      md_epoch = conn_epoch, md_seq = conn_seq, md_symbol = stream_symbol stream, md_payload = data\<rparr>]"
  using assms by (auto simp: handler_def Let_def split: prod.split option.split)


definition sample_env :: Env where
  "sample_env = \<lparr>env_now = zero_ts, env_snap_now = zero_ts, env_http = (\<lambda>_ _. no_route)\<rparr>"


end
