(* ===== verification/Replay.thy ===== *)
theory Replay
  imports Capture_Rows
begin

text \<open>
  The offline replay (\<open>run_replay\<close> of \<open>src/replay.cpp\<close>): the loader of the snapshot sidecar and the
  line loop that rebuilds the order-book rows of every symbol from a captured market-data file.

  Files are texts: \<open>None\<close> for a file that cannot be opened.  The parallel maps of the code, which
  all get their entry for a symbol at the same point, are one record per symbol; \<open>epochs\<close> gets its
  entry right after and is an \<open>option\<close> in it.
\<close>

section \<open>State\<close>

record RSym =
  rs_book :: BookSession
  rs_rows :: "ObRow list"
  rs_seq :: u64
  rs_scratch :: DepthEvent
  rs_epoch :: "u64 option"

record ReplayState =
  rp_syms :: "(string \<times> RSym) list"
  rp_snaps :: "(string \<times> DepthEvent list) list"
  rp_metrics :: Metrics

definition new_RSym :: "Venue \<Rightarrow> string \<Rightarrow> RSym" where
  "new_RSym venue s = \<lparr>rs_book = new_BookSession (derive_id s) venue, rs_rows = [], rs_seq = 0,
     rs_scratch = new_DepthEvent, rs_epoch = None\<rparr>"

section \<open>The sidecar\<close>

definition sidecar_path :: "string \<Rightarrow> string" where
  "sidecar_path input =
     (let n = length input
      in (if n > 4 \<and> drop (n - 4) input = ''.csv'' then take (n - 4) input else input) @ ''_snapshots.csv'')"

definition queue_of :: "(string \<times> DepthEvent list) list \<Rightarrow> string \<Rightarrow> DepthEvent list" where
  "queue_of snaps s = (case map_of snaps s of None \<Rightarrow> [] | Some q \<Rightarrow> q)"

definition sidecar_line ::
  "(string \<times> DepthEvent list) list \<times> Metrics \<Rightarrow> string \<Rightarrow> (string \<times> DepthEvent list) list \<times> Metrics" where
  "sidecar_line sm sl =
     (case sm of (snaps, m) \<Rightarrow>
        let f = parse_csv_line sl
        in if sl = [] \<or> length f < 5 then (snaps, m)
           else case parse_depth (f ! 4) new_DepthEvent of
             (ok, ev) \<Rightarrow>
               if ok then (AList.update (f ! 2) (queue_of snaps (f ! 2) @ [ev]) snaps, m)
               else (snaps, m\<lparr>mx_parse_errors := mx_parse_errors m + 1\<rparr>))"

definition load_sidecar :: "string \<Rightarrow> Metrics \<Rightarrow> (string \<times> DepthEvent list) list \<times> Metrics" where
  "load_sidecar content m = foldl sidecar_line ([], m) (tl (getlines content))"

section \<open>One symbol\<close>

text \<open>
  The next recorded snapshot for a symbol: the queue without it, and the symbol's state after it.
\<close>

definition seed_from_sidecar ::
  "RSym \<Rightarrow> DepthEvent list \<Rightarrow> Metrics \<Rightarrow> RSym \<times> DepthEvent list \<times> Metrics" where
  "seed_from_sidecar r queue m =
     (case queue of
        [] \<Rightarrow> (r, queue, m)
      | sn # queue' \<Rightarrow>
          (case on_snapshot (rs_book r) (ev_bids sn) (ev_asks sn) (ev_lastUpdateId sn) of
             (sess, applied, calls) \<Rightarrow>
               (case foldl emit_replayed (rs_seq r, rs_rows r, m) calls of
                  (n, rows, m1) \<Rightarrow>
                    (r\<lparr>rs_book := sess, rs_seq := n, rs_rows := rows\<rparr>, queue',
                     m1\<lparr>mx_resyncs := mx_resyncs m1 + 1\<rparr>))))"

definition replay_epoch :: "RSym \<Rightarrow> u64 \<Rightarrow> RSym" where
  "replay_epoch r ce =
     (case rs_epoch r of
        None \<Rightarrow> r\<lparr>rs_epoch := Some ce\<rparr>
      | Some e \<Rightarrow> if e \<noteq> ce then r\<lparr>rs_book := request_resync (rs_book r), rs_epoch := Some ce\<rparr> else r)"

definition replay_emit :: "Timestamp \<Rightarrow> char \<Rightarrow> RSym \<Rightarrow> Metrics \<Rightarrow> RSym \<times> Metrics" where
  "replay_emit ts type_char r m =
     (if \<not> ob_initialized (bs_ob (rs_book r)) \<or> bs_resync_pending (rs_book r) then (r, m)
      else (r\<lparr>rs_seq := rs_seq r + 1, rs_rows := rs_rows r @ [book_row ts (rs_seq r + 1) type_char (bs_ob (rs_book r))]\<rparr>,
            m\<lparr>mx_ob_rows_written := mx_ob_rows_written m + 1\<rparr>))"

text \<open>A captured message of a symbol, after the epoch check.\<close>

definition replay_kind ::
  "bool \<Rightarrow> bool \<Rightarrow> string \<Rightarrow> Timestamp \<Rightarrow> string \<Rightarrow> RSym \<Rightarrow> DepthEvent list \<Rightarrow> Metrics
   \<Rightarrow> RSym \<times> DepthEvent list \<times> Metrics" where
  "replay_kind integrate_trades have_sidecar kind ts payload r queue m =
     (if kind = ''depth_diff'' then
        let m1 = m\<lparr>mx_msgs_depth_diff := mx_msgs_depth_diff m + 1\<rparr>
        in (case parse_depth payload (reset_depth_event (rs_scratch r)) of
              (ok, ev0) \<Rightarrow>
                if \<not> ok then (r\<lparr>rs_scratch := ev0\<rparr>, queue, m1\<lparr>mx_parse_errors := mx_parse_errors m1 + 1\<rparr>)
                else
                  let ev = ev0\<lparr>ev_applied_time := ts\<rparr>
                  in (case on_diff (rs_book r) ev of
                        (sess, o') \<Rightarrow>
                          let r1 = r\<lparr>rs_scratch := ev, rs_book := sess\<rparr>
                          in if o' = OutApplied then
                               (case replay_emit ts (CHR ''D'') r1 m1 of (r2, m2) \<Rightarrow> (r2, queue, m2))
                             else if o' = OutResyncNeeded \<or> o' = OutBuffered \<and> bs_resync_pending sess then
                               seed_from_sidecar r1 queue
                                 (if o' = OutResyncNeeded then m1\<lparr>mx_gaps_detected := mx_gaps_detected m1 + 1\<rparr> else m1)
                             else (r1, queue, m1)))
      else if kind = ''depth5'' then
        let m1 = m\<lparr>mx_msgs_depth5 := mx_msgs_depth5 m + 1\<rparr>
        in (case parse_depth payload (reset_depth_event (rs_scratch r)) of
              (ok, ev0) \<Rightarrow>
                if \<not> ok then (r\<lparr>rs_scratch := ev0\<rparr>, queue, m1\<lparr>mx_parse_errors := mx_parse_errors m1 + 1\<rparr>)
                else
                  let ev = ev0\<lparr>ev_applied_time := ts\<rparr>;
                      ob = bs_ob (rs_book r);
                      m2 = (if ob_initialized ob \<and> depth5_disagrees ob ev
                            then m1\<lparr>mx_depth5_mismatch := mx_depth5_mismatch m1 + 1\<rparr> else m1);
                      (sess, applied, calls) =
                        (if have_sidecar then (rs_book r, 0, [])
                         else on_snapshot (rs_book r) (ev_bids ev) (ev_asks ev) (ev_lastUpdateId ev))
                  in (case foldl emit_replayed (rs_seq r, rs_rows r, m2) calls of
                        (n, rows, m3) \<Rightarrow>
                          (r\<lparr>rs_scratch := ev, rs_book := sess, rs_seq := n + 1,
                             rs_rows := rows @ [depth5_row ts (n + 1) (ob_id (bs_ob sess)) ev]\<rparr>,
                           queue, m3\<lparr>mx_ob_rows_written := mx_ob_rows_written m3 + 1\<rparr>)))
      else if kind = ''trade'' then
        let m1 = m\<lparr>mx_msgs_trade := mx_msgs_trade m + 1\<rparr>
        in if integrate_trades then
             (case replay_emit ts (CHR ''T'') r m1 of (r2, m2) \<Rightarrow> (r2, queue, m2))
           else (r, queue, m1)
      else (r, queue, m))"

section \<open>The line loop\<close>

text \<open>\<open>Inl\<close> is the exit code of an early return, with the counters so far.\<close>

definition replay_line ::
  "Config \<Rightarrow> bool \<Rightarrow> (string \<Rightarrow> bool) \<Rightarrow> ReplayState \<Rightarrow> string \<Rightarrow> (int \<times> Metrics) + ReplayState" where
  "replay_line cfg have_sidecar open_ok rp line =
     (let f = parse_csv_line line; m = rp_metrics rp
      in if line = [] then Inr rp
         else if length f < 9 then Inr (rp\<lparr>rp_metrics := m\<lparr>mx_parse_errors := mx_parse_errors m + 1\<rparr>\<rparr>)
         else
           let ts = \<lparr>tsec = atoll (f ! 0), tnsec = atoi (f ! 1)\<rparr>;
               symbol = f ! 7;
               m1 = m\<lparr>mx_msgs_total := mx_msgs_total m + 1\<rparr>
           in case (case map_of (rp_syms rp) symbol of
                      Some r \<Rightarrow> Some r
                    | None \<Rightarrow> if open_ok (cfg_output_dir cfg @ ''/replay_'' @ symbol @ ''_orderbook.csv'')
                              then Some (new_RSym (cfg_venue cfg) symbol) else None) of
                None \<Rightarrow> Inl (2, m1)
              | Some r \<Rightarrow>
                  (case replay_kind (cfg_integrate_trades cfg) have_sidecar (f ! 3) ts (f ! 8)
                          (replay_epoch r (strtoull (f ! 5))) (queue_of (rp_snaps rp) symbol) m1 of
                     (r', queue, m2) \<Rightarrow>
                       Inr (rp\<lparr>rp_syms := AList.update symbol r' (rp_syms rp),
                               rp_snaps := AList.update symbol queue (rp_snaps rp), rp_metrics := m2\<rparr>)))"

fun replay_lines ::
  "Config \<Rightarrow> bool \<Rightarrow> (string \<Rightarrow> bool) \<Rightarrow> ReplayState \<Rightarrow> string list \<Rightarrow> (int \<times> Metrics) + ReplayState" where
  "replay_lines cfg have_sidecar open_ok rp [] = Inr rp"
| "replay_lines cfg have_sidecar open_ok rp (l # ls) =
     (case replay_line cfg have_sidecar open_ok rp l of
        Inl rc \<Rightarrow> Inl rc
      | Inr rp' \<Rightarrow> replay_lines cfg have_sidecar open_ok rp' ls)"

definition run_replay ::
  "Config \<Rightarrow> (string \<Rightarrow> string option) \<Rightarrow> (string \<Rightarrow> bool) \<Rightarrow> Metrics \<Rightarrow> (int \<times> Metrics) + ReplayState" where
  "run_replay cfg read_file open_ok m =
     (case read_file (cfg_replay_input cfg) of
        None \<Rightarrow> Inl (2, m)
      | Some md \<Rightarrow>
          (case (case read_file (sidecar_path (cfg_replay_input cfg)) of
                   None \<Rightarrow> (False, [], m)
                 | Some sc \<Rightarrow> (True, load_sidecar sc m)) of
             (have_sidecar, snaps, m1) \<Rightarrow>
               replay_lines cfg have_sidecar open_ok
                 \<lparr>rp_syms = [], rp_snaps = snaps, rp_metrics = m1\<rparr> (tl (getlines md))))"

section \<open>Replay without a sidecar on USD-M\<close>

text \<open>
  Without a sidecar the replay seeds the book from depth5 rows.  A USD-M depth5 payload is a
  \<open>depthUpdate\<close> and has no \<open>lastUpdateId\<close>, so the book is seeded at id zero.
\<close>

definition usdm_payload :: "string \<Rightarrow> string \<Rightarrow> bool" where
  "usdm_payload kind payload =
     (let ev = snd (parse_depth payload new_DepthEvent)
      in if kind = ''depth5'' then ev_lastUpdateId ev = 0
         else if kind = ''depth_diff'' then 0 < ev_U ev \<and> 0 < ev_u ev else True)"

text \<open>The captured messages of one symbol: epoch, kind, time and payload.\<close>

fun replay_message :: "bool \<Rightarrow> RSym \<times> Metrics \<Rightarrow> u64 \<times> string \<times> Timestamp \<times> string \<Rightarrow> RSym \<times> Metrics" where
  "replay_message integrate_trades (r, m) (e, kind, ts, payload) =
     (case replay_kind integrate_trades False kind ts payload (replay_epoch r e) [] m of (r', queue, m') \<Rightarrow> (r', m'))"

definition zero_seeded :: "RSym \<Rightarrow> bool" where
  "zero_seeded r \<longleftrightarrow> bs_venue (rs_book r) = Usdm \<and> ob_last_update_id (bs_ob (rs_book r)) = 0 \<and> \<not> ob_started (bs_ob (rs_book r)) \<and>
     list_all (\<lambda>ev. 0 < ev_U ev \<and> 0 < ev_u ev) (bs_buffer (rs_book r)) \<and> list_all (\<lambda>row. row_type row \<noteq> CHR ''D'') (rs_rows r)"

lemma not_continues_zero: "0 < ev_U ev \<Longrightarrow> \<not> continues Usdm False 0 ev"
  by (simp add: word_less_nat_alt)

lemma zero_snapshot:
  assumes "bs_venue s = Usdm" "list_all (\<lambda>ev. 0 < ev_U ev \<and> 0 < ev_u ev) (bs_buffer s)" "on_snapshot s bids asks 0 = (s', n, calls)"
  shows "calls = [] \<and> bs_venue s' = Usdm \<and> ob_last_update_id (bs_ob s') = 0 \<and> \<not> ob_started (bs_ob s') \<and>
    list_all (\<lambda>ev. 0 < ev_U ev \<and> 0 < ev_u ev) (bs_buffer s')"
proof (cases "bs_buffer s")
  case Nil
  then show ?thesis using assms by (auto simp: on_snapshot_eq)
next
  case (Cons ev evs)
  then have "\<not> ev_u ev \<le> 0" "\<not> continues Usdm False 0 ev"
    using assms(2) not_continues_zero [of ev] by (auto simp: not_le)
  then show ?thesis using assms Cons by (auto simp: on_snapshot_eq)
qed

lemma zero_diff:
  assumes "bs_venue s = Usdm" "ob_last_update_id (bs_ob s) = 0" "\<not> ob_started (bs_ob s)"
    "list_all (\<lambda>ev. 0 < ev_U ev \<and> 0 < ev_u ev) (bs_buffer s)" "0 < ev_U ev" "0 < ev_u ev" "on_diff s ev = (s', o')"
  shows "o' \<noteq> OutApplied \<and> bs_venue s' = Usdm \<and> ob_last_update_id (bs_ob s') = 0 \<and> \<not> ob_started (bs_ob s') \<and>
    list_all (\<lambda>ev. 0 < ev_U ev \<and> 0 < ev_u ev) (bs_buffer s')"
proof -
  have "\<not> ev_u ev \<le> 0" "\<not> continues Usdm False 0 ev"
    using assms(5,6) not_continues_zero [of ev] by (auto simp: not_le)
  then show ?thesis
    using assms by (auto simp: on_diff_def apply_one_eq buffer_event_def reset_book_def Let_def split: if_splits)
qed

lemma zero_seeded_epoch: "zero_seeded r \<Longrightarrow> zero_seeded (replay_epoch r e)"
  by (auto simp: zero_seeded_def replay_epoch_def request_resync_def reset_book_def split: option.split)

lemma zero_seeded_message:
  assumes z: "zero_seeded r" and k: "usdm_payload kind payload"
    and r: "replay_kind it False kind ts payload r [] m = (r', q, m')"
  shows "zero_seeded r'"
proof -
  obtain ok ev0 where p: "parse_depth payload new_DepthEvent = (ok, ev0)" by (metis surj_pair)
  note zs = z [unfolded zero_seeded_def]
  consider (diff) "kind = ''depth_diff''" | (d5) "kind = ''depth5''" | (other) "kind \<noteq> ''depth_diff''" "kind \<noteq> ''depth5''" by blast
  then show ?thesis
  proof cases
    case diff
    obtain sess o' where d: "on_diff (rs_book r) (ev0\<lparr>ev_applied_time := ts\<rparr>) = (sess, o')" by (metis surj_pair)
    have "0 < ev_U ev0" "0 < ev_u ev0" using k p diff by (simp_all add: usdm_payload_def)
    then show ?thesis
      using zero_diff [OF _ _ _ _ _ _ d] zs r diff
      by (auto simp: replay_kind_def zero_seeded_def reset_depth_event_fresh p d seed_from_sidecar_def Let_def split: if_splits)
  next
    case d5
    have "ev_lastUpdateId ev0 = 0" using k p d5 by (simp add: usdm_payload_def)
    moreover obtain sess n calls where o': "on_snapshot (rs_book r) (ev_bids ev0) (ev_asks ev0) 0 = (sess, n, calls)" by (metis prod_cases3)
    moreover have "row_type (depth5_row t k' i ev) \<noteq> CHR ''D''" for t k' i ev
      by (simp add: depth5_row_eq show_levels_def labelled_def)
    ultimately show ?thesis
      using zero_snapshot [OF _ _ o'] zs r d5
      by (auto simp: replay_kind_def zero_seeded_def reset_depth_event_fresh p Let_def split: if_splits prod.splits)
  next
    case other
    have "row_type (book_row t k' (CHR ''T'') ob) \<noteq> CHR ''D''" for t k' ob
      by (simp add: book_row_type)
    then show ?thesis
      using z r other by (auto simp: replay_kind_def replay_emit_def zero_seeded_def Let_def split: if_splits)
  qed
qed

text \<open>
  C38: On USD-M a replay without a sidecar emits no diff row.  For every sequence of captured messages of
  a symbol whose depth5 payloads have no \<open>lastUpdateId\<close> and whose diffs have positive update ids, as
  on USD-M, the replay without a sidecar ends with rows of which none is of type \<open>D\<close>: every diff
  after the seeding at id zero counts as a gap.
\<close>

theorem usdm_replay_without_sidecar:
  assumes "list_all (\<lambda>(e, kind, ts, payload). usdm_payload kind payload) msgs"
  shows "list_all (\<lambda>row. row_type row \<noteq> CHR ''D'') (rs_rows (fst (foldl (replay_message integrate_trades) (new_RSym Usdm s, m) msgs)))"
proof -
  have "zero_seeded (fst (foldl (replay_message integrate_trades) (r, m) msgs))" if "zero_seeded r" for r
    using assms that
  proof (induction msgs arbitrary: r m)
    case (Cons x msgs)
    obtain e kind ts payload where x: "x = (e, kind, ts, payload)" by (metis prod_cases4)
    obtain r' q m' where r': "replay_kind integrate_trades False kind ts payload (replay_epoch r e) [] m = (r', q, m')" by (metis prod_cases3)
    have "zero_seeded r'"
      using zero_seeded_message [OF zero_seeded_epoch [OF Cons.prems(2)] _ r'] Cons.prems(1) by (simp add: x)
    then show ?case
      using Cons.IH [of r' m'] Cons.prems(1) by (simp add: x r')
  qed simp
  moreover have "zero_seeded (new_RSym Usdm s)"
    by (simp add: zero_seeded_def new_RSym_def new_BookSession_def new_OrderBook_def)
  ultimately show ?thesis
    by (auto simp: zero_seeded_def)
qed

definition usdm_message :: "string \<Rightarrow> string \<Rightarrow> Field list" where
  "usdm_message lo hi = [(''e'', Text ''depthUpdate''), (''U'', Num lo), (''u'', Num hi), (''pu'', Num lo), (''b'', Levels [(''1.5'', ''2'')])]"

theorem usdm_replay_without_sidecar_witness:
  "list_all (\<lambda>row. row_type row \<noteq> CHR ''D'') (rs_rows (fst (foldl (replay_message True) (new_RSym Usdm ''BTC'', new_Metrics)
     [(0, ''depth5'', zero_ts, render_message (usdm_message ''11'' ''12'')), (0, ''depth_diff'', zero_ts, render_message (usdm_message ''13'' ''14''))])))"
proof (rule usdm_replay_without_sidecar)
  have wf: "list_all wf_field (usdm_message ''11'' ''12'')" "list_all wf_field (usdm_message ''13'' ''14'')"
    by code_simp+
  have "usdm_payload ''depth5'' (render_message (usdm_message ''11'' ''12''))"
    unfolding usdm_payload_def parse_depth_render [OF wf(1)] by code_simp
  moreover have "usdm_payload ''depth_diff'' (render_message (usdm_message ''13'' ''14''))"
    unfolding usdm_payload_def parse_depth_render [OF wf(2)] by code_simp
  ultimately show "list_all (\<lambda>(e, kind, ts, payload). usdm_payload kind payload)
     [(0, ''depth5'', zero_ts, render_message (usdm_message ''11'' ''12'')), (0, ''depth_diff'', zero_ts, render_message (usdm_message ''13'' ''14''))]"
    by simp
qed

text \<open>An early return of the replay has exit code two.\<close>

lemma replay_line_code: "replay_line cfg have_sidecar open_ok rp l = Inl (rc, m) \<Longrightarrow> rc = 2"
  by (auto simp: replay_line_def Let_def split: if_splits option.splits prod.splits)

lemma replay_lines_code: "replay_lines cfg have_sidecar open_ok rp ls = Inl (rc, m) \<Longrightarrow> rc = 2"
  by (induction ls arbitrary: rp) (auto split: sum.splits dest: replay_line_code)

lemma run_replay_code: "run_replay cfg read_file open_ok m = Inl (rc, m') \<Longrightarrow> rc = 2"
  by (auto simp: run_replay_def split: option.splits prod.splits dest: replay_lines_code)

text \<open>The rows of the order-book file that the replay writes for a symbol.\<close>

definition replayed_rows :: "ReplayState \<Rightarrow> string \<Rightarrow> ObRow list" where
  "replayed_rows rp s = (case map_of (rp_syms rp) s of None \<Rightarrow> [] | Some r \<Rightarrow> rs_rows r)"

end
