(* ===== verification/Replay_Live.thy ===== *)
theory Replay_Live
  imports Live_Shard Replay
begin

text \<open>
  The replay of a capture reproduces the live order-book files.

  The two programs are related by a simulation: after the same messages, the replay holds for every
  symbol the same book session, rows, numbering and epoch as the live shard, and its queue of
  recorded snapshots is what the live run is still going to fetch.
\<close>

section \<open>The files of a live run\<close>

definition file_of :: "string \<Rightarrow> string option list \<Rightarrow> string option" where
  "file_of header rows = (if None \<in> set rows then None else Some (header @ [CHR 0x0A] @ concat (map the rows)))"

definition md_file :: "Shard \<Rightarrow> string option" where
  "md_file sh = file_of md_header (map md_row_text (sh_md sh))"

definition snap_file :: "Shard \<Rightarrow> string option" where
  "snap_file sh = file_of snap_header (map snap_row_text (sh_snaps sh))"

text \<open>The columns of a row, and the rows that survive the line-based reader.\<close>

definition md_columns :: "MdRow \<Rightarrow> string list" where
  "md_columns r = md_fields (md_recv r) (md_venue r) (md_kind r) (md_shard r) (md_epoch r) (md_seq r) (md_symbol r) (md_payload r)"

definition snap_columns :: "SnapRow \<Rightarrow> string list" where
  "snap_columns r = [show_int (tsec (sn_time r)), show_int (tnsec (sn_time r)), sn_symbol r, show_u64 (sn_last_update_id r), sn_raw r]"

definition md_ok :: "MdRow \<Rightarrow> bool" where
  "md_ok r \<longleftrightarrow> ts_in_range (md_recv r) \<and> in_i32 (md_shard r) \<and> \<not> needs_quote (md_symbol r) \<and> CHR 0x0A \<notin> set (md_payload r)"

definition snap_ok :: "SnapRow \<Rightarrow> bool" where
  "snap_ok r \<longleftrightarrow> ts_in_range (sn_time r) \<and> \<not> needs_quote (sn_symbol r) \<and> CHR 0x0A \<notin> set (sn_raw r)"

lemma no_break_plain: "\<not> needs_quote s \<Longrightarrow> CHR 0x0A \<notin> set s"
  by (auto simp: needs_quote_def list_ex_iff)

lemma md_row_line: "md_ok r \<Longrightarrow> md_row_text r = Some (commas (map csv_escape (md_columns r)) @ [CHR 0x0A])"
  unfolding md_row_text_def md_columns_def md_ok_def by (intro md_row_eq) simp_all

lemma snap_row_line: "snap_ok r \<Longrightarrow> snap_row_text r = Some (commas (map csv_escape (snap_columns r)) @ [CHR 0x0A])"
  unfolding snap_row_text_def snap_columns_def snap_ok_def by (intro snap_row_eq) simp_all

lemma md_no_break: "md_ok r \<Longrightarrow> list_all (\<lambda>s. CHR 0x0A \<notin> set s) (md_columns r)"
  by (simp add: md_columns_def md_fields_def md_ok_def no_break_plain)

lemma snap_no_break: "snap_ok r \<Longrightarrow> list_all (\<lambda>s. CHR 0x0A \<notin> set s) (snap_columns r)"
  by (simp add: snap_columns_def snap_ok_def no_break_plain)

text \<open>A file of good rows reads back as its header and its rows.\<close>

lemma file_of_lines:
  assumes "CHR 0x0A \<notin> set header" "list_all ok rows"
    and "\<And>r. ok r \<Longrightarrow> show_row r = Some (commas (map csv_escape (cols r)) @ [CHR 0x0A])"
    and "\<And>r. ok r \<Longrightarrow> list_all (\<lambda>s. CHR 0x0A \<notin> set s) (cols r)"
  shows "\<exists>content. file_of header (map show_row rows) = Some content \<and>
    getlines content = header # map (\<lambda>r. commas (map csv_escape (cols r))) rows"
proof -
  let ?lines = "header # map (\<lambda>r. commas (map csv_escape (cols r))) rows"
  have "None \<notin> set (map show_row rows)"
    using assms(2,3) by (auto simp: list_all_iff)
  moreover have "header @ [CHR 0x0A] @ concat (map the (map show_row rows)) = concat (map (\<lambda>l. l @ [CHR 0x0A]) ?lines)"
    using assms(2,3) by (auto simp: list_all_iff intro!: arg_cong [where f = concat])
  moreover have "list_all (\<lambda>l. CHR 0x0A \<notin> set l) ?lines"
    using assms(1,2,4) no_break_line by (auto simp: list_all_iff)
  ultimately show ?thesis
    using getline_all_pieces [of "CHR 0x0A" ?lines] by (simp add: file_of_def getlines_def)
qed

section \<open>The replay on rows\<close>

text \<open>The state of a symbol, which the replay creates when its first row comes.\<close>

definition rsym :: "Config \<Rightarrow> ReplayState \<Rightarrow> string \<Rightarrow> RSym" where
  "rsym cfg rp s = (case map_of (rp_syms rp) s of Some r \<Rightarrow> r | None \<Rightarrow> new_RSym (cfg_venue cfg) s)"

text \<open>One captured row, without the text in between.\<close>

definition replay_row :: "Config \<Rightarrow> ReplayState \<Rightarrow> MdRow \<Rightarrow> ReplayState" where
  "replay_row cfg rp row =
     (let symbol = md_symbol row; m = rp_metrics rp
      in case replay_kind (cfg_integrate_trades cfg) True (kind_to_string (md_kind row)) (md_recv row) (md_payload row)
                (replay_epoch (rsym cfg rp symbol) (md_epoch row)) (queue_of (rp_snaps rp) symbol) (m\<lparr>mx_msgs_total := mx_msgs_total m + 1\<rparr>) of
           (r', queue, m2) \<Rightarrow>
             rp\<lparr>rp_syms := AList.update symbol r' (rp_syms rp),
                rp_snaps := AList.update symbol queue (rp_snaps rp), rp_metrics := m2\<rparr>)"

lemma replay_line_row:
  assumes "md_ok row"
  shows "replay_line cfg True (\<lambda>_. True) rp (commas (map csv_escape (md_columns row))) = Inr (replay_row cfg rp row)"
proof -
  let ?line = "commas (map csv_escape (md_columns row))"
  have f: "parse_csv_line ?line = md_columns row"
    by (rule csv_line.dec_enc) (simp add: md_columns_def md_fields_def)
  have ne: "?line \<noteq> []"
    using f by (auto simp: md_columns_def md_fields_def parse_csv_line_def)
  have c: "length (md_columns row) = 9" "md_columns row ! 0 = show_int (tsec (md_recv row))"
      "md_columns row ! 1 = show_int (tnsec (md_recv row))" "md_columns row ! 3 = kind_to_string (md_kind row)"
      "md_columns row ! 5 = show_u64 (md_epoch row)" "md_columns row ! 7 = md_symbol row" "md_columns row ! 8 = md_payload row"
    by (simp_all add: md_columns_def md_fields_def)
  have n: "atoll (show_int (tsec (md_recv row))) = tsec (md_recv row)" "atoi (show_int (tnsec (md_recv row))) = tnsec (md_recv row)"
      "strtoull (show_u64 (md_epoch row)) = md_epoch row"
    using assms by (simp_all add: md_ok_def ts_in_range_def i64_text.dec_enc i32_text.dec_enc u64_text.dec_enc)
  have t: "\<lparr>tsec = tsec (md_recv row), tnsec = tnsec (md_recv row)\<rparr> = md_recv row" by simp
  show ?thesis
    unfolding replay_line_def Let_def f c n t
    by (cases "map_of (rp_syms rp) (md_symbol row)") (simp_all add: ne replay_row_def rsym_def Let_def split: prod.split)
qed

lemma replay_lines_rows:
  "list_all md_ok rows \<Longrightarrow>
   replay_lines cfg True (\<lambda>_. True) rp (map (\<lambda>r. commas (map csv_escape (md_columns r))) rows) = Inr (foldl (replay_row cfg) rp rows)"
  by (induction rows arbitrary: rp) (simp_all add: replay_line_row)

text \<open>The sidecar gives the queues of parsed snapshots.\<close>

definition snap_event :: "SnapRow \<Rightarrow> DepthEvent" where
  "snap_event r = snd (parse_depth (sn_raw r) new_DepthEvent)"

definition snaps_for :: "SnapRow list \<Rightarrow> string \<Rightarrow> DepthEvent list" where
  "snaps_for rows s = map snap_event (filter (\<lambda>r. sn_symbol r = s) rows)"

lemma queue_of_update: "queue_of (AList.update s q snaps) t = (if t = s then q else queue_of snaps t)"
  by (auto simp: queue_of_def update_conv')

lemma sidecar_line_row:
  assumes "fst (parse_depth (sn_raw r) new_DepthEvent)"
  shows "queue_of (fst (sidecar_line (snaps, m) (commas (map csv_escape (snap_columns r))))) t =
    queue_of snaps t @ snaps_for [r] t \<and> snd (sidecar_line (snaps, m) (commas (map csv_escape (snap_columns r)))) = m"
proof -
  let ?line = "commas (map csv_escape (snap_columns r))"
  have f: "parse_csv_line ?line = snap_columns r"
    by (rule csv_line.dec_enc) (simp add: snap_columns_def)
  have ne: "?line \<noteq> []"
    using f by (auto simp: snap_columns_def parse_csv_line_def)
  obtain ev where ev: "parse_depth (sn_raw r) new_DepthEvent = (True, ev)"
    using assms by (cases "parse_depth (sn_raw r) new_DepthEvent") simp
  have c: "length (snap_columns r) = 5" "snap_columns r ! 2 = sn_symbol r" "snap_columns r ! 4 = sn_raw r"
    by (simp_all add: snap_columns_def)
  show ?thesis
    unfolding sidecar_line_def prod.case Let_def f c
    using ne ev by (simp add: queue_of_update snaps_for_def snap_event_def)
qed

lemma sidecar_lines_rows:
  assumes "list_all (\<lambda>r. fst (parse_depth (sn_raw r) new_DepthEvent)) rows"
    and "foldl sidecar_line (snaps, m) (map (\<lambda>r. commas (map csv_escape (snap_columns r))) rows) = (snaps', m')"
  shows "queue_of snaps' t = queue_of snaps t @ snaps_for rows t \<and> m' = m"
  using assms
proof (induction rows arbitrary: snaps)
  case (Cons r rows)
  obtain sn1 m1 where l: "sidecar_line (snaps, m) (commas (map csv_escape (snap_columns r))) = (sn1, m1)"
    by (metis surj_pair)
  have one: "queue_of sn1 t = queue_of snaps t @ snaps_for [r] t" "m1 = m"
    using sidecar_line_row [of r snaps m t] Cons.prems(1) l by simp_all
  show ?case
    using Cons.IH [of sn1] Cons.prems one l by (simp add: snaps_for_def)
qed (simp add: snaps_for_def)


section \<open>The simulation, symbol by symbol\<close>

text \<open>The replayed symbol is where the live one is.  The epoch before the first message is a marker
  value in the live code and a missing map entry in the replay.\<close>

definition same_sym :: "SymState \<Rightarrow> RSym \<Rightarrow> bool" where
  "same_sym st r \<longleftrightarrow> rs_book r = ss_sess st \<and> rs_rows r = ss_rows st \<and> rs_seq r = ss_seq st \<and>
     rs_epoch r = (if ss_last_epoch st = UINT64_MAX then None else Some (ss_last_epoch st))"

text \<open>The snapshot request for the symbol is answered, with a body that parses and has no line break.\<close>

definition fetches :: "Config \<Rightarrow> Env \<Rightarrow> string \<Rightarrow> bool" where
  "fetches cfg env s =
     (let x = env_http env (snapshot_host (cfg_venue cfg))
                (snapshot_path (cfg_venue cfg) s (if cfg_venue cfg = Spot then 5000 else 1000))
      in answered x \<and> fst (parse_depth (hx_body x) new_DepthEvent) \<and> CHR 0x0A \<notin> set (hx_body x))"

definition good_snap :: "Env \<Rightarrow> string \<Rightarrow> SnapRow \<Rightarrow> bool" where
  "good_snap env s r \<longleftrightarrow> sn_time r = env_snap_now env \<and> sn_symbol r = s \<and>
     fst (parse_depth (sn_raw r) new_DepthEvent) \<and> CHR 0x0A \<notin> set (sn_raw r)"

lemma same_sym_new: "same_sym (new_SymState v s) (new_RSym v s)"
  by (simp add: same_sym_def new_SymState_def new_RSym_def)

lemma same_sym_scratch [simp]: "same_sym (st\<lparr>ss_scratch := ev\<rparr>) r \<longleftrightarrow> same_sym st r"
  by (simp add: same_sym_def)

lemma same_epoch: "same_sym st r \<Longrightarrow> e \<noteq> UINT64_MAX \<Longrightarrow> same_sym (check_epoch st e) (replay_epoch r e)"
  by (auto simp: same_sym_def check_epoch_def replay_epoch_def)

lemma same_emit:
  "same_sym st r \<Longrightarrow> same_sym (fst (emit_book_row ts c st m)) (fst (replay_emit ts c r m'))"
  by (simp add: same_sym_def emit_book_row_def replay_emit_def)

lemma emit_replayed_any_metrics:
  "foldl emit_replayed (n, rows, m) calls = (n', rows', m1) \<Longrightarrow>
   \<exists>m2. foldl emit_replayed (n, rows, m') calls = (n', rows', m2)"
proof (induction calls arbitrary: n rows m m')
  case (Cons c calls)
  then show ?case by (cases c) simp
qed simp

lemma same_resync:
  assumes "same_sym st r" "fetches cfg env s" "resync cfg env st s m snaps = (st', m', snaps')"
  shows "\<exists>sn. snaps' = snaps @ [sn] \<and> good_snap env s sn \<and>
    (\<forall>rest mr. \<exists>r' mr'. seed_from_sidecar r (snap_event sn # rest) mr = (r', rest, mr') \<and> same_sym st' r')"
proof -
  let ?limit = "if cfg_venue cfg = Spot then 5000 else 1000 :: int"
  let ?x = "env_http env (snapshot_host (cfg_venue cfg)) (snapshot_path (cfg_venue cfg) s ?limit)"
  obtain raw snap where raw: "answered ?x" "raw = hx_body ?x" "parse_depth raw new_DepthEvent = (True, snap)" "CHR 0x0A \<notin> set raw"
    using assms(2) by (cases "parse_depth (hx_body ?x) new_DepthEvent") (auto simp: fetches_def Let_def)
  have f: "fetch_depth_snapshot (env_http env) (cfg_venue cfg) s ?limit new_DepthEvent [] [] = (True, snap, [], raw)"
    using raw fetch_ok_iff by blast
  obtain sess applied calls where o': "on_snapshot (ss_sess st) (ev_bids snap) (ev_asks snap) (ev_lastUpdateId snap) =
      (sess, applied, calls)"
    by (metis prod_cases3)
  obtain n rows m1 where e: "foldl emit_replayed (ss_seq st, ss_rows st, m) calls = (n, rows, m1)"
    by (metis prod_cases3)
  let ?sn = "\<lparr>sn_time = env_snap_now env, sn_symbol = s, sn_last_update_id = ev_lastUpdateId snap, sn_raw = raw\<rparr>"
  have res: "st' = st\<lparr>ss_sess := sess, ss_seq := n, ss_rows := rows\<rparr>" "snaps' = snaps @ [?sn]"
    using assms(3) f o' e by (auto simp: resync_def Let_def)
  have "\<exists>r' mr'. seed_from_sidecar r (snap_event ?sn # rest) mr = (r', rest, mr') \<and> same_sym st' r'" for rest mr
  proof -
    obtain m2 where "foldl emit_replayed (ss_seq st, ss_rows st, mr) calls = (n, rows, m2)"
      using emit_replayed_any_metrics [OF e] by blast
    then show ?thesis
      using assms(1) o' by (simp add: seed_from_sidecar_def snap_event_def raw(3) same_sym_def res(1))
  qed
  moreover have "good_snap env s ?sn"
    using raw by (simp add: good_snap_def)
  ultimately show ?thesis
    using res(2) by blast
qed


lemma same_handle_diff:
  assumes sym: "same_sym st r" and h: "handle_kind cfg env DepthDiff ts s st m snaps = (st', m', snaps')"
    and fetch: "fetches cfg env s"
    and p: "parse_depth data new_DepthEvent = (True, ev)" "ss_scratch st = ev\<lparr>ev_applied_time := ts\<rparr>"
  shows "\<exists>new. snaps' = snaps @ new \<and> list_all (good_snap env s) new \<and>
    (\<forall>rest mr. \<exists>r' mr'. replay_kind (cfg_integrate_trades cfg) True (kind_to_string DepthDiff) ts data r
       (map snap_event new @ rest) mr = (r', rest, mr') \<and> same_sym st' r')"
proof -
  obtain sess o' where d: "on_diff (ss_sess st) (ev\<lparr>ev_applied_time := ts\<rparr>) = (sess, o')"
    by (metis surj_pair)
  have book: "rs_book r = ss_sess st" using sym by (simp add: same_sym_def)
  let ?st1 = "st\<lparr>ss_sess := sess\<rparr>" and ?r1 = "r\<lparr>rs_scratch := ev\<lparr>ev_applied_time := ts\<rparr>, rs_book := sess\<rparr>"
  have sym1: "same_sym ?st1 ?r1" using sym by (simp add: same_sym_def)
  show ?thesis
  proof (cases rule: diff_cases [where o' = o' and sess = sess])
    case app
    let ?m1 = "m\<lparr>mx_msgs_depth_diff := mx_msgs_depth_diff m + 1\<rparr>"
    have st': "st' = fst (emit_book_row ts (CHR ''D'') ?st1 ?m1)" "snaps' = snaps"
      using h p d app by (auto simp: handle_kind_def Let_def split: prod.splits)
    show ?thesis
      using same_emit [OF sym1, of ts "CHR ''D''" ?m1] app
      by (auto simp: st' replay_kind_def reset_depth_event_fresh p d book Let_def split: prod.split
          intro!: exI [of _ "[]"]) (metis fst_conv)
  next
    case sync
    obtain m2 where "resync cfg env ?st1 s m2 snaps = (st', m', snaps')"
      using h p d sync by (simp add: handle_kind_def Let_def)
    from same_resync [OF sym1 fetch this] obtain sn where sn: "snaps' = snaps @ [sn]" "good_snap env s sn"
      and seed: "\<And>rest mr. \<exists>r' mr'. seed_from_sidecar ?r1 (snap_event sn # rest) mr = (r', rest, mr') \<and> same_sym st' r'"
      by blast
    show ?thesis
    proof (rule exI [of _ "[sn]"], intro conjI allI)
      show "snaps' = snaps @ [sn]" "list_all (good_snap env s) [sn]" using sn by simp_all
      show "\<exists>r' mr'. replay_kind (cfg_integrate_trades cfg) True (kind_to_string DepthDiff) ts data r
          (map snap_event [sn] @ rest) mr = (r', rest, mr') \<and> same_sym st' r'" for rest mr
        using seed [of rest] sync
        by (simp add: replay_kind_def reset_depth_event_fresh p d book Let_def)
    qed
  next
    case quiet
    have "st' = ?st1" "snaps' = snaps"
      using h p d quiet by (auto simp: handle_kind_def Let_def split: if_splits)
    then show ?thesis
      using sym1 quiet
      by (auto simp: replay_kind_def reset_depth_event_fresh p d book Let_def intro!: exI [of _ "[]"])
  qed
qed

lemma same_handle:
  assumes sym: "same_sym st r" and h: "handle_kind cfg env kind ts s st m snaps = (st', m', snaps')"
    and fetch: "kind = DepthDiff \<Longrightarrow> fetches cfg env s"
    and parsed: "kind \<noteq> Trade \<Longrightarrow> parse_depth data new_DepthEvent = (True, ev) \<and> ss_scratch st = ev\<lparr>ev_applied_time := ts\<rparr>"
  shows "\<exists>new. snaps' = snaps @ new \<and> list_all (good_snap env s) new \<and>
    (\<forall>rest mr. \<exists>r' mr'. replay_kind (cfg_integrate_trades cfg) True (kind_to_string kind) ts data r
       (map snap_event new @ rest) mr = (r', rest, mr') \<and> same_sym st' r')"
proof (cases kind)
  case DepthDiff
  with h fetch parsed show ?thesis
    using same_handle_diff [OF sym, of cfg env ts s m snaps st' m' snaps' data ev] by simp
next
  case Depth5
  then show ?thesis
    using parsed h sym
    by (auto simp: handle_kind_def replay_kind_def reset_depth_event_fresh same_sym_def Let_def
        intro!: exI [of _ "[]"])
next
  case Trade
  then have "st' = (if cfg_integrate_trades cfg then fst (emit_book_row ts (CHR ''T'') st
        (m\<lparr>mx_msgs_trade := mx_msgs_trade m + 1\<rparr>)) else st)" "snaps' = snaps"
    using h by (auto simp: handle_kind_def Let_def split: prod.splits if_splits)
  then show ?thesis
    using same_emit [OF sym, of ts "CHR ''T''" "m\<lparr>mx_msgs_trade := mx_msgs_trade m + 1\<rparr>"] Trade sym
    by (auto simp: replay_kind_def Let_def split: prod.split intro!: exI [of _ "[]"]) (metis fst_conv)
qed


section \<open>The simulation of a shard\<close>

text \<open>
  A message that leaves a faithful capture: what is recorded has no line break, and for a symbol of
  the shard a depth payload parses and a snapshot that may be requested arrives.  Frames that are no
  envelopes and messages for other symbols are allowed.
\<close>

definition good_delivery :: "Config \<Rightarrow> string list \<Rightarrow> delivery \<Rightarrow> bool" where
  "good_delivery cfg syms d =
     (case d of (env, frame, conn_epoch, conn_seq) \<Rightarrow>
        (case split_envelope frame [] [] of
           (ok, stream, data) \<Rightarrow>
             if \<not> ok then True
             else let s = stream_symbol stream; kind = classify_stream stream
               in conn_epoch \<noteq> UINT64_MAX \<and> ts_in_range (env_now env) \<and> ts_in_range (env_snap_now env) \<and>
                  \<not> needs_quote s \<and> CHR 0x0A \<notin> set data \<and>
                  (if s \<in> set syms then
                     (if kind = Trade then True else fst (parse_depth data new_DepthEvent)) \<and>
                     (if kind = DepthDiff then fetches cfg env s else True)
                   else True)))"

definition sim :: "Config \<Rightarrow> Shard \<Rightarrow> ReplayState \<Rightarrow> SnapRow list \<Rightarrow> bool" where
  "sim cfg sh rp pending \<longleftrightarrow>
     (\<forall>s st. map_of (sh_syms sh) s = Some st \<longrightarrow>
        same_sym st (rsym cfg rp s) \<and> queue_of (rp_snaps rp) s = snaps_for pending s)"

lemma snaps_for_append: "snaps_for (xs @ ys) s = snaps_for xs s @ snaps_for ys s"
  by (simp add: snaps_for_def)

lemma snaps_for_own: "list_all (good_snap env s) new \<Longrightarrow> snaps_for new t = (if t = s then map snap_event new else [])"
  by (induction new) (auto simp: snaps_for_def good_snap_def)

lemma rsym_update: "rsym cfg (rp\<lparr>rp_syms := AList.update s r (rp_syms rp), rp_snaps := sn, rp_metrics := m\<rparr>) t =
    (if t = s then r else rsym cfg rp t)"
  by (simp add: rsym_def update_conv')

lemma replay_row_other:
  "t \<noteq> md_symbol row \<Longrightarrow> rsym cfg (replay_row cfg rp row) t = rsym cfg rp t \<and>
     queue_of (rp_snaps (replay_row cfg rp row)) t = queue_of (rp_snaps rp) t"
  by (simp add: replay_row_def Let_def rsym_update queue_of_update split: prod.split)

lemma stamp_parsed:
  assumes "kind \<noteq> Trade \<Longrightarrow> parse_depth data new_DepthEvent = (True, ev)"
    and "stamp_message cfg recv kind (Some st) data = (ts, parsed, failed)"
  shows "\<not> failed \<and> parsed = (if kind = Trade then None else Some (ev\<lparr>ev_applied_time := ts\<rparr>))"
  using assms by (cases kind) (auto simp: stamp_message_def reset_depth_event_fresh Let_def)

lemma good_deliveryD:
  assumes "good_delivery cfg syms (env, frame, e, q)" "split_envelope frame [] [] = (True, stream, data)"
  shows "e \<noteq> UINT64_MAX" "ts_in_range (env_now env)" "ts_in_range (env_snap_now env)"
    "\<not> needs_quote (stream_symbol stream)" "CHR 0x0A \<notin> set data"
    "stream_symbol stream \<in> set syms \<Longrightarrow> classify_stream stream = DepthDiff \<Longrightarrow> fetches cfg env (stream_symbol stream)"
    "stream_symbol stream \<in> set syms \<Longrightarrow> classify_stream stream \<noteq> Trade \<Longrightarrow> fst (parse_depth data new_DepthEvent)"
  using assms by (simp_all add: good_delivery_def Let_def split: if_splits)

text \<open>A replay state for a live one.\<close>

definition mirror :: "SymState \<Rightarrow> RSym" where
  "mirror st = \<lparr>rs_book = ss_sess st, rs_rows = ss_rows st, rs_seq = ss_seq st, rs_scratch = ss_scratch st,
     rs_epoch = (if ss_last_epoch st = UINT64_MAX then None else Some (ss_last_epoch st))\<rparr>"

lemma same_mirror: "same_sym st (mirror st)"
  by (simp add: same_sym_def mirror_def)

lemma sim_known:
  assumes sp: "split_envelope frame [] [] = (True, stream, data)" and look: "map_of (sh_syms sh) (stream_symbol stream) = Some st0"
    and st: "stamp_message cfg (env_now env) (classify_stream stream) (Some st0) data = (ts, parsed, failed)"
    and e: "e \<noteq> UINT64_MAX"
    and fe: "classify_stream stream = DepthDiff \<Longrightarrow> fetches cfg env (stream_symbol stream)"
    and ev: "classify_stream stream \<noteq> Trade \<Longrightarrow> parse_depth data new_DepthEvent = (True, ev)"
    and row: "md_recv row = ts" "md_kind row = classify_stream stream" "md_epoch row = e" "md_symbol row = stream_symbol stream"
      "md_payload row = data"
    and sh'_def: "sh' = handler cfg shard_id env sh frame e q"
  shows "\<exists>new st2. sh_snaps sh' = sh_snaps sh @ new \<and> list_all (good_snap env (stream_symbol stream)) new \<and>
    sh_syms sh' = AList.update (stream_symbol stream) st2 (sh_syms sh) \<and>
    (\<forall>rp rest. sim cfg sh rp (new @ rest) \<longrightarrow> sim cfg sh' (replay_row cfg rp row) rest)"
proof -
  let ?s = "stream_symbol stream" and ?kind = "classify_stream stream"
  have p: "\<not> failed" "parsed = (if ?kind = Trade then None else Some (ev\<lparr>ev_applied_time := ts\<rparr>))"
    using stamp_parsed [OF ev st] by simp_all
  define st1 where "st1 = (case parsed of None \<Rightarrow> st0 | Some ev \<Rightarrow> st0\<lparr>ss_scratch := ev\<rparr>)"
  obtain m1 m2 st2 snaps where h: "handle_kind cfg env ?kind ts ?s (check_epoch st1 e) m1 (sh_snaps sh) = (st2, m2, snaps)"
    and sh': "sh_snaps sh' = snaps" "sh_syms sh' = AList.update ?s st2 (sh_syms sh)"
    using handler_known [OF sp look _ st1_def, of cfg env ts e shard_id q] st p(1) unfolding sh'_def by auto
  have "?kind \<noteq> Trade \<Longrightarrow> ss_scratch (check_epoch st1 e) = ev\<lparr>ev_applied_time := ts\<rparr>"
    by (simp add: check_epoch_def st1_def p(2))
  then have hk: "\<exists>new. snaps = sh_snaps sh @ new \<and> list_all (good_snap env ?s) new \<and>
      (\<forall>rest mr. \<exists>r' mr'. replay_kind (cfg_integrate_trades cfg) True (kind_to_string ?kind) ts data r
         (map snap_event new @ rest) mr = (r', rest, mr') \<and> same_sym st2 r')" if "same_sym (check_epoch st1 e) r" for r
    using same_handle [OF that h fe, of data ev] ev by simp
  obtain new where new: "snaps = sh_snaps sh @ new" "list_all (good_snap env ?s) new"
    using hk [OF same_mirror] by blast
  have "sim cfg sh' (replay_row cfg rp row) rest" if s: "sim cfg sh rp (new @ rest)" for rp rest
  proof -
    have "same_sym st0 (rsym cfg rp ?s)" and que: "queue_of (rp_snaps rp) ?s = map snap_event new @ snaps_for rest ?s"
      using s look by (auto simp: sim_def snaps_for_append snaps_for_own [OF new(2)])
    then have "same_sym (check_epoch st1 e) (replay_epoch (rsym cfg rp ?s) e)"
      by (intro same_epoch [OF _ e]) (simp add: st1_def split: option.split)
    then obtain r' mr' where r': "replay_kind (cfg_integrate_trades cfg) True (kind_to_string ?kind) ts data
        (replay_epoch (rsym cfg rp ?s) e) (map snap_event new @ snaps_for rest ?s)
        ((rp_metrics rp)\<lparr>mx_msgs_total := mx_msgs_total (rp_metrics rp) + 1\<rparr>) = (r', snaps_for rest ?s, mr')" "same_sym st2 r'"
      using hk new(1) by (metis same_append_eq)
    have own: "rsym cfg (replay_row cfg rp row) ?s = r' \<and> queue_of (rp_snaps (replay_row cfg rp row)) ?s = snaps_for rest ?s"
      using r'(1) by (simp add: replay_row_def row que Let_def rsym_update queue_of_update)
    show ?thesis
      unfolding sim_def
    proof (intro allI impI)
      fix t st
      assume t: "map_of (sh_syms sh') t = Some st"
      show "same_sym st (rsym cfg (replay_row cfg rp row) t) \<and> queue_of (rp_snaps (replay_row cfg rp row)) t = snaps_for rest t"
      proof (cases "t = ?s")
        case True
        then show ?thesis using t own r'(2) by (simp add: sh'(2) update_conv')
      next
        case False
        then show ?thesis
          using t s replay_row_other [of t row cfg rp] row(4)
          by (simp add: sh'(2) update_conv' sim_def snaps_for_append snaps_for_own [OF new(2)])
      qed
    qed
  qed
  then show ?thesis
    using new sh' by blast
qed


lemma sim_handler:
  assumes sp: "split_envelope frame [] [] = (True, stream, data)"
    and good: "good_delivery cfg syms (env, frame, e, q)" "in_i32 shard_id" "fst ` set (sh_syms sh) = set syms"
    and sh'_def: "sh' = handler cfg shard_id env sh frame e q"
  shows "\<exists>row new. sh_md sh' = sh_md sh @ [row] \<and> md_ok row \<and> sh_snaps sh' = sh_snaps sh @ new \<and>
    list_all (\<lambda>r. snap_ok r \<and> fst (parse_depth (sn_raw r) new_DepthEvent)) new \<and> fst ` set (sh_syms sh') = set syms \<and>
    (\<forall>rp rest. sim cfg sh rp (new @ rest) \<longrightarrow> sim cfg sh' (replay_row cfg rp row) rest)"
proof -
  let ?s = "stream_symbol stream" and ?kind = "classify_stream stream"
  obtain ts parsed failed where st: "stamp_message cfg (env_now env) ?kind (map_of (sh_syms sh) ?s) data = (ts, parsed, failed)"
    by (metis prod_cases3)
  define row where "row = \<lparr>md_recv = ts, md_venue = cfg_venue cfg, md_kind = ?kind, md_shard = shard_id,
      md_epoch = e, md_seq = q, md_symbol = ?s, md_payload = data\<rparr>"
  note g = good_deliveryD [OF good(1) sp]
  have row: "md_ok row" "sh_md sh' = sh_md sh @ [row]"
    using g(2,4,5) good(2) stamp_in_range [OF _ st] handler_row [OF sp st]
    by (simp_all add: md_ok_def row_def sh'_def)
  show ?thesis
  proof (cases "map_of (sh_syms sh) ?s")
    case None
    note sh' = handler_unknown [OF sp None, of cfg shard_id env e q, folded sh'_def]
    have "sim cfg sh' (replay_row cfg rp row) rest" if s: "sim cfg sh rp rest" for rp rest
      unfolding sim_def sh'
    proof (intro allI impI)
      fix t st
      assume t: "map_of (sh_syms sh) t = Some st"
      then have "t \<noteq> md_symbol row" using None by (auto simp: row_def)
      with t s replay_row_other [of t row cfg rp]
      show "same_sym st (rsym cfg (replay_row cfg rp row) t) \<and> queue_of (rp_snaps (replay_row cfg rp row)) t = snaps_for rest t"
        by (simp add: sim_def)
    qed
    then show ?thesis
      using row sh' good(3) by (intro exI [of _ row] exI [of _ "[]"]) simp
  next
    case (Some st0)
    have known: "?s \<in> set syms"
      using Some good(3) by (metis map_of_eq_None_iff option.distinct(1))
    obtain ev where ev: "?kind \<noteq> Trade \<Longrightarrow> parse_depth data new_DepthEvent = (True, ev)"
      using g(7) [OF known] by (cases "parse_depth data new_DepthEvent") auto
    obtain new st2 where new: "sh_snaps sh' = sh_snaps sh @ new" "list_all (good_snap env ?s) new"
        "sh_syms sh' = AList.update ?s st2 (sh_syms sh)"
      and sim: "\<forall>rp rest. sim cfg sh rp (new @ rest) \<longrightarrow> sim cfg sh' (replay_row cfg rp row) rest"
      using sim_known [OF sp Some _ g(1) g(6) [OF known] ev, of ts parsed failed row sh' shard_id q] st Some
      by (auto simp: row_def sh'_def)
    have "list_all (\<lambda>r. snap_ok r \<and> fst (parse_depth (sn_raw r) new_DepthEvent)) new"
      using new(2) g(3,4) by (auto simp: list_all_iff good_snap_def snap_ok_def)
    moreover have "fst ` set (sh_syms sh') = set syms"
      using known good(3) by (simp add: new(3) dom_update insert_absorb)
    ultimately show ?thesis
      using row new(1) sim by blast
  qed
qed

text \<open>The run: what the shard records drives the replay along.\<close>

lemma sim_run:
  assumes "list_all (good_delivery cfg syms) ds" "in_i32 shard_id" "fst ` set (sh_syms sh) = set syms"
    and "sh' = foldl (deliver cfg shard_id) sh ds"
  shows "\<exists>rows new. sh_md sh' = sh_md sh @ rows \<and> list_all md_ok rows \<and> sh_snaps sh' = sh_snaps sh @ new \<and>
    list_all (\<lambda>r. snap_ok r \<and> fst (parse_depth (sn_raw r) new_DepthEvent)) new \<and> fst ` set (sh_syms sh') = set syms \<and>
    (\<forall>rp rest. sim cfg sh rp (new @ rest) \<longrightarrow> sim cfg sh' (foldl (replay_row cfg) rp rows) rest)"
  using assms
proof (induction ds arbitrary: sh)
  case Nil
  then show ?case by simp
next
  case (Cons d ds)
  obtain env frame e q where d: "d = (env, frame, e, q)" by (metis prod_cases4)
  obtain ok stream data where sp: "split_envelope frame [] [] = (ok, stream, data)" by (metis prod_cases3)
  let ?sh1 = "handler cfg shard_id env sh frame e q"
  have "\<exists>rows new. sh_md ?sh1 = sh_md sh @ rows \<and> list_all md_ok rows \<and> sh_snaps ?sh1 = sh_snaps sh @ new \<and>
      list_all (\<lambda>r. snap_ok r \<and> fst (parse_depth (sn_raw r) new_DepthEvent)) new \<and> fst ` set (sh_syms ?sh1) = set syms \<and>
      (\<forall>rp rest. sim cfg sh rp (new @ rest) \<longrightarrow> sim cfg ?sh1 (foldl (replay_row cfg) rp rows) rest)"
  proof (cases ok)
    case False
    then show ?thesis
      using Cons.prems(3) sp by (intro exI [of _ "[]"]) (simp add: handler_def sim_def)
  next
    case True
    with sp sim_handler [of frame stream data cfg syms env e q shard_id sh ?sh1] Cons.prems(1-3) d
    obtain row new where "sh_md ?sh1 = sh_md sh @ [row] \<and> md_ok row \<and> sh_snaps ?sh1 = sh_snaps sh @ new \<and>
      list_all (\<lambda>r. snap_ok r \<and> fst (parse_depth (sn_raw r) new_DepthEvent)) new \<and> fst ` set (sh_syms ?sh1) = set syms \<and>
      (\<forall>rp rest. sim cfg sh rp (new @ rest) \<longrightarrow> sim cfg ?sh1 (replay_row cfg rp row) rest)" by auto
    then show ?thesis by (intro exI [of _ "[row]"] exI [of _ new]) simp
  qed
  then obtain rows1 new1 where one: "sh_md ?sh1 = sh_md sh @ rows1" "list_all md_ok rows1" "sh_snaps ?sh1 = sh_snaps sh @ new1"
      "list_all (\<lambda>r. snap_ok r \<and> fst (parse_depth (sn_raw r) new_DepthEvent)) new1" "fst ` set (sh_syms ?sh1) = set syms"
      "\<And>rp rest. sim cfg sh rp (new1 @ rest) \<Longrightarrow> sim cfg ?sh1 (foldl (replay_row cfg) rp rows1) rest"
    by blast
  obtain rows2 new2 where two: "sh_md sh' = sh_md ?sh1 @ rows2" "list_all md_ok rows2" "sh_snaps sh' = sh_snaps ?sh1 @ new2"
      "list_all (\<lambda>r. snap_ok r \<and> fst (parse_depth (sn_raw r) new_DepthEvent)) new2" "fst ` set (sh_syms sh') = set syms"
      "\<And>rp rest. sim cfg ?sh1 rp (new2 @ rest) \<Longrightarrow> sim cfg sh' (foldl (replay_row cfg) rp rows2) rest"
    using Cons.IH [OF _ Cons.prems(2) one(5)] Cons.prems(1,4) d by auto
  show ?case
    using one two by (intro exI [of _ "rows1 @ rows2"] exI [of _ "new1 @ new2"]) simp
qed


section \<open>Properties\<close>

lemma sidecar_path_other: "sidecar_path f \<noteq> f"
proof
  assume "sidecar_path f = f"
  then have "length (sidecar_path f) = length f" by simp
  then show False by (simp add: sidecar_path_def Let_def split: if_splits)
qed

lemma sim_new: "(\<And>s. queue_of snaps s = snaps_for rows s) \<Longrightarrow>
    sim cfg (new_Shard cfg syms m) \<lparr>rp_syms = [], rp_snaps = snaps, rp_metrics = m'\<rparr> rows"
  by (auto simp: sim_def new_Shard_def rsym_def same_sym_new dest!: map_of_SomeD)

lemma rsym_input [simp]: "rsym (cfg\<lparr>cfg_replay_input := input\<rparr>) = rsym cfg"
  by (intro ext) (simp add: rsym_def cong: option.case_cong)

lemma replay_row_input [simp]: "replay_row (cfg\<lparr>cfg_replay_input := input\<rparr>) = replay_row cfg"
  by (intro ext) (simp add: replay_row_def)

lemma header_lines: "CHR 0x0A \<notin> set md_header" "CHR 0x0A \<notin> set snap_header"
  by (simp_all add: md_header_def snap_header_def)

lemma sim_rows:
  assumes "sim cfg sh rp pending" "distinct (map fst (sh_syms sh))" "(s, st) \<in> set (sh_syms sh)"
  shows "replayed_rows rp s = ss_rows st"
proof -
  have "same_sym st (rsym cfg rp s)"
    using assms map_of_is_SomeI by (fastforce simp: sim_def)
  then show ?thesis
    by (auto simp: same_sym_def rsym_def replayed_rows_def new_RSym_def split: option.splits)
qed

lemma replay_of_capture:
  assumes ds: "list_all (good_delivery cfg syms) ds" "in_i32 shard_id"
    and sh: "sh = foldl (deliver cfg shard_id) (new_Shard cfg (dedup syms) new_Metrics) ds"
  shows "\<exists>md_text snap_text rp. md_file sh = Some md_text \<and> snap_file sh = Some snap_text \<and>
    run_replay (cfg\<lparr>cfg_replay_input := input\<rparr>) [input \<mapsto> md_text, sidecar_path input \<mapsto> snap_text] (\<lambda>_. True) m = Inr rp \<and>
    list_all (\<lambda>(s, st). replayed_rows rp s = ss_rows st) (sh_syms sh)"
proof -
  have dom: "fst ` set (sh_syms (new_Shard cfg (dedup syms) new_Metrics)) = set syms"
    by (simp add: new_Shard_def image_image)
  obtain rows new where run: "sh_md sh = rows" "list_all md_ok rows" "sh_snaps sh = new"
      "list_all (\<lambda>r. snap_ok r \<and> fst (parse_depth (sn_raw r) new_DepthEvent)) new"
    and sim: "\<And>rp. sim cfg (new_Shard cfg (dedup syms) new_Metrics) rp new \<Longrightarrow> sim cfg sh (foldl (replay_row cfg) rp rows) []"
    using sim_run [OF ds dom sh] by (force simp: new_Shard_def)
  have new: "list_all snap_ok new" "list_all (\<lambda>r. fst (parse_depth (sn_raw r) new_DepthEvent)) new"
    using run(4) by (auto simp: list_all_iff)
  obtain md_text where md: "md_file sh = Some md_text"
      "getlines md_text = md_header # map (\<lambda>r. commas (map csv_escape (md_columns r))) rows"
    using file_of_lines [where ok = md_ok and show_row = md_row_text and cols = md_columns, OF _ run(2) md_row_line md_no_break]
      header_lines(1) unfolding md_file_def run(1) by blast
  obtain snap_text where sn: "snap_file sh = Some snap_text"
      "getlines snap_text = snap_header # map (\<lambda>r. commas (map csv_escape (snap_columns r))) new"
    using file_of_lines [where ok = snap_ok and show_row = snap_row_text and cols = snap_columns, OF _ new(1) snap_row_line snap_no_break]
      header_lines(2) unfolding snap_file_def run(3) by blast
  obtain snaps m1 where l: "load_sidecar snap_text m = (snaps, m1)" by (metis surj_pair)
  have q: "queue_of snaps t = snaps_for new t" for t
    using sidecar_lines_rows [OF new(2), of "[]" m snaps m1 t] l by (simp add: load_sidecar_def sn(2) queue_of_def)
  define rp where "rp = foldl (replay_row cfg) \<lparr>rp_syms = [], rp_snaps = snaps, rp_metrics = m1\<rparr> rows"
  have rp: "run_replay (cfg\<lparr>cfg_replay_input := input\<rparr>) [input \<mapsto> md_text, sidecar_path input \<mapsto> snap_text] (\<lambda>_. True) m = Inr rp"
    using sidecar_path_other [of input] by (simp add: run_replay_def l md(2) replay_lines_rows [OF run(2)] rp_def)
  have "sim cfg sh rp []"
    unfolding rp_def by (rule sim) (rule sim_new [OF q])
  moreover have "distinct (map fst (sh_syms sh))"
    using shard_run.inv_run [where cfg = cfg and syms = syms and shard_id = shard_id and es = ds]
    by (simp add: sh shard_inv_def syms_inv_def)
  ultimately have "list_all (\<lambda>(s, st). replayed_rows rp s = ss_rows st) (sh_syms sh)"
    by (auto simp: list_all_iff dest: sim_rows)
  with md(1) sn(1) rp show ?thesis by blast
qed


text \<open>
  C3: The replay reproduces the live order-book files.  After any run of a shard over messages that
  leave a faithful capture (in any interleaving of symbols and streams, with reconnects, gaps and
  resynchronisations, under both timestamp policies), the audit file and the snapshot sidecar can be
  written, and the replay program, reading these two texts back, ends without error and has for
  every symbol exactly the rows, with timestamps, numbers, types and levels, that the live run
  wrote.
\<close>

theorem replay_reproduces_live:
  assumes "list_all (good_delivery cfg syms) ds" "in_i32 shard_id"
  shows "let sh = foldl (deliver cfg shard_id) (new_Shard cfg (dedup syms) new_Metrics) ds
    in \<exists>md_text snap_text rp. md_file sh = Some md_text \<and> snap_file sh = Some snap_text \<and>
      run_replay (cfg\<lparr>cfg_replay_input := input\<rparr>) [input \<mapsto> md_text, sidecar_path input \<mapsto> snap_text] (\<lambda>_. True) m = Inr rp \<and>
      list_all (\<lambda>(s, st). replayed_rows rp s = ss_rows st) (sh_syms sh)"
  unfolding Let_def by (rule replay_of_capture [OF assms refl])

lemma good_frame:
  assumes "no_quote s" "object_text data" "CHR ''@'' \<notin> set s" "map toupper s = s"
    and "e \<noteq> UINT64_MAX" "ts_in_range (env_now env)" "ts_in_range (env_snap_now env)" "\<not> needs_quote s" "CHR 0x0A \<notin> set data"
    and "k = Trade \<or> fst (parse_depth data new_DepthEvent)" "k = DepthDiff \<Longrightarrow> fetches cfg env s"
  shows "good_delivery cfg syms (env, frame_of (stream_name s k) data, e, q)"
  using assms split_stream_frame [OF assms(1,2), of k] stream_name_parts [OF assms(3,4), of k]
  by (auto simp: good_delivery_def Let_def)

definition sample_snapshot :: "Field list" where
  "sample_snapshot = [(''lastUpdateId'', Num ''4''), (''bids'', Levels [(''1.5'', ''2'')]), (''asks'', Levels [])]"

definition sample_diff :: "string \<Rightarrow> string \<Rightarrow> Field list" where
  "sample_diff lo hi = [(''U'', Num lo), (''u'', Num hi), (''b'', Levels [(''1.25'', ''3'')])]"

definition answering_env :: Env where
  "answering_env = \<lparr>env_now = zero_ts, env_snap_now = zero_ts, env_http = (\<lambda>_ _. answer_with (render_message sample_snapshot))\<rparr>"

definition sample_run :: "delivery list" where
  "sample_run =
     [(answering_env, frame_of (stream_name ''BTC'' DepthDiff) (render_message (sample_diff ''4'' ''5'')), 0, 1),
      (answering_env, frame_of (stream_name ''BTC'' DepthDiff) (render_message (sample_diff ''6'' ''7'')), 1, 1),
      (answering_env, frame_of (stream_name ''ETH'' Trade) ''{}'', 1, 2)]"

lemma sample_parses:
  "fst (parse_depth (render_message sample_snapshot) new_DepthEvent)"
  "fst (parse_depth (render_message (sample_diff ''4'' ''5'')) new_DepthEvent)"
  "fst (parse_depth (render_message (sample_diff ''6'' ''7'')) new_DepthEvent)"
proof -
  have wf: "list_all wf_field sample_snapshot" "list_all wf_field (sample_diff ''4'' ''5'')" "list_all wf_field (sample_diff ''6'' ''7'')"
    by code_simp+
  show "fst (parse_depth (render_message sample_snapshot) new_DepthEvent)"
    unfolding parse_depth_render [OF wf(1)] by code_simp
  show "fst (parse_depth (render_message (sample_diff ''4'' ''5'')) new_DepthEvent)"
    unfolding parse_depth_render [OF wf(2)] by code_simp
  show "fst (parse_depth (render_message (sample_diff ''6'' ''7'')) new_DepthEvent)"
    unfolding parse_depth_render [OF wf(3)] by code_simp
qed

lemma sample_run_good: "list_all (good_delivery new_Config [''BTC'']) sample_run"
proof -
  have time: "ts_in_range (env_now answering_env)" "ts_in_range (env_snap_now answering_env)"
    by (simp_all add: answering_env_def ts_in_range_def zero_ts_def range_defs)
  have plain: "no_quote s" "CHR ''@'' \<notin> set s" "map toupper s = s" "\<not> needs_quote s" if "s = ''BTC'' \<or> s = ''ETH''" for s
    using that by (elim disjE; simp; code_simp)+
  have obj: "object_text (render_message (sample_diff ''4'' ''5''))" "object_text (render_message (sample_diff ''6'' ''7''))" "object_text ''{}''"
    unfolding object_text_def by code_simp+
  have line: "CHR 0x0A \<notin> set (render_message (sample_diff ''4'' ''5''))" "CHR 0x0A \<notin> set (render_message (sample_diff ''6'' ''7''))"
      "CHR 0x0A \<notin> set (render_message sample_snapshot)"
    by code_simp+
  have "fetches new_Config answering_env ''BTC''"
    using sample_parses(1) line(3) by (simp add: fetches_def answering_env_def)
  then show ?thesis
    unfolding sample_run_def list.pred_inject
    using time plain obj line sample_parses by (intro conjI TrueI good_frame) (simp_all add: UINT64_MAX_def del: list.map)
qed

theorem replay_reproduces_live_witness:
  "let sh = foldl (deliver new_Config 0) (new_Shard new_Config (dedup [''BTC'']) new_Metrics) sample_run
    in \<exists>md_text snap_text rp. md_file sh = Some md_text \<and> snap_file sh = Some snap_text \<and>
      run_replay (new_Config\<lparr>cfg_replay_input := ''a.csv''\<rparr>) [''a.csv'' \<mapsto> md_text, sidecar_path ''a.csv'' \<mapsto> snap_text] (\<lambda>_. True) new_Metrics = Inr rp \<and>
      list_all (\<lambda>(s, st). replayed_rows rp s = ss_rows st) (sh_syms sh)"
  by (rule replay_reproduces_live [OF sample_run_good]) (simp add: range_defs)

end
