(* ===== verification/Spsc_Ring.thy ===== *)
theory Spsc_Ring
  imports Lob_Prelude "HOL-Library.Sublist"
begin

text \<open>
  The lock-free single-producer single-consumer ring (\<open>include/spsc_ring.hpp\<close>).

  First the two operations as functions on the ring's fields, each running alone, with the
  interface \<open>record_queue\<close> that they implement.  Then the same operations cut at their atomic
  accesses and interleaved: \<open>head_\<close> and \<open>tail_\<close> are locations with a history of stored values, a
  thread's own location is read exactly, and an acquire load of the other thread's location may
  return any stored value that is not older than one the thread has seen (the operational reading
  of release and acquire for a location with one writer).  The slots are plain memory; that no two
  threads ever touch the same slot in a conflicting way is a theorem below.
\<close>

unbundle bit_operations_syntax

section \<open>The operations\<close>

record Ring =
  rg_mask :: nat
  rg_slots :: "string list"
  rg_head :: nat
  rg_tail :: nat

definition new_ring :: "nat \<Rightarrow> Ring" where
  "new_ring capacity_pow2 =
     \<lparr>rg_mask = capacity_pow2 - 1, rg_slots = replicate capacity_pow2 [], rg_head = 0, rg_tail = 0\<rparr>"

definition ring_empty :: "Ring \<Rightarrow> bool" where
  "ring_empty r \<longleftrightarrow> rg_head r = rg_tail r"

definition try_write :: "Ring \<Rightarrow> string \<Rightarrow> Ring \<times> bool" where
  "try_write r p =
     (let t = rg_tail r; next_t = (t + 1) AND rg_mask r
      in if next_t = rg_head r then (r, False)
         else (r\<lparr>rg_slots := (rg_slots r)[t := p], rg_tail := next_t\<rparr>, True))"

text \<open>
  The loop of \<open>drain\<close>, with the records passed to the callback.  The number of slots bounds the
  number of rounds; \<open>drain_loop_enough\<close> shows that the loop ends before.
\<close>

fun drain_loop :: "nat \<Rightarrow> Ring \<Rightarrow> nat \<Rightarrow> nat \<Rightarrow> string list \<Rightarrow> (nat \<times> string list) option" where
  "drain_loop fuel r h t acc =
     (if h = t then Some (h, acc)
      else case fuel of
        0 \<Rightarrow> None
      | Suc fuel' \<Rightarrow> drain_loop fuel' r ((h + 1) AND rg_mask r) t (acc @ [rg_slots r ! h]))"

definition drain :: "Ring \<Rightarrow> (Ring \<times> string list) option" where
  "drain r =
     (case drain_loop (length (rg_slots r)) r (rg_head r) (rg_tail r) [] of
        None \<Rightarrow> None
      | Some (h, recs) \<Rightarrow> Some (if recs \<noteq> [] then r\<lparr>rg_head := h\<rparr> else r, recs))"

section \<open>Index arithmetic\<close>

text \<open>A ring of \<open>2 ^ k\<close> slots.\<close>

definition ring_wf :: "nat \<Rightarrow> Ring \<Rightarrow> bool" where
  "ring_wf N r \<longleftrightarrow> (\<exists>k. N = 2 ^ k) \<and> rg_mask r = N - 1 \<and> length (rg_slots r) = N \<and>
     rg_head r < N \<and> rg_tail r < N"

lemma and_mask_mod: "(x::nat) AND (2 ^ k - 1) = x mod 2 ^ k"
  by (simp add: take_bit_eq_mod [symmetric] take_bit_eq_mask mask_eq_exp_minus_1)

lemma ring_wf_step: "ring_wf N r \<Longrightarrow> x AND rg_mask r = x mod N"
  using and_mask_mod by (auto simp: ring_wf_def)

lemma ring_wf_pos: "ring_wf N r \<Longrightarrow> 0 < N"
  by (auto simp: ring_wf_def)

lemma mod_inj_window:
  fixes a b N :: nat
  assumes "a \<le> b" "b < a + N"
  shows "a mod N = b mod N \<longleftrightarrow> a = b"
proof
  assume "a mod N = b mod N"
  then have "N dvd b - a"
    using assms(1) by (metis mod_eq_dvd_iff_nat)
  moreover have "b - a < N" using assms by simp
  ultimately show "a = b"
    using assms(1) by (metis dvd_imp_le diff_is_0_eq' le_antisym not_less zero_less_diff linorder_not_less)
qed simp

section \<open>The queue the ring implements\<close>

text \<open>The records between the read and the write position, oldest first.\<close>

definition ring_count :: "Ring \<Rightarrow> nat" where
  "ring_count r = (rg_tail r + length (rg_slots r) - rg_head r) mod length (rg_slots r)"

definition ring_contents :: "Ring \<Rightarrow> string list" where
  "ring_contents r = map (\<lambda>i. rg_slots r ! ((rg_head r + i) mod length (rg_slots r))) [0..<ring_count r]"

locale record_queue =
  fixes wf :: "'q \<Rightarrow> bool"
    and contents :: "'q \<Rightarrow> string list"
    and is_empty :: "'q \<Rightarrow> bool"
    and put :: "'q \<Rightarrow> string \<Rightarrow> 'q \<times> bool"
    and take_all :: "'q \<Rightarrow> ('q \<times> string list) option"
    and room :: nat
  assumes empty_iff: "wf q \<Longrightarrow> is_empty q \<longleftrightarrow> contents q = []"
    and put_wf: "wf q \<Longrightarrow> wf (fst (put q p))"
    and put_contents: "wf q \<Longrightarrow> put q p =
      (fst (put q p), length (contents q) < room) \<and>
      contents (fst (put q p)) = contents q @ (if length (contents q) < room then [p] else [])"
    and take_all_ok: "wf q \<Longrightarrow> \<exists>q'. take_all q = Some (q', contents q) \<and> wf q' \<and> contents q' = []"
begin

text \<open>Whatever was put and not refused comes out once, in order.\<close>

lemma put_many:
  "wf q \<Longrightarrow> length (contents q) + length ps \<le> room \<Longrightarrow>
   wf (foldl (\<lambda>q p. fst (put q p)) q ps) \<and> contents (foldl (\<lambda>q p. fst (put q p)) q ps) = contents q @ ps"
proof (induction ps arbitrary: q)
  case (Cons p ps)
  have "contents (fst (put q p)) = contents q @ [p]"
    using put_contents [OF Cons.prems(1), of p] Cons.prems(2) by simp
  with Cons.IH [of "fst (put q p)"] Cons.prems put_wf show ?case by simp
qed simp

lemma fifo:
  assumes "wf q" "length (contents q) + length ps \<le> room"
  shows "\<exists>q'. take_all (foldl (\<lambda>q p. fst (put q p)) q ps) = Some (q', contents q @ ps) \<and> wf q' \<and> contents q' = []"
  using put_many [OF assms] take_all_ok by metis

end

lemma ring_count_less: "ring_wf N r \<Longrightarrow> ring_count r < N"
  using ring_wf_pos [of N r] by (simp add: ring_count_def ring_wf_def)

lemma ring_tail_eq: "ring_wf N r \<Longrightarrow> rg_tail r = (rg_head r + ring_count r) mod N"
proof -
  assume wf: "ring_wf N r"
  then have "(rg_head r + ring_count r) mod N = (rg_head r + (rg_tail r + N - rg_head r)) mod N"
    by (simp add: ring_count_def ring_wf_def mod_add_right_eq)
  also have "rg_head r + (rg_tail r + N - rg_head r) = rg_tail r + N"
    using wf by (simp add: ring_wf_def)
  finally show ?thesis
    using wf by (simp add: ring_wf_def)
qed

lemma ring_empty_iff: "ring_wf N r \<Longrightarrow> ring_empty r \<longleftrightarrow> ring_count r = 0"
  using ring_tail_eq [of N r] mod_inj_window [of "rg_head r" "rg_head r + ring_count r" N] ring_count_less [of N r]
  by (auto simp: ring_empty_def ring_wf_def)

declare drain_loop.simps [simp del]

lemma drain_loop_enough:
  assumes "ring_wf N r" "h < N" "n < N" "n \<le> fuel"
  shows "drain_loop fuel r h ((h + n) mod N) acc =
    Some ((h + n) mod N, acc @ map (\<lambda>i. rg_slots r ! ((h + i) mod N)) [0..<n])"
  using assms(2-4)
proof (induction n arbitrary: h fuel acc)
  case 0
  then show ?case by (subst drain_loop.simps) simp
next
  case (Suc n)
  obtain fuel' where fuel: "fuel = Suc fuel'" using Suc.prems(3) by (cases fuel) auto
  have "h \<noteq> (h + Suc n) mod N"
    using mod_inj_window [of h "h + Suc n" N] Suc.prems by simp
  then have "drain_loop fuel r h ((h + Suc n) mod N) acc =
      drain_loop fuel' r ((h + 1) mod N) ((h + Suc n) mod N) (acc @ [rg_slots r ! h])"
    by (subst drain_loop.simps) (simp add: fuel ring_wf_step [OF assms(1)])
  also have "(h + Suc n) mod N = ((h + 1) mod N + n) mod N"
    by (simp add: mod_add_left_eq)
  also have "drain_loop fuel' r ((h + 1) mod N) (((h + 1) mod N + n) mod N) (acc @ [rg_slots r ! h]) =
      Some (((h + 1) mod N + n) mod N, (acc @ [rg_slots r ! h]) @
        map (\<lambda>i. rg_slots r ! (((h + 1) mod N + i) mod N)) [0..<n])"
    using Suc.prems fuel by (intro Suc.IH) simp_all
  finally show ?case
    using Suc.prems(1) by (simp add: map_upt_Suc mod_add_left_eq del: upt_Suc)
qed

lemma drain_eq:
  assumes "ring_wf N r"
  shows "drain r = Some (r\<lparr>rg_head := rg_tail r\<rparr>, ring_contents r)"
proof -
  have n: "length (rg_slots r) = N" "rg_head r < N"
    using assms by (simp_all add: ring_wf_def)
  have "drain_loop N r (rg_head r) (rg_tail r) [] = Some (rg_tail r, ring_contents r)"
    using drain_loop_enough [OF assms n(2) ring_count_less [OF assms], of N "[]"] ring_count_less [OF assms]
    by (simp add: ring_tail_eq [OF assms, symmetric] ring_contents_def n)
  moreover have "ring_contents r = [] \<longleftrightarrow> rg_head r = rg_tail r"
    using ring_empty_iff [OF assms] by (simp add: ring_empty_def ring_contents_def)
  ultimately show ?thesis
    by (simp add: drain_def n)
qed

lemma try_write_full:
  assumes "ring_wf N r"
  shows "(rg_tail r + 1) mod N = rg_head r \<longleftrightarrow> ring_count r = N - 1"
proof -
  have "(rg_tail r + 1) mod N = (rg_head r + (ring_count r + 1)) mod N"
    using mod_add_left_eq [of "rg_head r + ring_count r" N 1] ring_tail_eq [OF assms] by simp
  moreover have "rg_head r = (rg_head r + N) mod N"
    using assms by (simp add: ring_wf_def)
  ultimately have "(rg_tail r + 1) mod N = rg_head r \<longleftrightarrow>
      (rg_head r + (ring_count r + 1)) mod N = (rg_head r + N) mod N"
    by simp
  also have "\<dots> \<longleftrightarrow> rg_head r + (ring_count r + 1) = rg_head r + N"
    using ring_count_less [OF assms] by (intro mod_inj_window) simp_all
  finally show ?thesis
    using ring_count_less [OF assms] by auto
qed

lemma try_write_ok:
  assumes wf: "ring_wf N r" and free: "ring_count r < N - 1"
  shows "ring_wf N (fst (try_write r p)) \<and> snd (try_write r p) \<and>
    ring_contents (fst (try_write r p)) = ring_contents r @ [p]"
proof -
  let ?t = "rg_tail r" and ?h = "rg_head r" and ?n = "ring_count r"
  let ?r = "r\<lparr>rg_slots := (rg_slots r)[?t := p], rg_tail := (?t + 1) mod N\<rparr>"
  have N: "length (rg_slots r) = N" "?h < N" "?t < N" using wf by (simp_all add: ring_wf_def)
  have eq: "try_write r p = (?r, True)"
    using free try_write_full [OF wf] by (simp add: try_write_def Let_def ring_wf_step [OF wf])
  have wf': "ring_wf N ?r"
    using wf ring_wf_pos [OF wf] by (simp add: ring_wf_def)
  have tail': "rg_tail ?r = (?h + (?n + 1)) mod N"
    using mod_add_left_eq [of "?h + ?n" N 1] ring_tail_eq [OF wf] by simp
  have count: "ring_count ?r = ?n + 1"
  proof -
    have "(?h + ring_count ?r) mod N = (?h + (?n + 1)) mod N"
      using ring_tail_eq [OF wf'] tail' by simp
    then show ?thesis
      using mod_inj_window [of "?h + ring_count ?r" "?h + (?n + 1)" N]
        mod_inj_window [of "?h + (?n + 1)" "?h + ring_count ?r" N] ring_count_less [OF wf'] free
      by (cases "ring_count ?r \<le> ?n + 1") auto
  qed
  have slot: "rg_slots ?r ! ((?h + i) mod N) = (if i = ?n then p else rg_slots r ! ((?h + i) mod N))" if "i \<le> ?n" for i
    using that mod_inj_window [of "?h + i" "?h + ?n" N] ring_count_less [OF wf] ring_tail_eq [OF wf] N
    by (auto simp: nth_list_update)
  have "ring_contents ?r = ring_contents r @ [p]"
    unfolding ring_contents_def count using slot N by simp
  with eq wf' show ?thesis by simp
qed

interpretation ring: record_queue "ring_wf N" ring_contents ring_empty try_write drain "N - 1" for N
proof unfold_locales
  fix q p
  assume wf: "ring_wf N q"
  have len: "length (ring_contents q) = ring_count q"
    by (simp add: ring_contents_def)
  show "ring_empty q \<longleftrightarrow> ring_contents q = []"
    using ring_empty_iff [OF wf] len by auto
  have full: "try_write q p = (q, False)" if "\<not> ring_count q < N - 1"
    using that ring_count_less [OF wf] try_write_full [OF wf]
    by (simp add: try_write_def Let_def ring_wf_step [OF wf])
  show "ring_wf N (fst (try_write q p))"
    using try_write_ok [OF wf] full wf by (cases "ring_count q < N - 1") auto
  show "try_write q p = (fst (try_write q p), length (ring_contents q) < N - 1) \<and>
      ring_contents (fst (try_write q p)) = ring_contents q @ (if length (ring_contents q) < N - 1 then [p] else [])"
    using try_write_ok [OF wf, of p] full len
    by (cases "ring_count q < N - 1") (auto simp: prod_eq_iff)
  have "ring_wf N (q\<lparr>rg_head := rg_tail q\<rparr>)"
    using wf by (simp add: ring_wf_def)
  moreover have "ring_contents (q\<lparr>rg_head := rg_tail q\<rparr>) = []"
    using wf by (simp add: ring_contents_def ring_count_def ring_wf_def)
  ultimately show "\<exists>q'. drain q = Some (q', ring_contents q) \<and> ring_wf N q' \<and> ring_contents q' = []"
    using drain_eq [OF wf] by blast
qed

lemma ring_wf_new: "ring_wf (2 ^ k) (new_ring (2 ^ k)) \<and> ring_contents (new_ring (2 ^ k)) = []"
  by (auto simp: ring_wf_def new_ring_def ring_contents_def ring_count_def)

text \<open>
  The ring is a bounded first-in first-out queue.  On a ring of \<open>2 ^ k\<close> slots with \<open>n\<close> free
  places, up to \<open>n\<close> writes all succeed, and the next drain hands over the old records and the new
  ones in the order they were written, each once, and leaves the ring empty and well formed; a
  write to a ring with \<open>2 ^ k - 1\<close> records is refused and changes nothing.
\<close>

theorem ring_fifo:
  assumes "ring_wf N r" "length (ring_contents r) + length ps \<le> N - 1"
  shows "(\<exists>r'. drain (foldl (\<lambda>q p. fst (try_write q p)) r ps) = Some (r', ring_contents r @ ps) \<and>
      ring_wf N r' \<and> ring_contents r' = []) \<and>
    (length (ring_contents r @ ps) = N - 1) =
      (\<not> snd (try_write (foldl (\<lambda>q p. fst (try_write q p)) r ps) p))"
proof -
  let ?r = "foldl (\<lambda>q p. fst (try_write q p)) r ps"
  have r: "ring_wf N ?r" "ring_contents ?r = ring_contents r @ ps"
    using ring.put_many [OF assms] by blast+
  have "snd (try_write ?r p) \<longleftrightarrow> length (ring_contents ?r) < N - 1"
    using ring.put_contents [OF r(1), of p] by (metis snd_conv)
  then show ?thesis
    using ring.fifo [OF assms] r(2) assms(2) by auto
qed

theorem ring_fifo_witness:
  "(\<exists>r'. drain (foldl (\<lambda>q p. fst (try_write q p)) (new_ring 4) [''a'', ''b'', ''c'']) =
      Some (r', ring_contents (new_ring 4) @ [''a'', ''b'', ''c'']) \<and>
      ring_wf 4 r' \<and> ring_contents r' = []) \<and>
    (length (ring_contents (new_ring 4) @ [''a'', ''b'', ''c'']) = 4 - 1) =
      (\<not> snd (try_write (foldl (\<lambda>q p. fst (try_write q p)) (new_ring 4) [''a'', ''b'', ''c'']) ''d''))"
proof (rule ring_fifo)
  show "ring_wf 4 (new_ring 4)" "length (ring_contents (new_ring 4)) + length [''a'', ''b'', ''c''] \<le> 4 - 1"
    using ring_wf_new [of 2] by simp_all
qed

section \<open>Two threads\<close>

text \<open>Where the producer is in \<open>try_write\<close> and the consumer in \<open>drain\<close>.\<close>

datatype producer_pc =
    PIdle
  | PLoad string nat nat      \<comment> \<open>\<open>tail_\<close> is read, \<open>head_\<close> is next; the record, \<open>t\<close> and \<open>next\<close>\<close>
  | PAssign string nat nat    \<comment> \<open>there is room; the slot is assigned next\<close>
  | PStore string nat         \<comment> \<open>the slot is filled; \<open>tail_\<close> is stored next\<close>

datatype consumer_pc =
    CIdle
  | CLoop nat nat nat         \<comment> \<open>in the loop with \<open>h\<close>, \<open>t\<close> and \<open>count\<close>\<close>

record SharedRing =
  sr_mask :: nat
  sr_slots :: "string list"
  sr_heads :: "nat list"       \<comment> \<open>values stored to \<open>head_\<close>, oldest first\<close>
  sr_tails :: "nat list"       \<comment> \<open>values stored to \<open>tail_\<close>, oldest first\<close>
  sr_head_seen :: nat          \<comment> \<open>the newest store to \<open>head_\<close> the producer has seen\<close>
  sr_tail_seen :: nat          \<comment> \<open>the newest store to \<open>tail_\<close> the consumer has seen\<close>
  sr_prod :: producer_pc
  sr_cons :: consumer_pc
  sr_written :: "string list"  \<comment> \<open>records published by the producer\<close>
  sr_delivered :: "string list" \<comment> \<open>records passed to the callback\<close>

definition shared_init :: "nat \<Rightarrow> SharedRing" where
  "shared_init k = \<lparr>sr_mask = 2 ^ k - 1, sr_slots = replicate (2 ^ k) [], sr_heads = [0], sr_tails = [0],
     sr_head_seen = 0, sr_tail_seen = 0, sr_prod = PIdle, sr_cons = CIdle, sr_written = [], sr_delivered = []\<rparr>"

inductive ring_step :: "SharedRing \<Rightarrow> SharedRing \<Rightarrow> bool" where
  p_start:
    "sr_prod s = PIdle \<Longrightarrow>
     ring_step s (s\<lparr>sr_prod := PLoad p (last (sr_tails s)) ((last (sr_tails s) + 1) AND sr_mask s)\<rparr>)"
| p_full:
    "sr_prod s = PLoad p t n \<Longrightarrow> sr_head_seen s \<le> i \<Longrightarrow> i < length (sr_heads s) \<Longrightarrow> sr_heads s ! i = n \<Longrightarrow>
     ring_step s (s\<lparr>sr_head_seen := i, sr_prod := PIdle\<rparr>)"
| p_free:
    "sr_prod s = PLoad p t n \<Longrightarrow> sr_head_seen s \<le> i \<Longrightarrow> i < length (sr_heads s) \<Longrightarrow> sr_heads s ! i \<noteq> n \<Longrightarrow>
     ring_step s (s\<lparr>sr_head_seen := i, sr_prod := PAssign p t n\<rparr>)"
| p_assign:
    "sr_prod s = PAssign p t n \<Longrightarrow>
     ring_step s (s\<lparr>sr_slots := (sr_slots s)[t := p], sr_prod := PStore p n\<rparr>)"
| p_store:
    "sr_prod s = PStore p n \<Longrightarrow>
     ring_step s (s\<lparr>sr_tails := sr_tails s @ [n], sr_prod := PIdle, sr_written := sr_written s @ [p]\<rparr>)"
| c_start:
    "sr_cons s = CIdle \<Longrightarrow> sr_tail_seen s \<le> i \<Longrightarrow> i < length (sr_tails s) \<Longrightarrow>
     ring_step s (s\<lparr>sr_tail_seen := i, sr_cons := CLoop (last (sr_heads s)) (sr_tails s ! i) 0\<rparr>)"
| c_read:
    "sr_cons s = CLoop h t n \<Longrightarrow> h \<noteq> t \<Longrightarrow>
     ring_step s (s\<lparr>sr_delivered := sr_delivered s @ [sr_slots s ! h],
       sr_cons := CLoop ((h + 1) AND sr_mask s) t (n + 1)\<rparr>)"
| c_done:
    "sr_cons s = CLoop h t n \<Longrightarrow> h = t \<Longrightarrow>
     ring_step s (s\<lparr>sr_heads := (if n \<noteq> 0 then sr_heads s @ [h] else sr_heads s), sr_cons := CIdle\<rparr>)"

text \<open>
  The invariant, with ghost counts \<open>hs\<close>: how many records were freed by each store to \<open>head_\<close>.
\<close>

fun producer_inv :: "nat \<Rightarrow> nat list \<Rightarrow> SharedRing \<Rightarrow> producer_pc \<Rightarrow> bool" where
  "producer_inv N hs s PIdle \<longleftrightarrow> True"
| "producer_inv N hs s (PLoad p t n) \<longleftrightarrow> t = length (sr_written s) mod N \<and> n = (length (sr_written s) + 1) mod N"
| "producer_inv N hs s (PAssign p t n) \<longleftrightarrow> t = length (sr_written s) mod N \<and> n = (length (sr_written s) + 1) mod N \<and>
     length (sr_written s) + 1 < hs ! sr_head_seen s + N"
| "producer_inv N hs s (PStore p n) \<longleftrightarrow> n = (length (sr_written s) + 1) mod N \<and>
     length (sr_written s) + 1 < hs ! sr_head_seen s + N \<and> sr_slots s ! (length (sr_written s) mod N) = p"

fun consumer_inv :: "nat \<Rightarrow> nat list \<Rightarrow> SharedRing \<Rightarrow> consumer_pc \<Rightarrow> bool" where
  "consumer_inv N hs s CIdle \<longleftrightarrow> length (sr_delivered s) = last hs \<and> sr_tail_seen s = last hs"
| "consumer_inv N hs s (CLoop h t n) \<longleftrightarrow> length (sr_delivered s) = last hs + n \<and>
     h = length (sr_delivered s) mod N \<and> t = sr_tail_seen s mod N"

definition shared_inv_with :: "nat \<Rightarrow> nat list \<Rightarrow> SharedRing \<Rightarrow> bool" where
  "shared_inv_with k hs s \<longleftrightarrow>
     (let N = 2 ^ k; w = length (sr_written s); d = length (sr_delivered s)
      in sr_mask s = N - 1 \<and> length (sr_slots s) = N \<and>
         sr_heads s = map (\<lambda>c. c mod N) hs \<and> hs \<noteq> [] \<and> sorted hs \<and> sr_head_seen s < length hs \<and>
         sr_tails s = map (\<lambda>c. c mod N) [0..<w + 1] \<and> sr_tail_seen s \<le> w \<and>
         last hs \<le> d \<and> d \<le> sr_tail_seen s \<and> w < hs ! sr_head_seen s + N \<and>
         prefix (sr_delivered s) (sr_written s) \<and>
         (\<forall>i. d \<le> i \<longrightarrow> i < w \<longrightarrow> sr_slots s ! (i mod N) = sr_written s ! i) \<and>
         producer_inv N hs s (sr_prod s) \<and> consumer_inv N hs s (sr_cons s))"

definition shared_inv :: "nat \<Rightarrow> SharedRing \<Rightarrow> bool" where
  "shared_inv k s \<longleftrightarrow> (\<exists>hs. shared_inv_with k hs s)"

lemma shared_inv_init: "shared_inv k (shared_init k)"
  by (auto simp: shared_inv_def shared_inv_with_def shared_init_def intro!: exI [of _ "[0]"])

text \<open>No store to \<open>head_\<close> frees more than was delivered.\<close>

lemma seen_le_last: "sorted hs \<Longrightarrow> i < length hs \<Longrightarrow> hs ! i \<le> last hs"
  by (cases hs rule: rev_cases) (auto simp: sorted_append nth_append)

text \<open>The last value of a thread's own location.\<close>

lemma last_tail: "shared_inv_with k hs s \<Longrightarrow> last (sr_tails s) = length (sr_written s) mod 2 ^ k"
  by (simp add: shared_inv_with_def Let_def)

lemma last_head: "shared_inv_with k hs s \<Longrightarrow> last (sr_heads s) = last hs mod 2 ^ k"
  by (simp add: shared_inv_with_def Let_def last_map)

lemma inv_mask: "shared_inv_with k hs s \<Longrightarrow> x AND sr_mask s = x mod 2 ^ k"
  by (simp only: shared_inv_with_def Let_def and_mask_mod)

text \<open>The producer's steps.\<close>

lemma inv_p_start:
  assumes "shared_inv_with k hs s"
  shows "shared_inv_with k hs (s\<lparr>sr_prod := PLoad p (last (sr_tails s)) ((last (sr_tails s) + 1) AND sr_mask s)\<rparr>)"
proof -
  have "(last (sr_tails s) + 1) AND sr_mask s = (length (sr_written s) + 1) mod 2 ^ k"
    using last_tail [OF assms] inv_mask [OF assms] by (simp add: mod_Suc_eq)
  then show ?thesis
    using assms last_tail [OF assms] unfolding shared_inv_with_def Let_def
    by (cases "sr_cons s") simp_all
qed

lemma inv_p_load:
  assumes inv: "shared_inv_with k hs s" and pc: "sr_prod s = PLoad p t n"
    and i: "sr_head_seen s \<le> i" "i < length (sr_heads s)"
  shows "shared_inv_with k hs (s\<lparr>sr_head_seen := i, sr_prod := PIdle\<rparr>)"
    and "sr_heads s ! i \<noteq> n \<Longrightarrow> shared_inv_with k hs (s\<lparr>sr_head_seen := i, sr_prod := PAssign p t n\<rparr>)"
proof -
  let ?N = "2 ^ k :: nat" and ?w = "length (sr_written s)"
  have len: "i < length hs" and hi: "sr_heads s ! i = hs ! i mod ?N"
    using inv i(2) unfolding shared_inv_with_def Let_def by auto
  have mono: "hs ! sr_head_seen s \<le> hs ! i"
    using inv i(1) len unfolding shared_inv_with_def Let_def by (simp add: sorted_nth_mono)
  then have win: "?w < hs ! i + ?N"
    using inv unfolding shared_inv_with_def Let_def by linarith
  have "hs ! i \<le> last hs" "last hs \<le> ?w"
    using inv len seen_le_last [of hs i] unfolding shared_inv_with_def Let_def by linarith+
  then have room: "?w + 1 < hs ! i + ?N" if "sr_heads s ! i \<noteq> n"
  proof -
    have "n = (?w + 1) mod ?N"
      using inv pc unfolding shared_inv_with_def Let_def by simp
    then have "?w + 1 \<noteq> hs ! i + ?N" using that hi by auto
    then show ?thesis using win by linarith
  qed
  show "shared_inv_with k hs (s\<lparr>sr_head_seen := i, sr_prod := PIdle\<rparr>)"
    using inv len win unfolding shared_inv_with_def Let_def by (cases "sr_cons s") simp_all
  show "shared_inv_with k hs (s\<lparr>sr_head_seen := i, sr_prod := PAssign p t n\<rparr>)" if "sr_heads s ! i \<noteq> n"
    using inv len win pc room [OF that] unfolding shared_inv_with_def Let_def by (cases "sr_cons s") simp_all
qed

lemma inv_window:
  assumes "shared_inv_with k hs s" "length (sr_delivered s) \<le> i" "i < length (sr_written s)"
  shows "i mod 2 ^ k \<noteq> length (sr_written s) mod 2 ^ k"
proof -
  have "hs ! sr_head_seen s \<le> last hs"
    using assms(1) seen_le_last unfolding shared_inv_with_def Let_def by blast
  then have "length (sr_written s) < i + 2 ^ k"
    using assms unfolding shared_inv_with_def Let_def by linarith
  then show ?thesis
    using assms(3) mod_inj_window [of i "length (sr_written s)" "2 ^ k"] by simp
qed

lemma inv_p_assign:
  assumes inv: "shared_inv_with k hs s" and pc: "sr_prod s = PAssign p t n"
  shows "shared_inv_with k hs (s\<lparr>sr_slots := (sr_slots s)[t := p], sr_prod := PStore p n\<rparr>)"
proof -
  have t: "t = length (sr_written s) mod 2 ^ k"
    using inv pc unfolding shared_inv_with_def Let_def by simp
  have "(sr_slots s)[t := p] ! (i mod 2 ^ k) = sr_written s ! i"
    if "length (sr_delivered s) \<le> i" "i < length (sr_written s)" for i
    using inv_window [OF inv that] that inv t unfolding shared_inv_with_def Let_def by simp
  then show ?thesis
    using inv pc t unfolding shared_inv_with_def Let_def by (cases "sr_cons s") simp_all
qed

lemma inv_p_store:
  assumes inv: "shared_inv_with k hs s" and pc: "sr_prod s = PStore p n"
  shows "shared_inv_with k hs (s\<lparr>sr_tails := sr_tails s @ [n], sr_prod := PIdle, sr_written := sr_written s @ [p]\<rparr>)"
  using inv pc unfolding shared_inv_with_def Let_def
  by (cases "sr_cons s") (auto simp: nth_append less_Suc_eq)

text \<open>The consumer's steps.\<close>

lemma inv_c_start:
  assumes inv: "shared_inv_with k hs s" and pc: "sr_cons s = CIdle"
    and i: "sr_tail_seen s \<le> i" "i < length (sr_tails s)"
  shows "shared_inv_with k hs (s\<lparr>sr_tail_seen := i, sr_cons := CLoop (last (sr_heads s)) (sr_tails s ! i) 0\<rparr>)"
proof -
  have "sr_tails s ! i = i mod 2 ^ k" "i \<le> length (sr_written s)"
    using inv i(2) unfolding shared_inv_with_def Let_def by (simp_all del: upt_Suc)
  then show ?thesis
    using inv pc i(1) last_head [OF inv] unfolding shared_inv_with_def Let_def
    by (cases "sr_prod s") simp_all
qed

lemma inv_c_read:
  assumes inv: "shared_inv_with k hs s" and pc: "sr_cons s = CLoop h t n" and "h \<noteq> t"
  shows "sr_slots s ! h = sr_written s ! length (sr_delivered s)"
    and "length (sr_delivered s) < sr_tail_seen s"
    and "shared_inv_with k hs (s\<lparr>sr_delivered := sr_delivered s @ [sr_slots s ! h],
      sr_cons := CLoop ((h + 1) AND sr_mask s) t (n + 1)\<rparr>)"
proof -
  let ?d = "length (sr_delivered s)"
  have h: "h = ?d mod 2 ^ k" "t = sr_tail_seen s mod 2 ^ k"
    using inv pc unfolding shared_inv_with_def Let_def by simp_all
  then show d: "?d < sr_tail_seen s"
    using inv \<open>h \<noteq> t\<close> unfolding shared_inv_with_def Let_def by (metis le_neq_implies_less)
  then show slot: "sr_slots s ! h = sr_written s ! ?d"
    using inv h(1) unfolding shared_inv_with_def Let_def by simp
  have w: "?d < length (sr_written s)"
    using inv d unfolding shared_inv_with_def Let_def by linarith
  have next_h: "(h + 1) AND sr_mask s = (?d + 1) mod 2 ^ k"
    using inv_mask [OF inv] h(1) by (simp add: mod_Suc_eq)
  have "prefix (sr_delivered s @ [sr_slots s ! h]) (sr_written s)"
    using inv w append_one_prefix unfolding slot shared_inv_with_def Let_def by blast
  then show "shared_inv_with k hs (s\<lparr>sr_delivered := sr_delivered s @ [sr_slots s ! h],
      sr_cons := CLoop ((h + 1) AND sr_mask s) t (n + 1)\<rparr>)"
    using inv pc d next_h h(2) unfolding shared_inv_with_def Let_def
    by (cases "sr_prod s") simp_all
qed

lemma inv_c_done:
  assumes inv: "shared_inv_with k hs s" and pc: "sr_cons s = CLoop h t n" and "h = t"
  shows "shared_inv k (s\<lparr>sr_heads := (if n \<noteq> 0 then sr_heads s @ [h] else sr_heads s), sr_cons := CIdle\<rparr>)"
proof -
  let ?d = "length (sr_delivered s)" and ?w = "length (sr_written s)"
  have h: "?d mod 2 ^ k = sr_tail_seen s mod 2 ^ k" "h = ?d mod 2 ^ k" "?d = last hs + n"
    using inv pc \<open>h = t\<close> unfolding shared_inv_with_def Let_def by auto
  have "hs ! sr_head_seen s \<le> last hs"
    using inv seen_le_last unfolding shared_inv_with_def Let_def by blast
  then have "?d \<le> sr_tail_seen s" "sr_tail_seen s < ?d + 2 ^ k"
    using inv unfolding shared_inv_with_def Let_def by linarith+
  then have seen: "sr_tail_seen s = ?d"
    using mod_inj_window h(1) by metis
  let ?hs = "if n \<noteq> 0 then hs @ [?d] else hs"
  have le: "x \<le> ?d" if "x \<in> set hs" for x
    using that inv seen_le_last h(3) unfolding shared_inv_with_def Let_def
    by (metis in_set_conv_nth le_trans)
  have "?hs ! sr_head_seen s = hs ! sr_head_seen s"
    using inv unfolding shared_inv_with_def Let_def by (simp add: nth_append)
  then have "shared_inv_with k ?hs (s\<lparr>sr_heads := (if n \<noteq> 0 then sr_heads s @ [h] else sr_heads s), sr_cons := CIdle\<rparr>)"
    using inv le h seen unfolding shared_inv_with_def Let_def
    by (cases "sr_prod s") (auto simp: sorted_append)
  then show ?thesis
    unfolding shared_inv_def by blast
qed

lemma shared_inv_step:
  assumes "ring_step s s'" "shared_inv k s"
  shows "shared_inv k s'"
proof -
  obtain hs where inv: "shared_inv_with k hs s"
    using assms(2) unfolding shared_inv_def by blast
  have ok: "shared_inv k u" if "shared_inv_with k hs u" for u
    using that unfolding shared_inv_def by blast
  from assms(1) show ?thesis
  proof cases
    case p_start
    then show ?thesis using ok [OF inv_p_start [OF inv]] by simp
  next
    case p_full
    then show ?thesis using ok [OF inv_p_load(1) [OF inv p_full(2-4)]] by simp
  next
    case p_free
    then show ?thesis using ok [OF inv_p_load(2) [OF inv p_free(2-5)]] by simp
  next
    case p_assign
    then show ?thesis using ok [OF inv_p_assign [OF inv p_assign(2)]] by simp
  next
    case p_store
    then show ?thesis using ok [OF inv_p_store [OF inv p_store(2)]] by simp
  next
    case c_start
    then show ?thesis using ok [OF inv_c_start [OF inv c_start(2-4)]] by simp
  next
    case c_read
    then show ?thesis using ok [OF inv_c_read(3) [OF inv c_read(2,3)]] by simp
  next
    case c_done
    then show ?thesis using inv_c_done [OF inv c_done(2,3)] by simp
  qed
qed

lemma shared_inv_reachable: "ring_step\<^sup>*\<^sup>* (shared_init k) s \<Longrightarrow> shared_inv k s"
  by (induction rule: rtranclp_induct) (auto intro: shared_inv_init shared_inv_step)

text \<open>
  The conflicting accesses: the producer assigns a slot while the consumer is about to read one.
  The consumer only reads records whose publication it has seen.
\<close>

definition race_free :: "SharedRing \<Rightarrow> bool" where
  "race_free s \<longleftrightarrow>
     (case sr_cons s of
        CIdle \<Rightarrow> True
      | CLoop h u c \<Rightarrow>
          h = u \<or> length (sr_delivered s) < sr_tail_seen s \<and>
            (case sr_prod s of PAssign p t n \<Rightarrow> t \<noteq> h | _ \<Rightarrow> True))"

lemma shared_inv_race_free:
  assumes "shared_inv k s"
  shows "race_free s"
proof (cases "sr_cons s")
  case (CLoop h u c)
  obtain hs where inv: "shared_inv_with k hs s"
    using assms unfolding shared_inv_def by blast
  have "length (sr_delivered s) < sr_tail_seen s \<and> t \<noteq> h" if "h \<noteq> u" "sr_prod s = PAssign p t n" for p t n
  proof -
    have "length (sr_delivered s) < sr_tail_seen s" "sr_tail_seen s \<le> length (sr_written s)"
      using inv_c_read(2) [OF inv CLoop that(1)] inv unfolding shared_inv_with_def Let_def by simp_all
    moreover have "h = length (sr_delivered s) mod 2 ^ k" "t = length (sr_written s) mod 2 ^ k"
      using inv CLoop that(2) unfolding shared_inv_with_def Let_def by simp_all
    ultimately show ?thesis
      using inv_window [OF inv, of "length (sr_delivered s)"] by simp
  qed
  moreover have "length (sr_delivered s) < sr_tail_seen s" if "h \<noteq> u"
    using inv_c_read(2) [OF inv CLoop that] .
  ultimately show ?thesis
    using CLoop by (auto simp: race_free_def split: producer_pc.split)
qed (simp add: race_free_def)

lemma shared_inv_bounds:
  assumes "shared_inv k s"
  shows "prefix (sr_delivered s) (sr_written s) \<and> length (sr_written s) < length (sr_delivered s) + 2 ^ k"
proof -
  obtain hs where inv: "shared_inv_with k hs s"
    using assms unfolding shared_inv_def by blast
  moreover have "hs ! sr_head_seen s \<le> last hs"
    using inv seen_le_last unfolding shared_inv_with_def Let_def by blast
  ultimately show ?thesis
    unfolding shared_inv_with_def Let_def by (auto dest: le_trans)
qed

text \<open>
  C11: The ring is safe under every interleaving of its two threads and every outcome of the
  acquire loads.  In every reachable state of a ring with \<open>2 ^ k\<close> slots, the delivered records are
  a prefix of the published ones (nothing is lost, duplicated, reordered or torn), at most
  \<open>2 ^ k - 1\<close> records are in flight, and the producer never assigns the slot the consumer is about
  to read.
\<close>

theorem spsc_safe:
  assumes "ring_step\<^sup>*\<^sup>* (shared_init k) s"
  shows "prefix (sr_delivered s) (sr_written s) \<and>
    length (sr_written s) < length (sr_delivered s) + 2 ^ k \<and> race_free s"
  using shared_inv_bounds shared_inv_race_free shared_inv_reachable [OF assms] by blast

definition sample_run :: "nat \<Rightarrow> SharedRing" where
  "sample_run n =
     [shared_init 1,
      shared_init 1\<lparr>sr_prod := PLoad ''x'' 0 1\<rparr>,
      shared_init 1\<lparr>sr_prod := PAssign ''x'' 0 1\<rparr>,
      shared_init 1\<lparr>sr_slots := [''x'', []], sr_prod := PStore ''x'' 1\<rparr>,
      shared_init 1\<lparr>sr_slots := [''x'', []], sr_tails := [0, 1], sr_written := [''x'']\<rparr>,
      shared_init 1\<lparr>sr_slots := [''x'', []], sr_tails := [0, 1], sr_written := [''x''], sr_tail_seen := 1,
        sr_cons := CLoop 0 1 0\<rparr>,
      shared_init 1\<lparr>sr_slots := [''x'', []], sr_tails := [0, 1], sr_written := [''x''], sr_tail_seen := 1,
        sr_delivered := [''x''], sr_cons := CLoop 1 1 1\<rparr>] ! n"

lemma sample_steps:
  "ring_step (sample_run 0) (sample_run 1)" "ring_step (sample_run 1) (sample_run 2)"
  "ring_step (sample_run 2) (sample_run 3)" "ring_step (sample_run 3) (sample_run 4)"
  "ring_step (sample_run 4) (sample_run 5)" "ring_step (sample_run 5) (sample_run 6)"
  using p_start [of "sample_run 0" "''x''"] p_free [of "sample_run 1" "''x''" 0 1 0]
    p_assign [of "sample_run 2" "''x''" 0 1] p_store [of "sample_run 3" "''x''" 1]
    c_start [of "sample_run 4" 1] c_read [of "sample_run 5" 0 1 0]
  by (simp_all add: sample_run_def shared_init_def numeral_eq_Suc)

lemma sample_reach: "ring_step\<^sup>*\<^sup>* (sample_run 0) (sample_run 5)"
  by (rule rtranclp.rtrancl_into_rtrancl [of ring_step, OF _ sample_steps(5)],
      rule rtranclp.rtrancl_into_rtrancl [of ring_step, OF _ sample_steps(4)],
      rule rtranclp.rtrancl_into_rtrancl [of ring_step, OF _ sample_steps(3)],
      rule rtranclp.rtrancl_into_rtrancl [of ring_step, OF _ sample_steps(2)],
      rule r_into_rtranclp [of ring_step, OF sample_steps(1)])

theorem spsc_safe_witness:
  "prefix (sr_delivered (sample_run 6)) (sr_written (sample_run 6)) \<and>
    length (sr_written (sample_run 6)) < length (sr_delivered (sample_run 6)) + 2 ^ 1 \<and> race_free (sample_run 6)"
proof (rule spsc_safe)
  have "ring_step\<^sup>*\<^sup>* (sample_run 0) (sample_run 6)"
    using sample_reach sample_steps(6) by (rule rtranclp.rtrancl_into_rtrancl)
  then show "ring_step\<^sup>*\<^sup>* (shared_init 1) (sample_run 6)"
    by (simp add: sample_run_def)
qed

section \<open>The consumer never gets stuck\<close>

text \<open>From the loop, the consumer alone reaches the end of \<open>drain\<close> with everything it has seen delivered.\<close>

lemma drain_finishes:
  assumes "shared_inv k s" "sr_cons s = CLoop h t n"
  shows "\<exists>s'. ring_step\<^sup>*\<^sup>* s s' \<and> sr_cons s' = CIdle \<and> sr_written s' = sr_written s \<and> sr_tails s' = sr_tails s \<and>
    length (sr_delivered s') = sr_tail_seen s \<and> shared_inv k s'"
  using assms
proof (induction "sr_tail_seen s - length (sr_delivered s)" arbitrary: s h n rule: less_induct)
  case less
  obtain hs where inv: "shared_inv_with k hs s"
    using less.prems(1) unfolding shared_inv_def by blast
  show ?case
  proof (cases "h = t")
    case True
    let ?s = "s\<lparr>sr_heads := (if n \<noteq> 0 then sr_heads s @ [h] else sr_heads s), sr_cons := CIdle\<rparr>"
    have step: "ring_step s ?s"
      using less.prems(2) True by (rule c_done)
    have inv': "shared_inv k ?s"
      using shared_inv_step [OF step less.prems(1)] .
    then obtain hs' where "shared_inv_with k hs' ?s"
      unfolding shared_inv_def by blast
    then have "length (sr_delivered s) = sr_tail_seen s"
      unfolding shared_inv_with_def Let_def by simp
    with step inv' show ?thesis
      by (intro exI [of _ ?s]) auto
  next
    case False
    let ?s = "s\<lparr>sr_delivered := sr_delivered s @ [sr_slots s ! h], sr_cons := CLoop ((h + 1) AND sr_mask s) t (n + 1)\<rparr>"
    have step: "ring_step s ?s"
      using less.prems(2) False by (rule c_read)
    have "sr_tail_seen ?s - length (sr_delivered ?s) < sr_tail_seen s - length (sr_delivered s)"
      using inv_c_read(2) [OF inv less.prems(2) False] by simp
    from less.hyps [OF this shared_inv_step [OF step less.prems(1)]]
    obtain s' where "ring_step\<^sup>*\<^sup>* ?s s'" "sr_cons s' = CIdle" "sr_written s' = sr_written s" "sr_tails s' = sr_tails s"
        "length (sr_delivered s') = sr_tail_seen s" "shared_inv k s'"
      by auto
    with step show ?thesis
      by (intro exI [of _ s']) (auto intro: converse_rtranclp_into_rtranclp)
  qed
qed

lemma drain_newest:
  assumes "shared_inv k s" "sr_cons s = CIdle"
  shows "\<exists>s'. ring_step\<^sup>*\<^sup>* s s' \<and> sr_written s' = sr_written s \<and> sr_delivered s' = sr_written s"
proof -
  obtain hs where inv: "shared_inv_with k hs s"
    using assms(1) unfolding shared_inv_def by blast
  let ?w = "length (sr_written s)"
  let ?s = "s\<lparr>sr_tail_seen := ?w, sr_cons := CLoop (last (sr_heads s)) (sr_tails s ! ?w) 0\<rparr>"
  have "sr_tail_seen s \<le> ?w" "?w < length (sr_tails s)"
    using inv unfolding shared_inv_with_def Let_def by simp_all
  then have step: "ring_step s ?s"
    by (intro c_start assms(2))
  have cons: "sr_cons ?s = CLoop (last (sr_heads s)) (sr_tails s ! ?w) 0"
    and eqs: "sr_tail_seen ?s = ?w" "sr_written ?s = sr_written s"
    by simp_all
  obtain s' where s': "ring_step\<^sup>*\<^sup>* ?s s'" "sr_written s' = sr_written s" "length (sr_delivered s') = ?w" "shared_inv k s'"
    using drain_finishes [OF shared_inv_step [OF step assms(1)] cons] unfolding eqs by blast
  have "prefix (sr_delivered s') (sr_written s)"
    using shared_inv_bounds [OF s'(4)] s'(2) by simp
  then have "sr_delivered s' = sr_written s"
    using s'(3) by (metis append_eq_conv_conj prefixE take_all order_refl)
  moreover have "ring_step\<^sup>*\<^sup>* s s'"
    using step s'(1) by (rule converse_rtranclp_into_rtranclp)
  ultimately show ?thesis using s'(2) by blast
qed

text \<open>
  The consumer is never stuck.  From every reachable state, whatever the producer is doing,
  the consumer's own steps can lead to a state in which every published record has been
  delivered, with no further record published on the way.
\<close>

theorem spsc_drains:
  assumes "ring_step\<^sup>*\<^sup>* (shared_init k) s"
  shows "\<exists>s'. ring_step\<^sup>*\<^sup>* s s' \<and> sr_written s' = sr_written s \<and> sr_delivered s' = sr_written s"
proof (cases "sr_cons s")
  case CIdle
  then show ?thesis
    using drain_newest [OF shared_inv_reachable [OF assms]] by blast
next
  case (CLoop h t n)
  then obtain s1 where s1: "ring_step\<^sup>*\<^sup>* s s1" "sr_cons s1 = CIdle" "sr_written s1 = sr_written s" "shared_inv k s1"
    using drain_finishes [OF shared_inv_reachable [OF assms]] by blast
  then show ?thesis
    using drain_newest [OF s1(4,2)] by (auto intro: rtranclp_trans)
qed

theorem spsc_drains_witness:
  "\<exists>s'. ring_step\<^sup>*\<^sup>* (sample_run 5) s' \<and> sr_written s' = sr_written (sample_run 5) \<and> sr_delivered s' = sr_written (sample_run 5)"
proof (rule spsc_drains)
  show "ring_step\<^sup>*\<^sup>* (shared_init 1) (sample_run 5)"
    using sample_reach by (simp add: sample_run_def)
qed

end
