(* ===== verification/Csv_Sink.thy ===== *)
theory Csv_Sink
  imports Spsc_Ring
begin

text \<open>
  The line sink (\<open>CsvSink\<close> in \<open>include/csv_writer.hpp\<close> and \<open>src/csv_writer.cpp\<close>): the owner thread
  writes records, flushes and closes; in asynchronous mode a writer thread drains the ring into
  the file.

  The file is its content on disk and the bytes buffered in the \<open>FILE\<close>.  \<open>fwrite\<close> may accept fewer
  bytes than asked for, and \<open>fflush\<close> may write fewer bytes than are buffered (a full disk): every
  call takes its outcome as an argument, so the theorems hold for every behaviour of the file
  system.  The code looks at the result of \<open>fwrite\<close> and ignores that of \<open>fflush\<close> and \<open>fclose\<close>; the
  field \<open>sk_flush_failed\<close> has no counterpart in the code and records what it does not see.  Ring operations are steps of their
  own, as \<open>Spsc_Ring\<close> shows that they may be taken to be; the spinning of \<open>write\<close> on a full ring is
  the absence of a step.
\<close>

section \<open>State and operations\<close>

datatype owner_pc = Owner | FlushWait | Joining | Closed
datatype writer_pc = NoThread | Draining | FlushCheck nat | StopCheck nat | Finished

record CsvSink =
  sk_open :: bool
  sk_async :: bool
  sk_ring :: Ring
  sk_stop :: bool
  sk_flush_req :: bool
  sk_werr :: bool
  sk_flush_failed :: bool
  sk_buf :: string
  sk_disk :: string
  sk_owner :: owner_pc
  sk_writer :: writer_pc

definition sink_open :: "bool \<Rightarrow> bool \<Rightarrow> nat \<Rightarrow> CsvSink option" where
  "sink_open fopen_ok async ring_pow2 =
     (if \<not> fopen_ok then None
      else Some \<lparr>sk_open = True, sk_async = async, sk_ring = new_ring (if async then ring_pow2 else 1),
        sk_stop = False, sk_flush_req = False, sk_werr = False, sk_flush_failed = False, sk_buf = [], sk_disk = [],
        sk_owner = Owner, sk_writer = (if async then Draining else NoThread)\<rparr>)"

text \<open>\<open>fwrite\<close> of a record, of which \<open>m\<close> bytes are accepted, with the sticky error flag.\<close>

definition fwrite_record :: "CsvSink \<Rightarrow> string \<times> nat \<Rightarrow> CsvSink" where
  "fwrite_record s pm = s\<lparr>sk_buf := sk_buf s @ take (snd pm) (fst pm),
     sk_werr := (sk_werr s \<or> snd pm < length (fst pm))\<rparr>"

text \<open>\<open>fflush\<close>, of which the outcome is the number of bytes written and whether the rest stays in
  the buffer (the C standard leaves this open).\<close>

definition fflush :: "nat \<times> bool \<Rightarrow> CsvSink \<Rightarrow> CsvSink" where
  "fflush fo s = s\<lparr>sk_disk := sk_disk s @ take (fst fo) (sk_buf s),
     sk_buf := (if snd fo then drop (fst fo) (sk_buf s) else []),
     sk_flush_failed := (sk_flush_failed s \<or> fst fo < length (sk_buf s))\<rparr>"

text \<open>\<open>fflush\<close> and \<open>fclose\<close>, which writes what the first one left in the buffer.\<close>

definition close_file :: "nat \<times> bool \<Rightarrow> nat \<times> bool \<Rightarrow> CsvSink \<Rightarrow> CsvSink" where
  "close_file fo fo' s = (fflush fo' (fflush fo s))\<lparr>sk_open := False, sk_owner := Closed\<rparr>"

text \<open>The owner's operations in synchronous mode.\<close>

definition sync_write :: "CsvSink \<Rightarrow> string \<times> nat \<Rightarrow> CsvSink" where
  "sync_write s pm = (if \<not> sk_open s then s else fwrite_record s pm)"

definition sync_flush :: "nat \<times> bool \<Rightarrow> CsvSink \<Rightarrow> CsvSink" where
  "sync_flush fo s = (if \<not> sk_open s then s else fflush fo s)"

definition sync_close :: "nat \<times> bool \<Rightarrow> nat \<times> bool \<Rightarrow> CsvSink \<Rightarrow> CsvSink" where
  "sync_close fo fo' s = (if \<not> sk_open s then s else close_file fo fo' s)"

text \<open>Both threads in asynchronous mode; the label lists the records a step accepts, at most one.\<close>

inductive sink_step :: "CsvSink \<Rightarrow> string list \<Rightarrow> CsvSink \<Rightarrow> bool" where
  o_write:
    "sk_owner s = Owner \<Longrightarrow> try_write (sk_ring s) p = (r, True) \<Longrightarrow>
     sink_step s [p] (s\<lparr>sk_ring := r\<rparr>)"
| o_flush:
    "sk_owner s = Owner \<Longrightarrow> sink_step s [] (s\<lparr>sk_flush_req := True, sk_owner := FlushWait\<rparr>)"
| o_flushed:
    "sk_owner s = FlushWait \<Longrightarrow> \<not> sk_flush_req s \<Longrightarrow> sink_step s [] (s\<lparr>sk_owner := Owner\<rparr>)"
| o_close:
    "sk_owner s = Owner \<Longrightarrow> sink_step s [] (s\<lparr>sk_stop := True, sk_owner := Joining\<rparr>)"
| o_closed:
    "sk_owner s = Joining \<Longrightarrow> sk_writer s = Finished \<Longrightarrow>
     sink_step s [] (close_file fo fo' s)"
| w_drain:
    "sk_writer s = Draining \<Longrightarrow> drain (sk_ring s) = Some (r, recs) \<Longrightarrow> length ms = length recs \<Longrightarrow>
     sink_step s [] ((foldl fwrite_record s (zip recs ms))\<lparr>sk_ring := r, sk_writer := FlushCheck (length recs)\<rparr>)"
| w_flush:
    "sk_writer s = FlushCheck n \<Longrightarrow>
     sink_step s [] ((if sk_flush_req s \<and> ring_empty (sk_ring s) then (fflush fo s)\<lparr>sk_flush_req := False\<rparr> else s)
       \<lparr>sk_writer := StopCheck n\<rparr>)"
| w_stop:
    "sk_writer s = StopCheck n \<Longrightarrow>
     sink_step s [] (s\<lparr>sk_writer := (if n = 0 \<and> sk_stop s \<and> ring_empty (sk_ring s) then Finished else Draining)\<rparr>)"

text \<open>Runs, with the records accepted so far.\<close>

abbreviation sink_run :: "CsvSink \<Rightarrow> string list \<Rightarrow> CsvSink \<Rightarrow> bool" where
  "sink_run \<equiv> system_run sink_step"

lemmas sink_first = run_single [where step = sink_step]
lemmas sink_more = run_step [where step = sink_step]

section \<open>The invariant\<close>

definition pending :: "CsvSink \<Rightarrow> string" where
  "pending s = concat (ring_contents (sk_ring s))"

definition sink_inv :: "nat \<Rightarrow> string list \<Rightarrow> CsvSink \<Rightarrow> bool" where
  "sink_inv N ps s \<longleftrightarrow>
     ring_wf N (sk_ring s) \<and>
     (sk_werr s \<or> sk_flush_failed s \<or> sk_disk s @ sk_buf s @ pending s = concat ps) \<and>
     (sk_owner s = FlushWait \<and> \<not> sk_flush_req s \<longrightarrow>
        ring_contents (sk_ring s) = [] \<and> (sk_flush_failed s \<or> sk_buf s = [])) \<and>
     (sk_stop s \<longleftrightarrow> sk_owner s = Joining \<or> sk_owner s = Closed) \<and>
     (sk_writer s = Finished \<longrightarrow> sk_stop s \<and> ring_contents (sk_ring s) = []) \<and>
     (sk_owner s = Closed \<longrightarrow> sk_writer s = Finished \<and> (sk_flush_failed s \<or> sk_buf s = [])) \<and>
     sk_writer s \<noteq> NoThread"

text \<open>Without an error, \<open>fwrite\<close> appends the records.\<close>

lemma fwrite_sticky: "sk_werr s \<Longrightarrow> sk_werr (foldl fwrite_record s pms)"
  by (induction pms arbitrary: s) (auto simp: fwrite_record_def)

lemma fwrite_records:
  assumes "length ms = length recs"
  shows "sk_werr (foldl fwrite_record s (zip recs ms)) \<or>
    sk_buf (foldl fwrite_record s (zip recs ms)) = sk_buf s @ concat recs"
  using assms [symmetric]
proof (induction recs ms arbitrary: s rule: list_induct2)
  case (Cons x xs y ys)
  show ?case
  proof (cases "y < length x")
    case True
    then have "sk_werr (fwrite_record s (x, y))" by (simp add: fwrite_record_def)
    then show ?thesis
      using fwrite_sticky by simp
  next
    case False
    then have "sk_buf (fwrite_record s (x, y)) = sk_buf s @ x" by (simp add: fwrite_record_def)
    then show ?thesis
      using Cons.IH [of "fwrite_record s (x, y)"] by simp
  qed
qed simp

lemma fwrite_keeps:
  "sk_disk (foldl fwrite_record s pms) = sk_disk s"
  "sk_owner (foldl fwrite_record s pms) = sk_owner s"
  "sk_flush_req (foldl fwrite_record s pms) = sk_flush_req s"
  "sk_stop (foldl fwrite_record s pms) = sk_stop s"
  "sk_flush_failed (foldl fwrite_record s pms) = sk_flush_failed s"
  by (induction pms arbitrary: s) (auto simp: fwrite_record_def)

text \<open>A flush that does not fail moves the buffer to the disk.\<close>

lemma fflush_result:
  "sk_flush_failed (fflush fo s) \<or> \<not> sk_flush_failed s \<and>
     sk_disk (fflush fo s) = sk_disk s @ sk_buf s \<and> sk_buf (fflush fo s) = []"
  by (auto simp: fflush_def not_less)

lemma fflush_keeps [simp]:
  "sk_ring (fflush fo s) = sk_ring s" "sk_stop (fflush fo s) = sk_stop s" "sk_werr (fflush fo s) = sk_werr s"
  "sk_owner (fflush fo s) = sk_owner s" "sk_writer (fflush fo s) = sk_writer s"
  "sk_flush_req (fflush fo s) = sk_flush_req s"
  by (simp_all add: fflush_def)

lemma close_file_result:
  "sk_flush_failed (close_file fo fo' s) \<or>
     sk_disk (close_file fo fo' s) = sk_disk s @ sk_buf s \<and> sk_buf (close_file fo fo' s) = [] \<and> \<not> sk_flush_failed s"
  using fflush_result [of fo s] fflush_result [of fo' "fflush fo s"] by (auto simp: close_file_def)

lemma sink_inv_open: "sink_open True True (2 ^ k) = Some s \<Longrightarrow> sink_inv (2 ^ k) [] s"
  using ring_wf_new [of k] by (auto simp: sink_open_def sink_inv_def pending_def)

lemma sink_inv_write:
  assumes inv: "sink_inv N ps s" and "sk_owner s = Owner" "try_write (sk_ring s) p = (r, True)"
  shows "sink_inv N (ps @ [p]) (s\<lparr>sk_ring := r\<rparr>)"
proof -
  have wf: "ring_wf N (sk_ring s)" using inv by (simp add: sink_inv_def)
  have "ring_wf N r" "ring_contents r = ring_contents (sk_ring s) @ [p]"
    using ring.put_wf [OF wf, of p] ring.put_contents [OF wf, of p] assms(3) by auto
  with inv assms(2) show ?thesis
    by (auto simp: sink_inv_def pending_def)
qed

lemma sink_inv_drain:
  assumes inv: "sink_inv N ps s" and "sk_writer s = Draining"
    and dr: "drain (sk_ring s) = Some (r, recs)" and len: "length ms = length recs"
  shows "sink_inv N ps ((foldl fwrite_record s (zip recs ms))\<lparr>sk_ring := r, sk_writer := FlushCheck (length recs)\<rparr>)"
proof -
  have wf: "ring_wf N (sk_ring s)" using inv by (simp add: sink_inv_def)
  have r: "recs = ring_contents (sk_ring s)" "ring_wf N r" "ring_contents r = []"
    using ring.take_all_ok [OF wf] dr by auto
  have "sk_buf (foldl fwrite_record s (zip recs ms)) = []" if "recs = []" "sk_buf s = []"
    using that by simp
  with r inv assms(2) fwrite_records [OF len, of s] fwrite_sticky [of s "zip recs ms"] show ?thesis
    unfolding sink_inv_def by (auto simp: pending_def fwrite_keeps)
qed

lemma sink_inv_step:
  assumes "sink_step s l s'" "sink_inv N ps s"
  shows "sink_inv N (ps @ l) s'"
  using assms(1)
proof cases
  case (o_write p r)
  then show ?thesis using sink_inv_write [OF assms(2)] by simp
next
  case (w_drain r recs ms)
  then show ?thesis using sink_inv_drain [OF assms(2)] by simp
next
  case (w_flush n fo)
  have "ring_empty (sk_ring s) \<longleftrightarrow> ring_contents (sk_ring s) = []"
    using assms(2) ring.empty_iff by (auto simp: sink_inv_def)
  with w_flush assms(2) show ?thesis
    using fflush_result [of fo s] by (auto simp: sink_inv_def pending_def)
next
  case (w_stop n)
  have "ring_empty (sk_ring s) \<longleftrightarrow> ring_contents (sk_ring s) = []"
    using assms(2) ring.empty_iff by (auto simp: sink_inv_def)
  with w_stop assms(2) show ?thesis
    by (auto simp: sink_inv_def pending_def)
next
  case (o_closed fo fo')
  have "sk_ring s' = sk_ring s" "sk_stop s' = sk_stop s" "sk_werr s' = sk_werr s" "sk_owner s' = Closed"
      "sk_writer s' = sk_writer s"
    by (simp_all add: o_closed(2) close_file_def)
  then show ?thesis
    using o_closed assms(2) close_file_result [of fo fo' s] by (auto simp: sink_inv_def pending_def)
qed (use assms(2) in \<open>auto simp: sink_inv_def pending_def\<close>)

interpretation sink: guarded_system sink_step "sink_inv N" for N
  by unfold_locales (rule sink_inv_step)


section \<open>Closing returns\<close>

text \<open>Silent steps of the writer, with the owner waiting in \<open>close\<close>.\<close>

definition reaches :: "CsvSink \<Rightarrow> CsvSink \<Rightarrow> bool" where
  "reaches = (\<lambda>s s'. sink_step s [] s')\<^sup>*\<^sup>*"

lemma reaches_step: "sink_step s [] s' \<Longrightarrow> reaches s' s'' \<Longrightarrow> reaches s s''"
  unfolding reaches_def by (rule converse_rtranclp_into_rtranclp)

lemma reaches_run: "reaches s s' \<Longrightarrow> sink_run s [] s'"
  unfolding reaches_def
  by (induction rule: rtranclp_induct) (auto intro: run_refl dest: run_step)

definition waiting :: "nat \<Rightarrow> string list \<Rightarrow> CsvSink \<Rightarrow> bool" where
  "waiting N ps s \<longleftrightarrow> sink_inv N ps s \<and> sk_owner s = Joining"

definition can_close :: "CsvSink \<Rightarrow> bool" where
  "can_close s \<longleftrightarrow> (\<exists>s'. reaches s s' \<and> sk_owner s' = Closed)"

lemma can_close_step: "sink_step s [] s' \<Longrightarrow> can_close s' \<Longrightarrow> can_close s"
  unfolding can_close_def using reaches_step by blast

lemma waiting_step: "sink_step s [] s' \<Longrightarrow> waiting N ps s \<Longrightarrow> sk_owner s' = Joining \<Longrightarrow> waiting N ps s'"
  unfolding waiting_def using sink_inv_step [of s "[]" s' N ps] by simp

lemma close_finished: "waiting N ps s \<Longrightarrow> sk_writer s = Finished \<Longrightarrow> can_close s"
  unfolding waiting_def
  by (rule can_close_step [OF o_closed [of s "(0, True)" "(0, True)"]])
    (auto simp: can_close_def reaches_def close_file_def)

lemma close_stop:
  assumes "waiting N ps s" "sk_writer s = StopCheck n"
    and again: "\<And>s'. n \<noteq> 0 \<or> ring_contents (sk_ring s) \<noteq> [] \<Longrightarrow> waiting N ps s' \<Longrightarrow> sk_writer s' = Draining \<Longrightarrow>
      sk_ring s' = sk_ring s \<Longrightarrow> can_close s'"
  shows "can_close s"
proof -
  let ?s = "s\<lparr>sk_writer := (if n = 0 \<and> sk_stop s \<and> ring_empty (sk_ring s) then Finished else Draining)\<rparr>"
  have step: "sink_step s [] ?s" using assms(2) by (rule w_stop)
  have w: "waiting N ps ?s"
    using waiting_step [OF step assms(1)] assms(1) by (simp add: waiting_def)
  have stop: "sk_stop s" "ring_empty (sk_ring s) \<longleftrightarrow> ring_contents (sk_ring s) = []"
    using assms(1) ring.empty_iff by (auto simp: waiting_def sink_inv_def)
  have "can_close ?s"
    using close_finished [OF w] again [OF _ w] stop by (cases "n = 0 \<and> ring_contents (sk_ring s) = []") auto
  then show ?thesis by (rule can_close_step [OF step])
qed

lemma close_flush:
  assumes "waiting N ps s" "sk_writer s = FlushCheck n"
    and next_s: "\<And>s'. waiting N ps s' \<Longrightarrow> sk_writer s' = StopCheck n \<Longrightarrow> sk_ring s' = sk_ring s \<Longrightarrow> can_close s'"
  shows "can_close s"
proof -
  have step: "sink_step s [] ((if sk_flush_req s \<and> ring_empty (sk_ring s) then (fflush fo s)\<lparr>sk_flush_req := False\<rparr> else s)
       \<lparr>sk_writer := StopCheck n\<rparr>)"
    using assms(2) by (rule w_flush)
  show ?thesis
    using assms(1) by (intro can_close_step [OF step] next_s waiting_step [OF step assms(1)])
      (auto simp: waiting_def fflush_def)
qed

lemma close_drain:
  assumes "waiting N ps s" "sk_writer s = Draining"
    and next_s: "\<And>s'. waiting N ps s' \<Longrightarrow> sk_writer s' = FlushCheck (length (ring_contents (sk_ring s))) \<Longrightarrow>
      ring_contents (sk_ring s') = [] \<Longrightarrow> can_close s'"
  shows "can_close s"
proof -
  have "ring_wf N (sk_ring s)" using assms(1) by (simp add: waiting_def sink_inv_def)
  then obtain r where r: "drain (sk_ring s) = Some (r, ring_contents (sk_ring s))" "ring_contents r = []"
    using ring.take_all_ok by blast
  have step: "sink_step s [] ((foldl fwrite_record s (zip (ring_contents (sk_ring s)) (map length (ring_contents (sk_ring s)))))
      \<lparr>sk_ring := r, sk_writer := FlushCheck (length (ring_contents (sk_ring s)))\<rparr>)"
    using assms(2) r(1) by (rule w_drain) simp
  show ?thesis
    using assms(1) r(2) by (intro can_close_step [OF step] next_s waiting_step [OF step assms(1)])
      (auto simp: waiting_def fwrite_keeps)
qed

lemma close_empty_drain: "waiting N ps s \<Longrightarrow> sk_writer s = Draining \<Longrightarrow> ring_contents (sk_ring s) = [] \<Longrightarrow> can_close s"
  by (erule (1) close_drain, erule (1) close_flush, erule (1) close_stop) simp

lemma close_full_drain: "waiting N ps s \<Longrightarrow> sk_writer s = Draining \<Longrightarrow> can_close s"
  by (erule (1) close_drain, erule (1) close_flush, erule (1) close_stop) (simp add: close_empty_drain)

lemma waiting_can_close: "waiting N ps s \<Longrightarrow> can_close s"
proof (cases "sk_writer s")
  case NoThread
  assume "waiting N ps s"
  with NoThread show ?thesis by (simp add: waiting_def sink_inv_def)
next
  case Draining
  assume "waiting N ps s"
  with Draining show ?thesis by (simp add: close_full_drain)
next
  case (FlushCheck n)
  assume "waiting N ps s"
  from this FlushCheck show ?thesis
    by (rule close_flush) (erule (1) close_stop, rule close_full_drain)
next
  case (StopCheck n)
  assume "waiting N ps s"
  from this StopCheck show ?thesis
    by (rule close_stop) (rule close_full_drain)
next
  case Finished
  assume "waiting N ps s"
  with Finished show ?thesis by (simp add: close_finished)
qed

text \<open>
  C29: \<open>close\<close> cannot hang on the ring.  Whenever the owner waits for the writer thread in \<open>close\<close>,
  the writer's own steps lead to the end of its loop and \<open>close\<close> returns; together with the
  previous property the file then holds every accepted record.
\<close>

theorem sink_close_returns:
  assumes "sink_open True True (2 ^ k) = Some s0" "sink_run s0 ps s" "sk_owner s = Joining"
  shows "\<exists>s'. sink_run s [] s' \<and> sk_owner s' = Closed"
proof -
  have "waiting (2 ^ k) ps s"
    using sink.run_inv [OF assms(2) sink_inv_open [OF assms(1)]] assms(3) by (simp add: waiting_def)
  then show ?thesis
    using waiting_can_close reaches_run unfolding can_close_def by blast
qed

definition sink_sample :: "nat \<Rightarrow> CsvSink" where
  "sink_sample n =
     (let r1 = \<lparr>rg_mask = 1, rg_slots = [''ab'', []], rg_head = 0, rg_tail = 1\<rparr>;
          s0 = \<lparr>sk_open = True, sk_async = True, sk_ring = new_ring 2, sk_stop = False, sk_flush_req = False,
            sk_werr = False, sk_flush_failed = False, sk_buf = [], sk_disk = [], sk_owner = Owner, sk_writer = Draining\<rparr>;
          s1 = s0\<lparr>sk_ring := r1\<rparr>;
          s2 = s1\<lparr>sk_ring := r1\<lparr>rg_head := 1\<rparr>, sk_buf := ''ab'', sk_writer := FlushCheck 1\<rparr>;
          s3 = s2\<lparr>sk_flush_req := True, sk_owner := FlushWait\<rparr>;
          s4 = s3\<lparr>sk_buf := [], sk_disk := ''ab'', sk_flush_req := False, sk_writer := StopCheck 1\<rparr>
      in [s0, s1, s2, s3, s4] ! n)"

lemma sink_sample_steps:
  "sink_step (sink_sample 0) [''ab''] (sink_sample 1)" "sink_step (sink_sample 1) [] (sink_sample 2)"
  "sink_step (sink_sample 2) [] (sink_sample 3)" "sink_step (sink_sample 3) [] (sink_sample 4)"
proof -
  have r: "try_write (new_ring 2) ''ab'' = (\<lparr>rg_mask = 1, rg_slots = [''ab'', []], rg_head = 0, rg_tail = 1\<rparr>, True)"
    "drain \<lparr>rg_mask = 1, rg_slots = [''ab'', []], rg_head = 0, rg_tail = 1\<rparr> =
      Some (\<lparr>rg_mask = 1, rg_slots = [''ab'', []], rg_head = 1, rg_tail = 1\<rparr>, [''ab''])"
    by code_simp+
  then show "sink_step (sink_sample 0) [''ab''] (sink_sample 1)"
    using o_write [of "sink_sample 0" "''ab''"] by (simp add: sink_sample_def Let_def)
  show "sink_step (sink_sample 1) [] (sink_sample 2)"
    using w_drain [of "sink_sample 1" _ "[''ab'']" "[2]"] r(2) by (simp add: sink_sample_def Let_def fwrite_record_def)
  show "sink_step (sink_sample 2) [] (sink_sample 3)"
    using o_flush [of "sink_sample 2"] by (simp add: sink_sample_def Let_def)
  show "sink_step (sink_sample 3) [] (sink_sample 4)"
    using w_flush [of "sink_sample 3" 1 "(2, True)"] by (simp add: sink_sample_def Let_def fflush_def ring_empty_def)
qed

lemma sink_sample_run: "sink_run (sink_sample 0) [''ab''] (sink_sample 4)"
proof -
  have "sink_run (sink_sample 0) [''ab''] (sink_sample 1)"
    using sink_first [OF sink_sample_steps(1)] by simp
  from sink_more [OF this sink_sample_steps(2)] have "sink_run (sink_sample 0) [''ab''] (sink_sample 2)" by simp
  from sink_more [OF this sink_sample_steps(3)] have "sink_run (sink_sample 0) [''ab''] (sink_sample 3)" by simp
  from sink_more [OF this sink_sample_steps(4)] show ?thesis by simp
qed


theorem sink_close_returns_witness:
  "\<exists>s'. sink_run (sink_sample 1\<lparr>sk_stop := True, sk_owner := Joining\<rparr>) [] s' \<and> sk_owner s' = Closed"
proof (rule sink_close_returns)
  show "sink_open True True (2 ^ 1) = Some (sink_sample 0)"
    by (simp add: sink_open_def sink_sample_def Let_def)
  have "sink_step (sink_sample 1) [] (sink_sample 1\<lparr>sk_stop := True, sk_owner := Joining\<rparr>)"
    by (rule o_close) (simp add: sink_sample_def Let_def)
  from sink_more [OF sink_first [OF sink_sample_steps(1)] this]
  show "sink_run (sink_sample 0) [''ab''] (sink_sample 1\<lparr>sk_stop := True, sk_owner := Joining\<rparr>)"
    by simp
qed simp

section \<open>A flush that fails\<close>


end
