(* ===== verification/Capture_Files.thy ===== *)
theory Capture_Files
  imports Replay_Live Csv_Sink
begin

text \<open>
  The files of a live run on disk: the writers over their sinks (\<open>MarketDataWriter\<close> and
  \<open>OrderBookWriter\<close> of \<open>src/csv_writer.cpp\<close>, the sidecar of \<open>src/main.cpp\<close>), in synchronous and in
  asynchronous mode, and the replay that reads what has reached the disk.
\<close>

section \<open>The sink in both modes\<close>

text \<open>The operations of a synchronous sink, with the records a step accepts.\<close>

inductive sync_step :: "CsvSink \<Rightarrow> string list \<Rightarrow> CsvSink \<Rightarrow> bool" where
  y_write: "sk_open s \<Longrightarrow> sync_step s [p] (sync_write s (p, n))"
| y_flush: "sync_step s [] (sync_flush fo s)"
| y_close: "sync_step s [] (sync_close fo fo' s)"

abbreviation sync_run :: "CsvSink \<Rightarrow> string list \<Rightarrow> CsvSink \<Rightarrow> bool" where
  "sync_run \<equiv> system_run sync_step"

text \<open>The use of a sink by its owner in the mode it was opened in, and the states after a
  \<open>flush\<close> or a \<open>close\<close> has returned.\<close>

definition sink_session :: "CsvSink \<Rightarrow> string list \<Rightarrow> CsvSink \<Rightarrow> bool" where
  "sink_session s0 ps s \<longleftrightarrow> (if sk_async s0 then sink_run s0 ps s else sync_run s0 ps s)"

definition settled :: "CsvSink \<Rightarrow> bool" where
  "settled s \<longleftrightarrow>
     (if sk_async s then sk_owner s = Closed \<or> sk_owner s = FlushWait \<and> \<not> sk_flush_req s else sk_buf s = [])"

text \<open>Nothing went wrong: no reported error and no failed flush.\<close>

definition clean :: "CsvSink \<Rightarrow> bool" where
  "clean s \<longleftrightarrow> \<not> sk_werr s \<and> \<not> sk_flush_failed s"

text \<open>The invariant of the synchronous mode; no operation changes the mode.\<close>

definition sync_inv :: "string list \<Rightarrow> CsvSink \<Rightarrow> bool" where
  "sync_inv ps s \<longleftrightarrow> \<not> sk_async s \<and> (\<not> clean s \<or> sk_disk s @ sk_buf s = concat ps)"

lemma fflush_async [simp]: "sk_async (fflush fo s) = sk_async s" "sk_async (close_file fo fo' s) = sk_async s"
  by (simp_all add: fflush_def close_file_def)

lemma sync_inv_step:
  assumes "sync_step s l s'" "sync_inv ps s"
  shows "sync_inv (ps @ l) s'"
  using assms(1)
proof cases
  case (y_write p n)
  then show ?thesis
    using assms(2) by (auto simp: sync_inv_def clean_def sync_write_def fwrite_record_def not_less)
next
  case (y_flush fo)
  then show ?thesis
    using assms(2) fflush_result [of fo s] by (auto simp: sync_inv_def clean_def sync_flush_def)
next
  case (y_close fo fo')
  then show ?thesis
    using assms(2) close_file_result [of fo fo' s]
    by (auto simp: sync_inv_def clean_def sync_close_def) (auto simp: close_file_def)
qed

interpretation sync: guarded_system sync_step sync_inv
  by unfold_locales (rule sync_inv_step)

lemma fwrite_async: "sk_async (foldl fwrite_record s pms) = sk_async s"
  by (induction pms arbitrary: s) (auto simp: fwrite_record_def)

interpretation async: guarded_system sink_step "\<lambda>_ s. sk_async s"
proof unfold_locales
  show "sk_async s'" if "sink_step s l s'" "sk_async s" for s l s'
    using that by cases (simp_all add: fwrite_async)
qed

lemma session_content:
  assumes "sink_open True async (2 ^ k) = Some s0" "sink_session s0 ps s" "settled s" "clean s"
  shows "sk_disk s = concat ps"
proof (cases async)
  case True
  then have s0: "sink_open True True (2 ^ k) = Some s0" "sk_async s0" using assms(1) by (auto simp: sink_open_def)
  then have run: "sink_run s0 ps s"
    using assms(2) by (simp add: sink_session_def)
  have "sink_inv (2 ^ k) ps s" "sk_async s"
    using sink.run_inv [OF run sink_inv_open [OF s0(1)]] async.run_inv [OF run s0(2)] by blast+
  then show ?thesis
    using assms(3,4) by (auto simp: settled_def clean_def sink_inv_def pending_def)
next
  case False
  then have "sync_run s0 ps s" "sync_inv [] s0"
    using assms(1,2) by (auto simp: sink_open_def sink_session_def sync_inv_def)
  then have "sync_inv ps s" by (rule sync.run_inv)
  then show ?thesis
    using assms(3,4) by (simp add: sync_inv_def settled_def)
qed

section \<open>The writers\<close>

text \<open>
  \<open>open\<close> of a writer gives the sink and the header line, the first record it is given; a row is one
  record.  \<open>None\<close> among the rows is a row that does not fit its buffer.
\<close>

definition writer_open :: "string \<Rightarrow> nat \<Rightarrow> bool \<Rightarrow> bool \<Rightarrow> (CsvSink \<times> string) option" where
  "writer_open header ring_pow2 fopen_ok async =
     (case sink_open fopen_ok async ring_pow2 of
        None \<Rightarrow> None
      | Some s \<Rightarrow> Some (s, header @ [CHR 0x0A]))"

definition md_open :: "bool \<Rightarrow> bool \<Rightarrow> (CsvSink \<times> string) option" where
  "md_open = writer_open md_header (2 ^ 13)"

definition ob_open :: "bool \<Rightarrow> bool \<Rightarrow> (CsvSink \<times> string) option" where
  "ob_open = writer_open ob_header (2 ^ 13)"

definition snaps_open :: "bool \<Rightarrow> bool \<Rightarrow> (CsvSink \<times> string) option" where
  "snaps_open = writer_open snap_header (2 ^ 6)"

definition writer_records :: "string \<Rightarrow> string option list \<Rightarrow> string list option" where
  "writer_records h rows = (if None \<in> set rows then None else Some (h # map the rows))"

text \<open>A writer that was opened, was given these rows and has been flushed or closed; and one for which
  nothing has gone wrong.\<close>

definition served_writer :: "(CsvSink \<times> string) option \<Rightarrow> string option list \<Rightarrow> CsvSink \<Rightarrow> bool" where
  "served_writer opened rows s \<longleftrightarrow>
     (\<exists>s0 h ps. opened = Some (s0, h) \<and> writer_records h rows = Some ps \<and> sink_session s0 ps s \<and> settled s)"

definition flushed_writer :: "(CsvSink \<times> string) option \<Rightarrow> string option list \<Rightarrow> CsvSink \<Rightarrow> bool" where
  "flushed_writer opened rows s \<longleftrightarrow> served_writer opened rows s \<and> clean s"

lemma writer_open_file:
  assumes "flushed_writer (writer_open header (2 ^ k) True async) rows s"
  shows "file_of header rows = Some (sk_disk s)"
proof -
  obtain s0 h ps where w: "writer_open header (2 ^ k) True async = Some (s0, h)" "writer_records h rows = Some ps"
      "sink_session s0 ps s" "settled s" "clean s"
    using assms by (auto simp: flushed_writer_def served_writer_def)
  have s0: "sink_open True async (2 ^ k) = Some s0" and h: "h = header @ [CHR 0x0A]"
    using w(1) by (auto simp: writer_open_def split: option.splits)
  have "sk_disk s = concat ps"
    using session_content [OF s0 w(3-5)] .
  then show ?thesis
    using w(2) by (auto simp: writer_records_def file_of_def h split: if_splits)
qed

text \<open>The three kinds of files.\<close>

lemma flushed_files:
  "flushed_writer (md_open True async) rows s \<Longrightarrow> file_of md_header rows = Some (sk_disk s)"
  "flushed_writer (snaps_open True async) rows s \<Longrightarrow> file_of snap_header rows = Some (sk_disk s)"
  "flushed_writer (ob_open True async) rows s \<Longrightarrow> file_of ob_header rows = Some (sk_disk s)"
  unfolding md_open_def snaps_open_def ob_open_def by (erule writer_open_file)+

section \<open>From the network to the disk and back\<close>

text \<open>
  C1: What a live run leaves on disk replays to the same files.  Let a shard process messages that
  leave a faithful capture, and let its audit and sidecar writers, in either mode and for any
  interleaving with their writer threads, be flushed with no write error and no failed flush.  Then
  the replay program, given the bytes on disk, ends without error and has the rows of every
  symbol of the live run; and whenever a live and a replayed order-book writer of a symbol have been
  flushed like this, their files are equal byte for byte.
\<close>

theorem disk_replays_exactly:
  assumes "list_all (good_delivery cfg syms) ds" "in_i32 shard_id"
    and sh: "sh = foldl (deliver cfg shard_id) (new_Shard cfg (dedup syms) new_Metrics) ds"
    and md: "flushed_writer (md_open True async) (map md_row_text (sh_md sh)) md"
    and sn: "flushed_writer (snaps_open True async) (map snap_row_text (sh_snaps sh)) sn"
  shows "\<exists>rp. run_replay (cfg\<lparr>cfg_replay_input := input\<rparr>) [input \<mapsto> sk_disk md, sidecar_path input \<mapsto> sk_disk sn]
        (\<lambda>_. True) m = Inr rp \<and>
      list_all (\<lambda>(s, st). replayed_rows rp s = ss_rows st \<and>
        (\<forall>live rep live_async rep_async.
           flushed_writer (ob_open True live_async) (map ob_row (ss_rows st)) live \<and>
           flushed_writer (ob_open True rep_async) (map ob_row (replayed_rows rp s)) rep \<longrightarrow>
           sk_disk live = sk_disk rep)) (sh_syms sh)"
proof -
  obtain rp where rp: "run_replay (cfg\<lparr>cfg_replay_input := input\<rparr>) [input \<mapsto> sk_disk md, sidecar_path input \<mapsto> sk_disk sn]
      (\<lambda>_. True) m = Inr rp" "list_all (\<lambda>(s, st). replayed_rows rp s = ss_rows st) (sh_syms sh)"
    using replay_of_capture [OF assms(1,2) sh, of input m] flushed_files(1) [OF md] flushed_files(2) [OF sn]
    by (auto simp: md_file_def snap_file_def)
  have same: "sk_disk live = sk_disk rep"
    if "flushed_writer (ob_open True a) rows live" "flushed_writer (ob_open True b) rows rep" for a b rows live rep
    using flushed_files(3) [OF that(1)] flushed_files(3) [OF that(2)] by simp
  show ?thesis
    by (intro exI [of _ rp] conjI rp(1) list.pred_mono_strong [OF rp(2)]) (auto intro: same)
qed

text \<open>A synchronous writer on a file system without errors.\<close>

lemma sync_writes:
  assumes "sk_open s0" "clean s0"
  shows "\<exists>s. sync_run s0 ps s \<and> sk_open s \<and> clean s"
proof (induction ps rule: rev_induct)
  case Nil
  show ?case by (intro exI [of _ s0] conjI run_refl assms)
next
  case (snoc p ps)
  then obtain s where s: "sync_run s0 ps s" "sk_open s" "clean s" by blast
  have "sync_run s0 (ps @ [p]) (sync_write s (p, length p))"
    using run_step [where step = sync_step, OF s(1) y_write [OF s(2)]] by simp
  moreover have "sk_open (sync_write s (p, length p))" "clean (sync_write s (p, length p))"
    using s(2,3) by (simp_all add: sync_write_def fwrite_record_def clean_def)
  ultimately show ?case by blast
qed

lemma sync_writer_exists:
  assumes "None \<notin> set rows"
  shows "\<exists>s. flushed_writer (writer_open header k True False) rows s"
proof -
  let ?h = "header @ [CHR 0x0A]"
  obtain s0 where s0: "sink_open True False k = Some s0" "sk_open s0" "clean s0" "\<not> sk_async s0"
    by (auto simp: sink_open_def clean_def)
  obtain s where s: "sync_run s0 (?h # map the rows) s" "sk_open s" "clean s"
    using sync_writes [OF s0(2,3)] by blast
  let ?s = "sync_flush (length (sk_buf s), True) s"
  have run: "sync_run s0 (?h # map the rows) ?s"
    using run_step [where step = sync_step, OF s(1) y_flush] by simp
  have "sync_inv [] s0"
    using s0 by (auto simp: sync_inv_def sink_open_def)
  then have "\<not> sk_async ?s"
    using sync.run_inv [OF run] by (simp add: sync_inv_def)
  then have "settled ?s" "clean ?s"
    using s by (auto simp: settled_def clean_def sync_flush_def fflush_def)
  with run s0 assms show ?thesis
    by (auto simp: flushed_writer_def served_writer_def writer_open_def writer_records_def sink_session_def)
qed

theorem disk_replays_exactly_witness:
  "\<exists>(md :: CsvSink) (sn :: CsvSink) rp. run_replay (new_Config\<lparr>cfg_replay_input := ''a.csv''\<rparr>)
      [''a.csv'' \<mapsto> sk_disk md, sidecar_path ''a.csv'' \<mapsto> sk_disk sn] (\<lambda>_. True) new_Metrics = Inr rp \<and>
    prefix md_header (sk_disk md)"
proof -
  define sh where "sh = foldl (deliver new_Config 0) (new_Shard new_Config (dedup [''BTC'']) new_Metrics) Replay_Live.sample_run"
  have i: "in_i32 0" by (simp add: range_defs)
  have rows: "None \<notin> set (map md_row_text (sh_md sh))" "None \<notin> set (map snap_row_text (sh_snaps sh))"
    using replay_of_capture [OF sample_run_good i sh_def, of "[]" new_Metrics]
    unfolding md_file_def snap_file_def file_of_def by (auto split: if_splits)
  obtain md where md: "flushed_writer (md_open True False) (map md_row_text (sh_md sh)) md"
    using sync_writer_exists [OF rows(1), of md_header] unfolding md_open_def by blast
  obtain sn where sn: "flushed_writer (snaps_open True False) (map snap_row_text (sh_snaps sh)) sn"
    using sync_writer_exists [OF rows(2), of snap_header] unfolding snaps_open_def by blast
  have "prefix md_header (sk_disk md)"
    using flushed_files(1) [OF md]
    by (auto simp: file_of_def split: if_splits intro: prefixI [OF sym])
  moreover obtain rp where "run_replay (new_Config\<lparr>cfg_replay_input := ''a.csv''\<rparr>)
      [''a.csv'' \<mapsto> sk_disk md, sidecar_path ''a.csv'' \<mapsto> sk_disk sn] (\<lambda>_. True) new_Metrics = Inr rp"
    using disk_replays_exactly [OF sample_run_good i sh_def md sn, of "''a.csv''" new_Metrics] by (elim exE conjE)
  ultimately show ?thesis by blast
qed

end
