(* ===== verification/Shared_Metrics.thy ===== *)
theory Shared_Metrics
  imports Live_Shard
begin

text \<open>
  The shards run in parallel and share nothing but the atomic counters (\<open>include/metrics.hpp\<close>, the
  thread model of \<open>src/main.cpp\<close>).  A handler only adds to the counters and never reads them; so
  what a shard writes does not depend on the others, and the counters are the sum of what the shards
  add, in whatever order the messages of the shards are handled.
\<close>

section \<open>Counters add up\<close>

definition metrics_add :: "Metrics \<Rightarrow> Metrics \<Rightarrow> Metrics" where
  "metrics_add a b = \<lparr>mx_msgs_total = mx_msgs_total a + mx_msgs_total b,
     mx_msgs_depth_diff = mx_msgs_depth_diff a + mx_msgs_depth_diff b, mx_msgs_depth5 = mx_msgs_depth5 a + mx_msgs_depth5 b,
     mx_msgs_trade = mx_msgs_trade a + mx_msgs_trade b, mx_parse_errors = mx_parse_errors a + mx_parse_errors b,
     mx_gaps_detected = mx_gaps_detected a + mx_gaps_detected b, mx_reconnects = mx_reconnects a + mx_reconnects b,
     mx_resyncs = mx_resyncs a + mx_resyncs b, mx_depth5_mismatch = mx_depth5_mismatch a + mx_depth5_mismatch b,
     mx_buffer_overflows = mx_buffer_overflows a + mx_buffer_overflows b,
     mx_md_rows_written = mx_md_rows_written a + mx_md_rows_written b,
     mx_ob_rows_written = mx_ob_rows_written a + mx_ob_rows_written b\<rparr>"

lemma metrics_add_zero [simp]: "metrics_add m new_Metrics = m" "metrics_add new_Metrics m = m"
  by (simp_all add: metrics_add_def new_Metrics_def)

lemma metrics_add_ac:
  "metrics_add (metrics_add a b) c = metrics_add a (metrics_add b c)" "metrics_add a b = metrics_add b a"
  by (simp_all add: metrics_add_def ac_simps)

text \<open>Every counter update of the code commutes with an addition.\<close>

lemma metrics_add_incr:
  "(metrics_add a m)\<lparr>mx_msgs_total := mx_msgs_total (metrics_add a m) + k\<rparr> = metrics_add a (m\<lparr>mx_msgs_total := mx_msgs_total m + k\<rparr>)"
  "(metrics_add a m)\<lparr>mx_msgs_depth_diff := mx_msgs_depth_diff (metrics_add a m) + k\<rparr> = metrics_add a (m\<lparr>mx_msgs_depth_diff := mx_msgs_depth_diff m + k\<rparr>)"
  "(metrics_add a m)\<lparr>mx_msgs_depth5 := mx_msgs_depth5 (metrics_add a m) + k\<rparr> = metrics_add a (m\<lparr>mx_msgs_depth5 := mx_msgs_depth5 m + k\<rparr>)"
  "(metrics_add a m)\<lparr>mx_msgs_trade := mx_msgs_trade (metrics_add a m) + k\<rparr> = metrics_add a (m\<lparr>mx_msgs_trade := mx_msgs_trade m + k\<rparr>)"
  "(metrics_add a m)\<lparr>mx_parse_errors := mx_parse_errors (metrics_add a m) + k\<rparr> = metrics_add a (m\<lparr>mx_parse_errors := mx_parse_errors m + k\<rparr>)"
  "(metrics_add a m)\<lparr>mx_gaps_detected := mx_gaps_detected (metrics_add a m) + k\<rparr> = metrics_add a (m\<lparr>mx_gaps_detected := mx_gaps_detected m + k\<rparr>)"
  "(metrics_add a m)\<lparr>mx_resyncs := mx_resyncs (metrics_add a m) + k\<rparr> = metrics_add a (m\<lparr>mx_resyncs := mx_resyncs m + k\<rparr>)"
  "(metrics_add a m)\<lparr>mx_depth5_mismatch := mx_depth5_mismatch (metrics_add a m) + k\<rparr> = metrics_add a (m\<lparr>mx_depth5_mismatch := mx_depth5_mismatch m + k\<rparr>)"
  "(metrics_add a m)\<lparr>mx_ob_rows_written := mx_ob_rows_written (metrics_add a m) + k\<rparr> = metrics_add a (m\<lparr>mx_ob_rows_written := mx_ob_rows_written m + k\<rparr>)"
  "(metrics_add a m)\<lparr>mx_md_rows_written := mx_md_rows_written (metrics_add a m) + k, mx_msgs_total := mx_msgs_total (metrics_add a m) + k'\<rparr> =
     metrics_add a (m\<lparr>mx_md_rows_written := mx_md_rows_written m + k, mx_msgs_total := mx_msgs_total m + k'\<rparr>)"
  by (simp_all add: metrics_add_def add.assoc)

lemma emit_replayed_adds:
  "foldl emit_replayed (n, rows, metrics_add a m) calls =
     (case foldl emit_replayed (n, rows, m) calls of (n', rows', m') \<Rightarrow> (n', rows', metrics_add a m'))"
proof (induction calls arbitrary: n rows m)
  case (Cons c calls)
  show ?case by (cases c) (simp add: metrics_add_incr Cons.IH)
qed simp

lemma emit_book_row_adds:
  "emit_book_row ts c st (metrics_add a m) = (case emit_book_row ts c st m of (st', m') \<Rightarrow> (st', metrics_add a m'))"
  by (simp add: emit_book_row_def metrics_add_incr)

lemma resync_adds:
  "resync cfg env st s (metrics_add a m) snaps = (case resync cfg env st s m snaps of (st', m', snaps') \<Rightarrow> (st', metrics_add a m', snaps'))"
  by (simp add: resync_def Let_def emit_replayed_adds metrics_add_incr split: prod.split)

lemma handle_kind_adds:
  "handle_kind cfg env kind ts s st (metrics_add a m) snaps =
     (case handle_kind cfg env kind ts s st m snaps of (st', m', snaps') \<Rightarrow> (st', metrics_add a m', snaps'))"
proof (cases kind)
  case DepthDiff
  have gap: "(if g then (metrics_add a m1)\<lparr>mx_gaps_detected := mx_gaps_detected (metrics_add a m1) + 1\<rparr> else metrics_add a m1) =
      metrics_add a (if g then m1\<lparr>mx_gaps_detected := mx_gaps_detected m1 + 1\<rparr> else m1)" for g m1
    by (simp add: metrics_add_incr)
  show ?thesis
    unfolding handle_kind_def DepthDiff StreamKind.case Let_def metrics_add_incr gap
    by (simp add: emit_book_row_adds resync_adds split: prod.split)
next
  case Depth5
  then show ?thesis
    by (simp add: handle_kind_def Let_def metrics_add_def add.assoc)
next
  case Trade
  show ?thesis
    unfolding handle_kind_def Trade StreamKind.case Let_def metrics_add_incr
    by (simp add: emit_book_row_adds split: prod.split)
qed

lemma handler_adds:
  "handler cfg shard_id env (sh\<lparr>sh_metrics := metrics_add a m\<rparr>) frame e q =
     (let sh' = handler cfg shard_id env (sh\<lparr>sh_metrics := m\<rparr>) frame e q in sh'\<lparr>sh_metrics := metrics_add a (sh_metrics sh')\<rparr>)"
proof -
  have err: "(if g then (metrics_add a m)\<lparr>mx_parse_errors := mx_parse_errors (metrics_add a m) + 1\<rparr> else metrics_add a m) =
      metrics_add a (if g then m\<lparr>mx_parse_errors := mx_parse_errors m + 1\<rparr> else m)" for g
    by (simp add: metrics_add_incr)
  show ?thesis
    unfolding handler_def Let_def Shard.select_convs Shard.update_convs
    by (simp add: err metrics_add_incr handle_kind_adds split: prod.split option.split)
qed


section \<open>Parallel shards\<close>

text \<open>
  The state of the process: the shards by number, and the counters they share.  A schedule is the
  order in which the messages of all shards are handled; the shards' own \<open>sh_metrics\<close> holds what the
  shard added.
\<close>

record Process =
  pr_shards :: "nat \<Rightarrow> Shard"
  pr_metrics :: Metrics

fun pr_deliver :: "Config \<Rightarrow> Process \<Rightarrow> nat \<times> delivery \<Rightarrow> Process" where
  "pr_deliver cfg p (i, d) =
     (let sh = deliver cfg (int i) ((pr_shards p i)\<lparr>sh_metrics := pr_metrics p\<rparr>) d
      in \<lparr>pr_shards = (pr_shards p)(i := sh\<lparr>sh_metrics := new_Metrics\<rparr>), pr_metrics = sh_metrics sh\<rparr>)"

definition sum_metrics :: "Metrics list \<Rightarrow> Metrics" where
  "sum_metrics ms = foldr metrics_add ms new_Metrics"

text \<open>The messages of one shard in a schedule.\<close>

definition own :: "nat \<Rightarrow> (nat \<times> delivery) list \<Rightarrow> delivery list" where
  "own i sched = map snd (filter (\<lambda>x. fst x = i) sched)"

lemma deliver_adds:
  "deliver cfg shard_id (sh\<lparr>sh_metrics := metrics_add a (sh_metrics sh)\<rparr>) d =
     (let sh' = deliver cfg shard_id sh d in sh'\<lparr>sh_metrics := metrics_add a (sh_metrics sh')\<rparr>)"
proof (cases d)
  case (fields env frame e q)
  then show ?thesis
    using handler_adds [where sh = sh and m = "sh_metrics sh"] by simp
qed

lemma sum_metrics_update:
  assumes "i < n" "f' i = metrics_add (f i) x" "\<And>j. j \<noteq> i \<Longrightarrow> f' j = f j"
  shows "sum_metrics (map f' [0..<n]) = metrics_add (sum_metrics (map f [0..<n])) x"
proof -
  have step: "foldr metrics_add ms (metrics_add z x) = metrics_add (foldr metrics_add ms z) x" for ms z
    by (induction ms) (simp_all add: metrics_add_ac(1))
  have same: "map f' [a..<b] = map f [a..<b]" if "i < a \<or> b \<le> i" for a b
    using assms(3) that by auto
  have split: "[0..<n] = [0..<i] @ [i] @ [Suc i..<n]"
    using assms(1) upt_add_eq_append [of 0 i "n - i"] upt_conv_Cons [of i n] by simp
  have "foldr metrics_add [f' i] z = metrics_add (foldr metrics_add [f i] z) x" for z
    using assms(2) by (simp add: metrics_add_ac(1)) (metis metrics_add_ac)
  then show ?thesis
    unfolding sum_metrics_def split by (simp add: same step)
qed


text \<open>A shard run with counters of its own.\<close>

definition alone :: "Config \<Rightarrow> nat \<Rightarrow> string list \<Rightarrow> delivery list \<Rightarrow> Shard" where
  "alone cfg i syms ds = foldl (deliver cfg (int i)) (new_Shard cfg (dedup syms) new_Metrics) ds"

lemma own_snoc: "own i (sched @ [(j, d)]) = own i sched @ (if i = j then [d] else [])"
  by (simp add: own_def)

lemma shards_run:
  assumes "list_all (\<lambda>(i, d). i < length groups) sched"
    and "p = foldl (pr_deliver cfg) \<lparr>pr_shards = (\<lambda>i. new_Shard cfg (dedup (groups ! i)) new_Metrics), pr_metrics = m\<rparr> sched"
  shows "(\<forall>i. pr_shards p i = (alone cfg i (groups ! i) (own i sched))\<lparr>sh_metrics := new_Metrics\<rparr>) \<and>
    pr_metrics p = metrics_add m (sum_metrics (map (\<lambda>i. sh_metrics (alone cfg i (groups ! i) (own i sched))) [0..<length groups]))"
  using assms
proof (induction sched arbitrary: p rule: rev_induct)
  case Nil
  have "sum_metrics (map (\<lambda>i. new_Metrics) ks) = new_Metrics" for ks :: "nat list"
    by (induction ks) (simp_all add: sum_metrics_def)
  with Nil show ?case
    by (simp add: alone_def own_def new_Shard_def)
next
  case (snoc x sched)
  obtain i d where x: "x = (i, d)" by (cases x)
  let ?p0 = "foldl (pr_deliver cfg) \<lparr>pr_shards = (\<lambda>i. new_Shard cfg (dedup (groups ! i)) new_Metrics), pr_metrics = m\<rparr> sched"
  define al where "al s j = alone cfg j (groups ! j) (own j s)" for s j
  have i: "i < length groups" using snoc.prems(1) by (simp add: x)
  have ih: "pr_shards ?p0 j = (al sched j)\<lparr>sh_metrics := new_Metrics\<rparr>" 
      "pr_metrics ?p0 = metrics_add m (sum_metrics (map (\<lambda>j. sh_metrics (al sched j)) [0..<length groups]))" for j
    using snoc.IH [OF _ refl] snoc.prems(1) by (auto simp: al_def)
  have al': "al (sched @ [x]) j = (if j = i then deliver cfg (int i) (al sched i) d else al sched j)" for j
    by (simp add: al_def alone_def x own_snoc)
  obtain delta where delta: "deliver cfg (int i) ((al sched i)\<lparr>sh_metrics := new_Metrics\<rparr>) d = delta" by blast
  have adds: "deliver cfg (int i) ((al sched i)\<lparr>sh_metrics := a\<rparr>) d = delta\<lparr>sh_metrics := metrics_add a (sh_metrics delta)\<rparr>" for a
    using deliver_adds [of cfg "int i" a "(al sched i)\<lparr>sh_metrics := new_Metrics\<rparr>" d] by (simp add: delta Let_def)
  have now: "deliver cfg (int i) (al sched i) d = delta\<lparr>sh_metrics := metrics_add (sh_metrics (al sched i)) (sh_metrics delta)\<rparr>"
    using adds [of "sh_metrics (al sched i)"] by simp
  have "sum_metrics (map (\<lambda>j. sh_metrics (al (sched @ [x]) j)) [0..<length groups]) =
      metrics_add (sum_metrics (map (\<lambda>j. sh_metrics (al sched j)) [0..<length groups])) (sh_metrics delta)"
    by (rule sum_metrics_update [OF i]) (auto simp: al' now)
  moreover have "p = \<lparr>pr_shards = (pr_shards ?p0)(i := delta\<lparr>sh_metrics := new_Metrics\<rparr>),
      pr_metrics = metrics_add (pr_metrics ?p0) (sh_metrics delta)\<rparr>"
    using snoc.prems(2) by (simp add: x ih(1) adds Let_def)
  ultimately show ?case
    unfolding al_def [symmetric] by (simp add: ih al' now metrics_add_ac(1))
qed

text \<open>
  C25: Shards do not interfere.  For every schedule that interleaves the messages of the shards in any
  order, every shard has written exactly the audit rows, snapshot rows and order-book rows that it
  writes when it runs alone on its own messages, and the shared counters are the sum of the
  counters of these separate runs.
\<close>

theorem shards_independent:
  assumes "list_all (\<lambda>(i, d). i < length groups) sched"
  shows "let p = foldl (pr_deliver cfg) \<lparr>pr_shards = (\<lambda>i. new_Shard cfg (dedup (groups ! i)) new_Metrics), pr_metrics = new_Metrics\<rparr> sched
    in list_all (\<lambda>i. pr_shards p i = (alone cfg i (groups ! i) (own i sched))\<lparr>sh_metrics := new_Metrics\<rparr>) [0..<length groups] \<and>
       pr_metrics p = sum_metrics (map (\<lambda>i. sh_metrics (alone cfg i (groups ! i) (own i sched))) [0..<length groups])"
  unfolding Let_def using shards_run [OF assms refl, of cfg new_Metrics] by (simp add: list_all_iff)

theorem shards_independent_witness:
  "let sched = [(1, sample_env, ''a'', 0, 1), (0, sample_env, ''b'', 0, 1), (1, sample_env, ''c'', 0, 2)]; groups = [[''BTC''], [''ETH'']];
     p = foldl (pr_deliver new_Config) \<lparr>pr_shards = (\<lambda>i. new_Shard new_Config (dedup (groups ! i)) new_Metrics), pr_metrics = new_Metrics\<rparr> sched
    in list_all (\<lambda>i. pr_shards p i = (alone new_Config i (groups ! i) (own i sched))\<lparr>sh_metrics := new_Metrics\<rparr>) [0..<length groups] \<and>
       pr_metrics p = sum_metrics (map (\<lambda>i. sh_metrics (alone new_Config i (groups ! i) (own i sched))) [0..<length groups])"
proof -
  have "list_all (\<lambda>(i, d). i < length [[''BTC''], [''ETH'']])
      [(1, sample_env, ''a'', 0, 1), (0, sample_env, ''b'', 0, 1), (1, sample_env, ''c'', 0, 2)]"
    by simp
  from shards_independent [OF this, of new_Config] show ?thesis
    unfolding Let_def .
qed

end
