(* ===== verification/Ws_Client.thy ===== *)
theory Ws_Client
  imports App_Config
begin

text \<open>
  The reconnecting WebSocket client (\<open>WsClientBeast::run\<close> of \<open>src/ws_client_beast.cpp\<close>, the
  interface of \<open>include/ws_client.hpp\<close>, and the stub of \<open>src/ws_client_stub.cpp\<close>).

  The run loop is a step relation.  Resolver, TCP, TLS and WebSocket of the libraries appear as the
  outcomes of the asynchronous operations: each may complete, fail, deliver a frame or throw at any
  time.  Time is a count of milliseconds that only grows; \<open>stop()\<close> may be called by another
  thread at any moment.  The two reads of a loop condition (the stop flag, then the clock) are one
  step: both only ever change towards ending the loop, so every outcome of the two reads is also the
  outcome at one of the two instants.
\<close>

section \<open>Connection parameters\<close>

definition ws_host :: "Config \<Rightarrow> string" where
  "ws_host c = (if cfg_venue c = Spot then ''stream.binance.com'' else ''fstream.binance.com'')"

definition ws_port :: "Config \<Rightarrow> string" where
  "ws_port c = (if cfg_venue c = Spot then ''9443'' else ''443'')"

definition ws_target :: "Config \<Rightarrow> string" where
  "ws_target c = (if cfg_venue c = Spot then ''/stream?streams='' @ combined_streams c
     else ''/public/stream?streams='' @ combined_streams c)"

text \<open>The client connects to the address that \<open>Config::ws_base_url\<close> describes (443 is the scheme's port).\<close>

lemma ws_url_consistent:
  "ws_base_url c @ combined_streams c =
     ''wss://'' @ ws_host c @ (if ws_port c = ''443'' then [] else '':'' @ ws_port c) @ ws_target c"
  by (simp add: ws_base_url_def ws_host_def ws_port_def ws_target_def)

section \<open>State\<close>

datatype SetupStep = Resolve | Connect | TlsHandshake | WsHandshake

datatype ws_pc =
    LoopHead
  | Setup SetupStep
  | Reading                 \<comment> \<open>an \<open>async_read\<close> is pending\<close>
  | Delivered               \<comment> \<open>the handler has returned, before the stop check\<close>
  | Stalled                 \<comment> \<open>only the watchdog is pending\<close>
  | RunDone                 \<comment> \<open>\<open>ioc.run()\<close> has returned\<close>
  | Caught                  \<comment> \<open>in the exception handler of the loop\<close>
  | Sleeping nat            \<comment> \<open>\<open>interruptible_sleep\<close> until that time\<close>
  | Returned int

record WsClient =
  ws_pc :: ws_pc
  ws_epoch :: u64
  ws_seq :: u64
  ws_backoff :: nat
  ws_conn_start :: nat
  ws_run_ec :: "string option"
  ws_watchdog :: nat
  ws_deadline :: nat
  ws_now :: nat
  ws_stop :: bool
  ws_reconnects :: u64
  ws_parse_errors :: u64
  ws_log :: "(string \<times> u64 \<times> u64) list"

definition run_seconds :: "Config \<Rightarrow> nat" where
  "run_seconds c = (if cfg_duration_s c > 0 then nat (cfg_duration_s c) else 3600 * 24)"

definition ws_start :: "Config \<Rightarrow> nat \<Rightarrow> WsClient" where
  "ws_start c t0 = \<lparr>ws_pc = LoopHead, ws_epoch = 0, ws_seq = 0, ws_backoff = 1000, ws_conn_start = t0,
     ws_run_ec = None, ws_watchdog = 0, ws_deadline = t0 + 1000 * run_seconds c, ws_now = t0,
     ws_stop = False, ws_reconnects = 0, ws_parse_errors = 0, ws_log = []\<rparr>"

text \<open>A duration of zero is a deadline after 24 hours.\<close>

lemma duration_zero_deadline: "cfg_duration_s c = 0 \<Longrightarrow> ws_deadline (ws_start c t0) = t0 + 24 * 60 * 60 * 1000"
  by (simp add: ws_start_def run_seconds_def)

section \<open>Steps\<close>

text \<open>\<open>stop_.load() || Clock::now() >= deadline\<close>\<close>

definition ending :: "WsClient \<Rightarrow> bool" where
  "ending w \<longleftrightarrow> ws_stop w \<or> ws_now w \<ge> ws_deadline w"

fun next_setup :: "SetupStep \<Rightarrow> SetupStep" where
  "next_setup Resolve = Connect"
| "next_setup Connect = TlsHandshake"
| "next_setup _ = WsHandshake"

definition io_running :: "WsClient \<Rightarrow> bool" where
  "io_running w \<longleftrightarrow> (case ws_pc w of Setup _ \<Rightarrow> True | Reading \<Rightarrow> True | _ \<Rightarrow> False)"

text \<open>The watchdog timer is pending.\<close>

definition watching :: "WsClient \<Rightarrow> bool" where
  "watching w \<longleftrightarrow> io_running w \<or> ws_pc w = Stalled"

text \<open>The end of a connection attempt, the same after \<open>ioc.run()\<close> and in the exception handler.\<close>

definition end_attempt :: "WsClient \<Rightarrow> WsClient" where
  "end_attempt w =
     (if ending w then w\<lparr>ws_pc := Returned 0\<rparr>
      else w\<lparr>ws_reconnects := ws_reconnects w + 1, ws_epoch := ws_epoch w + 1,
             ws_pc := Sleeping (ws_now w + ws_backoff w)\<rparr>)"

text \<open>
  The steps of the client.  A failed operation cancels the watchdog, and \<open>ioc.run()\<close> returns for lack
  of work.  When the timer has already expired at that moment its callback may be queued; a queued
  callback cannot be cancelled any more, it runs without an error, finds nothing to stop and arms the
  watchdog again (\<open>fail_late\<close>).
\<close>

inductive ws_act :: "WsClient \<Rightarrow> WsClient \<Rightarrow> bool" where
  leave: "ws_pc w = LoopHead \<Longrightarrow> ending w \<Longrightarrow> ws_act w (w\<lparr>ws_pc := Returned 0\<rparr>)"
| attempt: "ws_pc w = LoopHead \<Longrightarrow> \<not> ending w \<Longrightarrow>
    ws_act w (w\<lparr>ws_run_ec := None, ws_watchdog := ws_now w + 200, ws_pc := Setup Resolve\<rparr>)"
| setup_ok: "ws_pc w = Setup k \<Longrightarrow> k \<noteq> WsHandshake \<Longrightarrow> ws_act w (w\<lparr>ws_pc := Setup (next_setup k)\<rparr>)"
| setup_fail: "ws_pc w = Setup k \<Longrightarrow> ws_act w (w\<lparr>ws_run_ec := Some msg, ws_pc := RunDone\<rparr>)"
| handshake_ok: "ws_pc w = Setup WsHandshake \<Longrightarrow>
    ws_act w (w\<lparr>ws_backoff := 1000, ws_seq := 0, ws_conn_start := ws_now w, ws_pc := Reading\<rparr>)"
| frame: "ws_pc w = Reading \<Longrightarrow>
    ws_act w (w\<lparr>ws_seq := ws_seq w + 1, ws_log := ws_log w @ [(msg, ws_epoch w, ws_seq w + 1)],
                ws_parse_errors := ws_parse_errors w + (if handler_throws then 1 else 0), ws_pc := Delivered\<rparr>)"
| read_fail: "ws_pc w = Reading \<Longrightarrow> ws_act w (w\<lparr>ws_run_ec := Some msg, ws_pc := RunDone\<rparr>)"
| read_stop: "ws_pc w = Delivered \<Longrightarrow> ending w \<Longrightarrow> ws_act w (w\<lparr>ws_pc := RunDone\<rparr>)"
| read_more: "ws_pc w = Delivered \<Longrightarrow> \<not> ending w \<Longrightarrow> ws_act w (w\<lparr>ws_pc := Reading\<rparr>)"
| watchdog_stop: "watching w \<Longrightarrow> ws_now w \<ge> ws_watchdog w \<Longrightarrow> ending w \<Longrightarrow> ws_act w (w\<lparr>ws_pc := RunDone\<rparr>)"
| watchdog_arm: "watching w \<Longrightarrow> ws_now w \<ge> ws_watchdog w \<Longrightarrow> \<not> ending w \<Longrightarrow>
    ws_act w (w\<lparr>ws_watchdog := ws_now w + 200\<rparr>)"
| fail_late: "io_running w \<Longrightarrow> ws_now w \<ge> ws_watchdog w \<Longrightarrow> \<not> ending w \<Longrightarrow>
    ws_act w (w\<lparr>ws_run_ec := Some msg, ws_watchdog := ws_now w + 200, ws_pc := Stalled\<rparr>)"
| throw: "io_running w \<Longrightarrow> ws_act w (w\<lparr>ws_pc := Caught\<rparr>)"
| run_done: "ws_pc w = RunDone \<or> ws_pc w = Caught \<Longrightarrow> ws_act w (end_attempt w)"
| wake: "ws_pc w = Sleeping t \<Longrightarrow> ending w \<or> ws_now w \<ge> t \<Longrightarrow>
    ws_act w (w\<lparr>ws_backoff := min (ws_backoff w * 2) 15000, ws_pc := LoopHead\<rparr>)"

text \<open>What happens around the client: time passes, another thread calls \<open>stop()\<close>.\<close>

inductive ws_env :: "WsClient \<Rightarrow> WsClient \<Rightarrow> bool" where
  tick: "ws_env w (w\<lparr>ws_now := ws_now w + d\<rparr>)"
| stop: "ws_env w (w\<lparr>ws_stop := True\<rparr>)"

definition ws_step :: "WsClient \<Rightarrow> WsClient \<Rightarrow> bool" where
  "ws_step w w' \<longleftrightarrow> ws_act w w' \<or> ws_env w w'"

inductive_cases ws_envE: "ws_env w w'"
inductive_cases ws_actE: "ws_act w w'"

text \<open>The stub client.\<close>

definition stub_run :: "Config \<Rightarrow> int" where
  "stub_run c = 3"

section \<open>The numbering of delivered frames\<close>

text \<open>
  Frames of a connection are numbered from one without gaps; frames of a later connection have a
  larger epoch.  The list is given with the latest frame first.
\<close>

fun well_numbered :: "(string \<times> u64 \<times> u64) list \<Rightarrow> bool" where
  "well_numbered [] = True"
| "well_numbered [(_, e, q)] = (q = 1)"
| "well_numbered ((_, e', q') # (f, e, q) # fs) =
     ((if e' = e then q' = q + 1 else e < e' \<and> q' = 1) \<and> well_numbered ((f, e, q) # fs))"

definition log_inv :: "WsClient \<Rightarrow> bool" where
  "log_inv w \<longleftrightarrow> well_numbered (rev (ws_log w)) \<and>
     (case rev (ws_log w) of
        [] \<Rightarrow> (case ws_pc w of Reading \<Rightarrow> ws_seq w = 0 | Delivered \<Rightarrow> False | _ \<Rightarrow> True)
      | (_, e, q) # _ \<Rightarrow>
          e \<le> ws_epoch w \<and>
          (case ws_pc w of
             Reading \<Rightarrow> ws_seq w = (if e = ws_epoch w then q else 0)
           | Delivered \<Rightarrow> e = ws_epoch w \<and> ws_seq w = q
           | Stalled \<Rightarrow> True
           | RunDone \<Rightarrow> True
           | Caught \<Rightarrow> True
           | Returned _ \<Rightarrow> True
           | _ \<Rightarrow> e < ws_epoch w))"

text \<open>
  The number of connection attempts never gets ahead of the time that the backoff has used up, which
  bounds it by the run time in seconds; this is why the epoch does not wrap.
\<close>

definition time_inv :: "nat \<Rightarrow> nat \<Rightarrow> WsClient \<Rightarrow> bool" where
  "time_inv t0 secs w \<longleftrightarrow> ws_deadline w = t0 + 1000 * secs \<and> t0 \<le> ws_now w \<and>
     1000 \<le> ws_backoff w \<and> ws_backoff w \<le> 15000 \<and> ws_reconnects w = ws_epoch w \<and>
     unat (ws_epoch w) \<le> secs \<and>
     (case ws_pc w of
        Sleeping t \<Rightarrow> t0 + 1000 * unat (ws_epoch w) \<le> t
      | Returned rc \<Rightarrow> rc = 0 \<and> ending w
      | _ \<Rightarrow> ending w \<or> t0 + 1000 * unat (ws_epoch w) \<le> ws_now w) \<and>
     (watching w \<or> ws_pc w = Delivered \<longrightarrow> ws_watchdog w \<le> ws_now w + 200)"

lemma ending_env: "ws_env w w' \<Longrightarrow> ending w \<Longrightarrow> ending w'"
  by (auto elim!: ws_envE simp: ending_def)

lemma log_inv_env: "ws_env w w' \<Longrightarrow> log_inv w \<Longrightarrow> log_inv w'"
  by (erule ws_envE) (simp_all add: log_inv_def cong: ws_pc.case_cong list.case_cong)

lemma time_inv_env: "ws_env w w' \<Longrightarrow> time_inv t0 secs w \<Longrightarrow> time_inv t0 secs w'"
  by (erule ws_envE) (auto simp: time_inv_def ending_def watching_def io_running_def split: ws_pc.splits)

lemma time_inv_act:
  assumes "ws_act w w'" "time_inv t0 secs w" "secs < 2 ^ 64"
  shows "time_inv t0 secs w'"
  using assms(1)
proof cases
  case run_done
  show ?thesis
  proof (cases "ending w")
    case False
    then have now: "t0 + 1000 * unat (ws_epoch w) \<le> ws_now w" "ws_now w < t0 + 1000 * secs"
      using assms(2) run_done by (auto simp: time_inv_def ending_def)
    then have "unat (ws_epoch w + 1) = unat (ws_epoch w) + 1"
      using assms(3) by (simp add: unat_word_ariths)
    with now False run_done assms(2) show ?thesis
      by (simp add: end_attempt_def time_inv_def watching_def io_running_def)
  qed (use run_done assms(2) in \<open>auto simp: end_attempt_def time_inv_def watching_def io_running_def ending_def\<close>)
qed (use assms(2) in \<open>auto simp: time_inv_def ending_def watching_def io_running_def split: ws_pc.splits\<close>)


lemma log_inv_act:
  assumes "ws_act w w'" "log_inv w" "unat (ws_epoch w) < 2 ^ 64 - 1"
  shows "log_inv w'"
  using assms(1)
proof cases
  case frame
  then show ?thesis
    using assms(2) by (cases "rev (ws_log w)") (auto simp: log_inv_def split: if_splits)
next
  case run_done
  have "e < ws_epoch w + 1" if "e \<le> ws_epoch w" for e
    using that assms(3) by (auto simp: word_less_nat_alt word_le_nat_alt unat_word_ariths)
  then show ?thesis
    using run_done assms(2) by (cases "rev (ws_log w)") (auto simp: log_inv_def end_attempt_def order.strict_implies_order)
qed (use assms(2) in \<open>cases "rev (ws_log w)"; auto simp: log_inv_def watching_def io_running_def split: ws_pc.splits\<close>)+

section \<open>Reachable states\<close>

definition ws_inv :: "nat \<Rightarrow> nat \<Rightarrow> WsClient \<Rightarrow> bool" where
  "ws_inv t0 secs w \<longleftrightarrow> time_inv t0 secs w \<and> log_inv w"

lemma ws_inv_start: "ws_inv t0 (run_seconds c) (ws_start c t0)"
  by (simp add: ws_inv_def time_inv_def log_inv_def ws_start_def watching_def io_running_def)

lemma ws_inv_step:
  assumes "ws_step w w'" "ws_inv t0 secs w" "secs < 2 ^ 63"
  shows "ws_inv t0 secs w'"
proof -
  have "unat (ws_epoch w) < 2 ^ 64 - 1"
    using assms(2,3) by (simp add: ws_inv_def time_inv_def)
  then show ?thesis
    using assms time_inv_act [of w w' t0 secs] log_inv_act [of w w'] time_inv_env log_inv_env
    by (auto simp: ws_inv_def ws_step_def)
qed

lemma run_seconds_bound: "in_i32 (cfg_duration_s c) \<Longrightarrow> run_seconds c < 2 ^ 63"
  by (auto simp: run_seconds_def in_i32_def nat_less_iff)

lemma ws_inv_reachable:
  "ws_step\<^sup>*\<^sup>* (ws_start c t0) w \<Longrightarrow> in_i32 (cfg_duration_s c) \<Longrightarrow> ws_inv t0 (run_seconds c) w"
  by (induction rule: rtranclp_induct) (auto intro: ws_inv_start ws_inv_step run_seconds_bound)

section \<open>After a stop\<close>

text \<open>Once the run is ending, the client has only finitely much left to do, and at most one frame to deliver.\<close>

fun setup_rank :: "SetupStep \<Rightarrow> nat" where
  "setup_rank Resolve = 3"
| "setup_rank Connect = 2"
| "setup_rank TlsHandshake = 1"
| "setup_rank WsHandshake = 0"

fun rank :: "ws_pc \<Rightarrow> nat" where
  "rank (Returned _) = 0"
| "rank LoopHead = 1"
| "rank (Sleeping _) = 2"
| "rank RunDone = 2"
| "rank Caught = 2"
| "rank Delivered = 3"
| "rank Stalled = 3"
| "rank Reading = 4"
| "rank (Setup k) = 5 + setup_rank k"

fun budget :: "ws_pc \<Rightarrow> nat" where
  "budget (Setup _) = 1"
| "budget Reading = 1"
| "budget _ = 0"

lemma next_setup_rank: "k \<noteq> WsHandshake \<Longrightarrow> setup_rank (next_setup k) < setup_rank k"
  by (cases k) simp_all

lemma ending_act:
  assumes "ws_act w w'" "ending w"
  shows "ending w'" "rank (ws_pc w') < rank (ws_pc w)"
    "length (ws_log w') + budget (ws_pc w') \<le> length (ws_log w) + budget (ws_pc w)"
    "ws_epoch w' = ws_epoch w" "ws_now w' = ws_now w"
  using assms by (cases; auto simp: ending_def end_attempt_def watching_def io_running_def next_setup_rank split: ws_pc.splits)+

lemma ending_env_keeps:
  "ws_env w w' \<Longrightarrow> ws_log w' = ws_log w \<and> ws_pc w' = ws_pc w \<and> ws_epoch w' = ws_epoch w \<and> ws_now w \<le> ws_now w'"
  by (erule ws_envE) simp_all

lemma ending_run:
  assumes "ws_step\<^sup>*\<^sup>* w w'" "ending w"
  shows "ending w' \<and> length (ws_log w') + budget (ws_pc w') \<le> length (ws_log w) + budget (ws_pc w) \<and>
    ws_epoch w' = ws_epoch w"
  using assms
proof (induction rule: rtranclp_induct)
  case (step y z)
  then show ?case
    using ending_act [of y z] ending_env [of y z] ending_env_keeps [of y z] by (auto simp: ws_step_def)
qed simp

text \<open>No state of an ending run is stuck: the watchdog fires within 200 ms.\<close>

lemma ending_progress:
  assumes "time_inv t0 secs w" "ending w" "\<not> (\<exists>rc. ws_pc w = Returned rc)"
  shows "\<exists>d w'. d \<le> (if watching w then 200 else 0) \<and> ws_act (w\<lparr>ws_now := ws_now w + d\<rparr>) w' \<and>
    ws_log w' = ws_log w \<and> \<not> watching w'"
proof (cases "watching w")
  case True
  then have "ws_watchdog w \<le> ws_now w + 200" using assms(1) by (simp add: time_inv_def)
  then show ?thesis
    using True assms(2)
    by (intro exI [of _ 200] exI [of _ "w\<lparr>ws_now := ws_now w + 200, ws_pc := RunDone\<rparr>"])
      (auto intro: watchdog_stop [of "w\<lparr>ws_now := ws_now w + 200\<rparr>"] simp: watching_def io_running_def ending_def)
next
  case False
  have same: "w\<lparr>ws_now := ws_now w + 0\<rparr> = w" by simp
  have "\<exists>w'. ws_act w w' \<and> ws_log w' = ws_log w \<and> \<not> watching w'"
    using False assms(2,3) leave [of w] read_stop [of w] run_done [of w] wake [of w]
    by (cases "ws_pc w") (fastforce simp: watching_def io_running_def end_attempt_def)+
  then show ?thesis
    using same by (metis zero_le)
qed


lemma returned_final: "ws_pc w = Returned rc \<Longrightarrow> \<not> ws_act w w'"
  by (auto elim!: ws_actE simp: watching_def io_running_def)

lemma ending_returns:
  assumes "time_inv t0 secs w" "ending w" "secs < 2 ^ 63"
  shows "\<exists>w'. ws_step\<^sup>*\<^sup>* w w' \<and> ws_pc w' = Returned 0 \<and> ws_log w' = ws_log w \<and>
    ws_now w' \<le> ws_now w + (if watching w then 200 else 0)"
  using assms(1,2)
proof (induction "rank (ws_pc w)" arbitrary: w rule: less_induct)
  case less
  show ?case
  proof (cases "\<exists>rc. ws_pc w = Returned rc")
    case True
    then show ?thesis
      using less.prems(1) by (intro exI [of _ w]) (auto simp: time_inv_def watching_def io_running_def)
  next
    case False
    obtain d w1 where act: "d \<le> (if watching w then 200 else 0)" "ws_act (w\<lparr>ws_now := ws_now w + d\<rparr>) w1"
        "ws_log w1 = ws_log w" "\<not> watching w1"
      using ending_progress [OF less.prems False] by blast
    let ?w0 = "w\<lparr>ws_now := ws_now w + d\<rparr>"
    have env: "ws_env w ?w0" by (rule tick)
    have e0: "ending ?w0" using ending_env [OF env less.prems(2)] .
    have w1: "ending w1" "rank (ws_pc w1) < rank (ws_pc w)" "ws_now w1 = ws_now w + d"
      using ending_act [OF act(2) e0] by simp_all
    have "time_inv t0 secs w1"
      using time_inv_act [OF act(2) time_inv_env [OF env less.prems(1)]] assms(3) by simp
    from less.hyps [OF w1(2) this w1(1)] obtain w2 where w2: "ws_step\<^sup>*\<^sup>* w1 w2" "ws_pc w2 = Returned 0"
        "ws_log w2 = ws_log w1" "ws_now w2 \<le> ws_now w1"
      using act(4) by auto
    have "ws_step\<^sup>*\<^sup>* w w2"
      using env act(2) w2(1) by (metis converse_rtranclp_into_rtranclp ws_step_def)
    then show ?thesis
      using w2 act(1,3) w1(3) by (intro exI [of _ w2]) (simp split: if_splits)
  qed
qed

lemma ending_steps:
  assumes "((ws_env\<^sup>*\<^sup>* OO ws_act) ^^ n) w w'" "ending w"
  shows "n + rank (ws_pc w') \<le> rank (ws_pc w) \<and> ending w'"
  using assms(1)
proof (induction n arbitrary: w')
  case (Suc n)
  obtain u v where u: "((ws_env\<^sup>*\<^sup>* OO ws_act) ^^ n) w u" "ws_env\<^sup>*\<^sup>* u v" "ws_act v w'"
    using Suc.prems by (auto elim!: relcomppE)
  have "ws_pc v = ws_pc u \<and> (ending u \<longrightarrow> ending v)"
    using u(2) by (induction rule: rtranclp_induct) (auto dest: ending_env ending_env_keeps)
  then show ?case
    using Suc.IH [OF u(1)] ending_act [OF u(3)] by auto
qed (use assms(2) in simp)

lemma rank_bound: "rank p \<le> 8"
proof (cases p)
  case (Setup k)
  then show ?thesis by (cases k) simp_all
qed simp_all

section \<open>Increasing keys\<close>

definition key_less :: "string \<times> u64 \<times> u64 \<Rightarrow> string \<times> u64 \<times> u64 \<Rightarrow> bool" where
  "key_less a b \<longleftrightarrow> (case (a, b) of ((_, e, q), (_, e', q')) \<Rightarrow> e < e' \<or> e = e' \<and> q < q')"

lemma key_less_trans: "key_less a b \<Longrightarrow> key_less b c \<Longrightarrow> key_less a c"
  by (auto simp: key_less_def split: prod.splits)

lemma well_numbered_bound:
  "well_numbered fs \<Longrightarrow> length fs < 2 ^ 64 \<Longrightarrow> (f, e, q) \<in> set fs \<Longrightarrow> unat q \<le> length fs"
proof (induction fs arbitrary: f e q rule: well_numbered.induct)
  case (3 f' e' q' f1 e1 q1 fs)
  have "unat q1 \<le> length ((f1, e1, q1) # fs)" using 3 by auto
  then have "unat q' \<le> length ((f', e', q') # (f1, e1, q1) # fs)"
    using 3(2,3) by (auto simp: unat_word_ariths split: if_splits)
  then show ?case
    using 3 by fastforce
qed auto

lemma well_numbered_sorted:
  "well_numbered fs \<Longrightarrow> length fs < 2 ^ 64 \<Longrightarrow> sorted_wrt (\<lambda>a b. key_less b a) fs"
proof (induction fs rule: well_numbered.induct)
  case (3 f' e' q' f1 e1 q1 fs)
  have "unat q1 \<le> length ((f1, e1, q1) # fs)"
    using well_numbered_bound [of "(f1, e1, q1) # fs" f1 e1 q1] 3(2,3) by auto
  then have "q1 < q1 + 1"
    using 3(3) by (simp add: word_less_nat_alt unat_word_ariths)
  then have "key_less (f1, e1, q1) (f', e', q')"
    using 3(2) by (auto simp: key_less_def split: if_splits)
  then show ?case
    using 3 by (auto intro: key_less_trans)
qed simp_all


section \<open>Properties\<close>

text \<open>A run that has delivered its first frame, and the same run after a stop request.\<close>

lemma sample_client:
  "\<exists>w. ws_step\<^sup>*\<^sup>* (ws_start new_Config 0) w \<and> ws_log w = [(''x'', 0, 1)] \<and> ws_pc w = Delivered"
proof -
  define w0 where "w0 = ws_start new_Config 0"
  define w1 where "w1 = w0\<lparr>ws_run_ec := None, ws_watchdog := ws_now w0 + 200, ws_pc := Setup Resolve\<rparr>"
  define w2 where "w2 = w1\<lparr>ws_pc := Setup (next_setup Resolve)\<rparr>"
  define w3 where "w3 = w2\<lparr>ws_pc := Setup (next_setup Connect)\<rparr>"
  define w4 where "w4 = w3\<lparr>ws_pc := Setup (next_setup TlsHandshake)\<rparr>"
  define w5 where "w5 = w4\<lparr>ws_backoff := 1000, ws_seq := 0, ws_conn_start := ws_now w4, ws_pc := Reading\<rparr>"
  define w6 where "w6 = w5\<lparr>ws_seq := ws_seq w5 + 1, ws_log := ws_log w5 @ [(''x'', ws_epoch w5, ws_seq w5 + 1)],
      ws_parse_errors := ws_parse_errors w5 + (if False then 1 else 0), ws_pc := Delivered\<rparr>"
  have "ws_act w0 w1"
    unfolding w1_def by (rule attempt) (simp_all add: w0_def ws_start_def ending_def run_seconds_def)
  moreover have "ws_act w1 w2" "ws_act w2 w3" "ws_act w3 w4"
    unfolding w2_def w3_def w4_def by (rule setup_ok; simp add: w1_def)+
  moreover have "ws_act w4 w5"
    unfolding w5_def by (rule handshake_ok) (simp add: w4_def)
  moreover have "ws_act w5 w6"
    unfolding w6_def by (rule frame) (simp add: w5_def)
  ultimately have "ws_step w0 w1" "ws_step w1 w2" "ws_step w2 w3" "ws_step w3 w4" "ws_step w4 w5" "ws_step w5 w6"
    by (simp_all add: ws_step_def)
  then have "ws_step\<^sup>*\<^sup>* w0 w6"
    by (meson converse_rtranclp_into_rtranclp rtranclp.rtrancl_refl)
  moreover have "ws_log w6 = [(''x'', 0, 1)]" "ws_pc w6 = Delivered"
    by (simp_all add: w6_def w5_def w4_def w3_def w2_def w1_def w0_def ws_start_def)
  ultimately show ?thesis
    unfolding w0_def by blast
qed

text \<open>
  A lost connection can stall the client.  When an operation fails just after the watchdog expired,
  the client may be left with nothing but the watchdog, which arms itself again until the run ends:
  no reconnect and no frame before \<open>stop()\<close> or the deadline.
\<close>

lemma stalled_stays:
  assumes "ws_step\<^sup>*\<^sup>* w w'" "ws_pc w = Stalled"
  shows "ending w' \<or> ws_pc w' = Stalled \<and> ws_log w' = ws_log w \<and> ws_epoch w' = ws_epoch w"
  using assms
proof (induction rule: rtranclp_induct)
  case (step y z)
  have "ending z" if "ending y"
    using that step.hyps(2) ending_act(1) ending_env by (auto simp: ws_step_def)
  moreover have "ending z \<or> ws_pc z = Stalled \<and> ws_log z = ws_log y \<and> ws_epoch z = ws_epoch y" if "ws_pc y = Stalled"
    using that step.hyps(2) unfolding ws_step_def
    by (auto elim!: ws_actE ws_envE simp: ending_def io_running_def)
  ultimately show ?case
    using step by auto
qed simp

text \<open>
  C37: A lost connection can leave the client without a connection for the rest of the run.  There is a
  reachable state, before any stop request and before the deadline, from which every continuation
  stays without a reconnect and without a frame until the run ends.
\<close>

theorem lost_connection_stalls:
  "\<exists>w. ws_step\<^sup>*\<^sup>* (ws_start new_Config 0) w \<and> \<not> ending w \<and>
     {w'. ws_step\<^sup>*\<^sup>* w w'} \<subseteq> {w'. ending w' \<or> ws_log w' = ws_log w \<and> ws_epoch w' = ws_epoch w}"
proof -
  define w0 where "w0 = ws_start new_Config 0"
  define w1 where "w1 = w0\<lparr>ws_run_ec := None, ws_watchdog := ws_now w0 + 200, ws_pc := Setup Resolve\<rparr>"
  define w2 where "w2 = w1\<lparr>ws_now := ws_now w1 + 200\<rparr>"
  define w3 where "w3 = w2\<lparr>ws_run_ec := Some ''refused'', ws_watchdog := ws_now w2 + 200, ws_pc := Stalled\<rparr>"
  have "ws_act w0 w1"
    unfolding w1_def by (rule attempt) (simp_all add: w0_def ws_start_def ending_def run_seconds_def)
  moreover have "ws_env w1 w2"
    unfolding w2_def by (rule tick)
  moreover have "ws_act w2 w3"
    unfolding w3_def by (rule fail_late)
      (simp_all add: w2_def w1_def w0_def ws_start_def ending_def run_seconds_def io_running_def new_Config_def)
  ultimately have "ws_step w0 w1" "ws_step w1 w2" "ws_step w2 w3"
    by (simp_all add: ws_step_def)
  then have "ws_step\<^sup>*\<^sup>* w0 w3"
    by (meson converse_rtranclp_into_rtranclp rtranclp.rtrancl_refl)
  moreover have "\<not> ending w3"
    by (simp add: w3_def w2_def w1_def w0_def ws_start_def ending_def run_seconds_def new_Config_def)
  moreover have "ws_pc w3 = Stalled" by (simp add: w3_def)
  ultimately show ?thesis
    using stalled_stays unfolding w0_def by blast
qed

text \<open>
  C23: Frames are numbered without gaps, and epochs are never reused.  In every reachable state of the
  client, whatever the network does, the frames handed to the message handler are numbered from one
  in steps of one within a connection, every later connection has a larger epoch, and the
  reconnect counter is the epoch.
\<close>

theorem client_numbers_frames:
  assumes "ws_step\<^sup>*\<^sup>* (ws_start c t0) w" "in_i32 (cfg_duration_s c)"
  shows "well_numbered (rev (ws_log w)) \<and> ws_reconnects w = ws_epoch w"
  using ws_inv_reachable [OF assms] by (simp add: ws_inv_def log_inv_def time_inv_def)

theorem client_numbers_frames_witness:
  "\<exists>w :: WsClient. ws_log w = [(''x'', 0, 1)] \<and> well_numbered (rev (ws_log w)) \<and> ws_reconnects w = ws_epoch w"
proof -
  obtain w where w: "ws_step\<^sup>*\<^sup>* (ws_start new_Config 0) w" "ws_log w = [(''x'', 0, 1)]"
    using sample_client by blast
  have "in_i32 (cfg_duration_s new_Config)" by (simp add: new_Config_def range_defs)
  from client_numbers_frames [OF w(1) this] w(2) show ?thesis by blast
qed

text \<open>
  C24: Reconnecting is bounded by the backoff.  In every reachable state the backoff is between one
  and fifteen seconds and the number of reconnects is at most the number of seconds of the run, so
  that the 64-bit epoch never wraps and never takes the value that marks a symbol without messages.
\<close>

theorem client_reconnects_bounded:
  assumes "ws_step\<^sup>*\<^sup>* (ws_start c t0) w" "in_i32 (cfg_duration_s c)"
  shows "1000 \<le> ws_backoff w \<and> ws_backoff w \<le> 15000 \<and>
    unat (ws_reconnects w) \<le> run_seconds c \<and> ws_epoch w \<noteq> - 1"
proof -
  have inv: "time_inv t0 (run_seconds c) w"
    using ws_inv_reachable [OF assms] by (simp add: ws_inv_def)
  then have "unat (ws_epoch w) < 2 ^ 63"
    using run_seconds_bound [OF assms(2)] by (simp add: time_inv_def)
  then have "ws_epoch w \<noteq> - 1"
    by (auto simp: unsigned_minus_1_eq_mask mask_eq_exp_minus_1)
  with inv show ?thesis by (simp add: time_inv_def)
qed

theorem client_reconnects_bounded_witness:
  "\<exists>w :: WsClient. ws_log w = [(''x'', 0, 1)] \<and> 1000 \<le> ws_backoff w \<and> ws_backoff w \<le> 15000 \<and>
    unat (ws_reconnects w) \<le> run_seconds new_Config \<and> ws_epoch w \<noteq> - 1"
proof -
  obtain w where w: "ws_step\<^sup>*\<^sup>* (ws_start new_Config 0) w" "ws_log w = [(''x'', 0, 1)]"
    using sample_client by blast
  have "in_i32 (cfg_duration_s new_Config)" by (simp add: new_Config_def range_defs)
  from client_reconnects_bounded [OF w(1) this] w(2) show ?thesis by blast
qed

text \<open>
  C22: A stop request is honoured.  Once \<open>stop()\<close> was called or the deadline has passed, whatever the
  network does, the client takes at most eight more steps (each one after any passing of time),
  delivers at most one more frame and does not reconnect; and from every such state it can return
  \<open>0\<close> within 200 ms without another frame.
\<close>

theorem client_stop_honoured:
  assumes "ws_step\<^sup>*\<^sup>* (ws_start c t0) w" "in_i32 (cfg_duration_s c)" "ending w"
  shows "(\<forall>n w'. ((ws_env\<^sup>*\<^sup>* OO ws_act) ^^ n) w w' \<longrightarrow> n \<le> 8) \<and>
    (\<forall>w'. ws_step\<^sup>*\<^sup>* w w' \<longrightarrow> length (ws_log w') \<le> length (ws_log w) + 1 \<and> ws_epoch w' = ws_epoch w) \<and>
    (\<exists>w'. ws_step\<^sup>*\<^sup>* w w' \<and> ws_pc w' = Returned 0 \<and> ws_log w' = ws_log w \<and> ws_now w' \<le> ws_now w + 200)"
proof (intro conjI allI impI)
  have inv: "time_inv t0 (run_seconds c) w"
    using ws_inv_reachable [OF assms(1,2)] by (simp add: ws_inv_def)
  show "n \<le> 8" if "((ws_env\<^sup>*\<^sup>* OO ws_act) ^^ n) w w'" for n w'
    using ending_steps [OF that assms(3)] rank_bound [of "ws_pc w"] by linarith
  have "budget (ws_pc w) \<le> 1"
    by (cases "ws_pc w") simp_all
  then show "length (ws_log w') \<le> length (ws_log w) + 1" "ws_epoch w' = ws_epoch w" if "ws_step\<^sup>*\<^sup>* w w'" for w'
    using ending_run [OF that assms(3)] by simp_all
  show "\<exists>w'. ws_step\<^sup>*\<^sup>* w w' \<and> ws_pc w' = Returned 0 \<and> ws_log w' = ws_log w \<and> ws_now w' \<le> ws_now w + 200"
    using ending_returns [OF inv assms(3) run_seconds_bound [OF assms(2)]] by (fastforce split: if_splits)
qed

theorem client_stop_honoured_witness:
  "\<exists>w :: WsClient. ws_stop w \<and> ws_log w = [(''x'', 0, 1)] \<and>
    (\<exists>w'. ws_step\<^sup>*\<^sup>* w w' \<and> ws_pc w' = Returned 0 \<and> ws_log w' = ws_log w \<and> ws_now w' \<le> ws_now w + 200)"
proof -
  obtain w where w: "ws_step\<^sup>*\<^sup>* (ws_start new_Config 0) w" "ws_log w = [(''x'', 0, 1)]"
    using sample_client by blast
  let ?w = "w\<lparr>ws_stop := True\<rparr>"
  have reach: "ws_step\<^sup>*\<^sup>* (ws_start new_Config 0) ?w"
    using w(1) by (rule rtranclp.rtrancl_into_rtrancl) (simp add: ws_step_def stop)
  have "in_i32 (cfg_duration_s new_Config)" "ending ?w"
    by (simp_all add: new_Config_def range_defs ending_def)
  from client_stop_honoured [OF reach this] w(2) show ?thesis
    by (intro exI [of _ ?w]) simp
qed

end
