(* ===== verification/System_Clock.thy ===== *)
theory System_Clock
  imports Csv_Text "HOL-Library.Signed_Division"
begin

text \<open>
  The two readings of the system clock in \<open>src/main.cpp\<close>: \<open>now_ts\<close>, the time of a message, and
  \<open>utc_date\<close>, the date in the file names.  The value of the clock is an argument: nanoseconds
  (\<open>system_clock::time_point\<close>) or seconds (\<open>time_t\<close>) since 1970.
\<close>

section \<open>Time stamps\<close>

definition now_ts :: "i64 \<Rightarrow> Timestamp" where
  "now_ts n = (let s = n sdiv 1000000000; ns = n - s * 1000000000 in \<lparr>tsec = s, tnsec = ns\<rparr>)"

text \<open>A time stamp is exact and both of its fields fit their types, for every value of the clock.\<close>

lemma now_ts_exact:
  "tsec (now_ts n) * 1000000000 + tnsec (now_ts n) = n" "\<bar>tnsec (now_ts n)\<bar> < 1000000000"
  "in_i64 n \<Longrightarrow> ts_in_range (now_ts n)"
proof -
  show exact: "tsec (now_ts n) * 1000000000 + tnsec (now_ts n) = n"
    by (simp add: now_ts_def Let_def)
  have q: "tsec (now_ts n) = sgn n * (\<bar>n\<bar> div 1000000000)"
    by (simp add: now_ts_def Let_def signed_divide_int_def)
  have m: "\<bar>n\<bar> div 1000000000 * 1000000000 + \<bar>n\<bar> mod 1000000000 = \<bar>n\<bar>" "0 \<le> \<bar>n\<bar> mod 1000000000"
      "\<bar>n\<bar> mod 1000000000 < 1000000000" "0 \<le> \<bar>n\<bar> div 1000000000"
    by simp_all
  show ns: "\<bar>tnsec (now_ts n)\<bar> < 1000000000"
    using exact q m by (cases "n < 0"; cases "n = 0"; simp)
  show "ts_in_range (now_ts n)" if "in_i64 n"
    using that ns exact unfolding ts_in_range_def range_defs by linarith
qed

section \<open>Dates\<close>

text \<open>
  \<open>gmtime_r\<close>: the Gregorian calendar in UTC without leap seconds.  The year is found by counting
  days from 1970 on, the month by counting the days of the months.
\<close>

definition leap_year :: "int \<Rightarrow> bool" where
  "leap_year y \<longleftrightarrow> y mod 4 = 0 \<and> (y mod 100 \<noteq> 0 \<or> y mod 400 = 0)"

definition days_in_year :: "int \<Rightarrow> int" where
  "days_in_year y = (if leap_year y then 366 else 365)"

definition month_lengths :: "int \<Rightarrow> int list" where
  "month_lengths y = [31, if leap_year y then 29 else 28, 31, 30, 31, 30, 31, 31, 30, 31, 30, 31]"

lemma days_in_year_bounds: "365 \<le> days_in_year y" "days_in_year y \<le> 366"
  by (simp_all add: days_in_year_def)

function find_year :: "int \<Rightarrow> int \<Rightarrow> int \<times> int" where
  "find_year y d =
     (if d < 0 then find_year (y - 1) (d + days_in_year (y - 1))
      else if d < days_in_year y then (y, d)
      else find_year (y + 1) (d - days_in_year y))"
  by pat_completeness auto
termination
proof (relation "measure (\<lambda>(y, d). if d < 0 then nat (1000 - d) else nat d)")
  show "((y - 1, d + days_in_year (y - 1)), y, d) \<in> measure (\<lambda>(y, d). if d < 0 then nat (1000 - d) else nat d)"
    if "d < 0" for y d
    using that days_in_year_bounds [of "y - 1"] by auto
  show "((y + 1, d - days_in_year y), y, d) \<in> measure (\<lambda>(y, d). if d < 0 then nat (1000 - d) else nat d)"
    if "\<not> d < 0" "\<not> d < days_in_year y" for y d
    using that days_in_year_bounds [of y] by auto
qed simp

declare find_year.simps [simp del]

fun find_month :: "int list \<Rightarrow> int \<Rightarrow> int \<Rightarrow> int \<times> int" where
  "find_month [] m d = (m, d)"
| "find_month (l # ls) m d = (if d < l then (m, d) else find_month ls (m + 1) (d - l))"

text \<open>Year, month from 1 on and day of the month of a time.\<close>

definition gmtime_date :: "int \<Rightarrow> int \<times> int \<times> int" where
  "gmtime_date t =
     (case find_year 1970 (t div 86400) of
        (y, yday) \<Rightarrow> (case find_month (month_lengths y) 1 yday of (m, d) \<Rightarrow> (y, m, d + 1)))"

definition two_digits :: "int \<Rightarrow> string" where
  "two_digits v = (if v < 10 then CHR ''0'' # show_int v else show_int v)"

definition utc_date :: "int \<Rightarrow> string" where
  "utc_date t =
     (case gmtime_date t of (y, m, d) \<Rightarrow> show_int y @ ''-'' @ two_digits m @ ''-'' @ two_digits d)"

subsection \<open>The calendar is right\<close>

text \<open>Days from the year 0 to the start of a year, in closed form.\<close>

definition year_start :: "int \<Rightarrow> int" where
  "year_start y = 365 * y + (y - 1) div 4 - (y - 1) div 100 + (y - 1) div 400"

lemma div_step:
  fixes y k :: int
  assumes k: "0 < k"
  shows "y div k = (y - 1) div k + (if y mod k = 0 then 1 else 0)"
proof (cases "y mod k = 0")
  case True
  have "(y - 1) div k = y div k - 1"
    by (rule int_div_pos_eq [of _ _ _ "k - 1"])
      (use k True mult_div_mod_eq [of k y] in \<open>auto simp: right_diff_distrib\<close>)
  with True show ?thesis by simp
next
  case False
  have "(y - 1) div k = y div k"
    by (rule int_div_pos_eq [of _ _ _ "y mod k - 1"])
      (use k False mult_div_mod_eq [of k y] pos_mod_sign [of k y] pos_mod_bound [of k y] in linarith)+
  with False show ?thesis by simp
qed

lemma year_start_next: "year_start (y + 1) = year_start y + days_in_year y"
proof -
  have mods: "y mod 400 = 0 \<longrightarrow> y mod 100 = 0" "y mod 100 = 0 \<longrightarrow> y mod 4 = 0"
    using dvd_trans [of 100 400 y] dvd_trans [of 4 100 y] by (auto simp: mod_eq_0_iff_dvd)
  define p q r where pqr: "p = (y mod 4 = 0)" "q = (y mod 100 = 0)" "r = (y mod 400 = 0)"
  define a b c where abc: "a = (y - 1) div 4" "b = (y - 1) div 100" "c = (y - 1) div 400"
  have "y div 4 = a + (if p then 1 else 0)" "y div 100 = b + (if q then 1 else 0)" "y div 400 = c + (if r then 1 else 0)"
    unfolding pqr abc by (rule div_step, simp)+
  then have "year_start (y + 1) = 365 * y + 365 + (a + (if p then 1 else 0)) - (b + (if q then 1 else 0)) + (c + (if r then 1 else 0))"
    unfolding year_start_def by (simp only: add_diff_cancel_right') (simp add: algebra_simps)
  moreover have "year_start y = 365 * y + a - b + c"
    by (simp only: year_start_def abc)
  moreover have "days_in_year y = (if p \<and> (\<not> q \<or> r) then 366 else 365)"
    by (simp only: days_in_year_def leap_year_def pqr)
  moreover have "r \<longrightarrow> q" "q \<longrightarrow> p"
    using mods by (simp_all only: pqr)
  ultimately show ?thesis
    by (cases p; cases q; cases r; simp)
qed

lemma find_year_day:
  "find_year y d = (y', d') \<Longrightarrow> year_start y' + d' = year_start y + d \<and> 0 \<le> d' \<and> d' < days_in_year y'"
proof (induction y d rule: find_year.induct)
  case (1 y d)
  then show ?case
    using year_start_next [of y] year_start_next [of "y - 1"]
    by (subst (asm) (3) find_year.simps) (auto split: if_splits)
qed

lemma year_start_mono: "y \<le> z \<Longrightarrow> year_start y \<le> year_start z"
proof (induction z rule: int_ge_induct)
  case (step z)
  then show ?case using year_start_next [of z] days_in_year_bounds [of z] by simp
qed simp

lemma month_sum: "sum_list (month_lengths y) = days_in_year y"
  by (simp add: month_lengths_def days_in_year_def)

lemma find_month_day:
  "0 \<le> d \<Longrightarrow> d < sum_list ls \<Longrightarrow> find_month ls m d = (m', d') \<Longrightarrow>
   m \<le> m' \<and> m' < m + int (length ls) \<and> 0 \<le> d' \<and> d' < ls ! nat (m' - m) \<and>
   sum_list (take (nat (m' - m)) ls) + d' = d"
proof (induction ls m d rule: find_month.induct)
  case (2 l ls m d)
  show ?case
  proof (cases "d < l")
    case False
    with 2 have IH: "m + 1 \<le> m'" "m' < m + 1 + int (length ls)" "0 \<le> d'" "d' < ls ! nat (m' - (m + 1))"
        "sum_list (take (nat (m' - (m + 1))) ls) + d' = d - l"
      by auto
    then have "nat (m' - m) = Suc (nat (m' - (m + 1)))" by linarith
    with IH show ?thesis by simp
  qed (use 2 in auto)
qed simp

text \<open>
  The date is the calendar date of the day: a month of the year, a day of the month, and counting
  the days up to it gives the day of the clock.
\<close>

lemma gmtime_date_exact:
  assumes "gmtime_date t = (y, m, d)"
  shows "1 \<le> m \<and> m \<le> 12 \<and> 1 \<le> d \<and> d \<le> month_lengths y ! nat (m - 1)"
    and "year_start y + sum_list (take (nat (m - 1)) (month_lengths y)) + (d - 1) = year_start 1970 + t div 86400"
proof -
  obtain yd where yd: "find_year 1970 (t div 86400) = (y, yd)" "find_month (month_lengths y) 1 yd = (m, d - 1)"
    using assms by (auto simp: gmtime_date_def split: prod.splits)
  have year: "year_start y + yd = year_start 1970 + t div 86400" "0 \<le> yd" "yd < sum_list (month_lengths y)"
    using find_year_day [OF yd(1)] by (simp_all add: month_sum)
  have len: "length (month_lengths y) = 12" by (simp add: month_lengths_def)
  note month = find_month_day [OF year(2,3) yd(2)]
  show "1 \<le> m \<and> m \<le> 12 \<and> 1 \<le> d \<and> d \<le> month_lengths y ! nat (m - 1)"
    using month len by auto
  show "year_start y + sum_list (take (nat (m - 1)) (month_lengths y)) + (d - 1) = year_start 1970 + t div 86400"
    using month year(1) by linarith
qed

subsection \<open>The shape of a date\<close>

definition date_text :: "string \<Rightarrow> bool" where
  "date_text d \<longleftrightarrow> length d = 10 \<and> list_all (\<lambda>c. is_digit c \<or> c = CHR ''-'') d"

text \<open>The clock shows a time from 1970 to the end of 9999.\<close>

definition clock_ok :: "int \<Rightarrow> bool" where
  "clock_ok t \<longleftrightarrow> 0 \<le> t \<and> t < 253402300800"

lemma month_length_31: "nat (m - 1) < 12 \<Longrightarrow> month_lengths y ! nat (m - 1) \<le> 31"
  by (auto simp: month_lengths_def less_Suc_eq numeral_eq_Suc)

lemma show_nat_step: "10 \<le> n \<Longrightarrow> length (show_nat n) = Suc (length (show_nat (n div 10)))"
  by (subst show_nat.simps) simp

lemma show_int_nonneg: "0 \<le> v \<Longrightarrow> show_int v = show_nat (nat v)"
  by (simp add: show_int_def)

lemma two_digits_text: "0 \<le> v \<Longrightarrow> v < 100 \<Longrightarrow> length (two_digits v) = 2 \<and> all_digits (two_digits v)"
  using show_nat_step [of "nat v"] show_nat_digits [of "nat v"]
  by (auto simp: two_digits_def show_int_nonneg show_nat.simps [of "nat v"] show_nat.simps [of "nat v div 10"] is_digit_def)

lemma four_digits_text: "1000 \<le> v \<Longrightarrow> v < 10000 \<Longrightarrow> length (show_int v) = 4 \<and> all_digits (show_int v)"
  using show_nat_step [of "nat v"] show_nat_step [of "nat v div 10"] show_nat_step [of "nat v div 10 div 10"]
    show_nat_digits [of "nat v"]
  by (auto simp: show_int_nonneg show_nat.simps [of "nat v div 10 div 10 div 10"])

lemma utc_date_text:
  assumes "clock_ok t"
  shows "date_text (utc_date t)"
proof -
  obtain y m d where g: "gmtime_date t = (y, m, d)" by (metis prod_cases3)
  note md = gmtime_date_exact(1) [OF g] and day = gmtime_date_exact(2) [OF g]
  have t: "0 \<le> t div 86400" "t div 86400 < 2932897"
    using assms by (auto simp: clock_ok_def)
  have yd: "year_start y \<le> year_start 1970 + t div 86400" "year_start 1970 + t div 86400 < year_start (y + 1)"
  proof -
    obtain yday where "find_year 1970 (t div 86400) = (y, yday)"
      using g by (auto simp: gmtime_date_def split: prod.splits)
    from find_year_day [OF this] year_start_next [of y]
    show "year_start y \<le> year_start 1970 + t div 86400" "year_start 1970 + t div 86400 < year_start (y + 1)"
      by simp_all
  qed
  have c: "year_start 1970 = 719527" "year_start 10000 = 3652424"
    by (simp_all add: year_start_def)
  have "1970 \<le> y"
    using year_start_mono [of "y + 1" 1970] yd(2) t(1) c(1) by (cases "y < 1970") auto
  moreover have "y < 10000"
    using year_start_mono [of 10000 y] yd(1) t(2) c by (cases "y < 10000") auto
  ultimately have "length (show_int y) = 4 \<and> all_digits (show_int y)"
    by (intro four_digits_text) simp_all
  moreover have "d \<le> 31"
    using md month_length_31 [of m y] by (simp add: nat_less_iff)
  ultimately show ?thesis
    using two_digits_text [of m] two_digits_text [of d] md
    by (auto simp: utc_date_def g date_text_def list_all_iff)
qed

end
