(* ===== verification/Capture_Main.thy ===== *)
theory Capture_Main
  imports Shared_Metrics Ws_Client Replay System_Clock
begin

text \<open>
  The program around the components (\<open>run_shard\<close> and \<open>main\<close> of \<open>src/main.cpp\<close>): the output files
  of a shard, the shard from opening its files to its exit code, and the main function with its
  three modes (usage, replay, live capture with one shard per connection).

  What the operating system answers is a parameter: which files can be opened, whether the output
  directory exists, which sinks report a write error, what the clock shows.  The client of a
  shard is a parameter too, with \<open>Ws_Client\<close> as its instance.
\<close>

section \<open>Output files\<close>

definition shard_tag :: "Config \<Rightarrow> nat \<Rightarrow> string list \<Rightarrow> string" where
  "shard_tag cfg shard_id syms =
     (let base = (if length syms = 1 then syms ! 0 else ''multi'')
      in if cfg_shards cfg > 1 then ''s'' @ show_int (int shard_id) @ ''_'' @ base else base)"

definition md_path :: "Config \<Rightarrow> nat \<Rightarrow> string list \<Rightarrow> string \<Rightarrow> string" where
  "md_path cfg shard_id syms date =
     cfg_output_dir cfg @ ''/market_data_'' @ venue_to_string (cfg_venue cfg) @ ''_'' @
     shard_tag cfg shard_id syms @ ''_'' @ date @ ''.csv''"

definition snap_path :: "Config \<Rightarrow> nat \<Rightarrow> string list \<Rightarrow> string \<Rightarrow> string" where
  "snap_path cfg shard_id syms date =
     (let p = md_path cfg shard_id syms date in take (length p - 4) p @ ''_snapshots.csv'')"

definition ob_path :: "Config \<Rightarrow> string \<Rightarrow> string \<Rightarrow> string" where
  "ob_path cfg date s =
     cfg_output_dir cfg @ ''/market_data_'' @ venue_to_string (cfg_venue cfg) @ ''_'' @ s @ ''_'' @ date @ ''_orderbook.csv''"

text \<open>The files of a shard, and of all shards; every shard reads the date for itself.\<close>

definition shard_paths :: "Config \<Rightarrow> nat \<Rightarrow> string list \<Rightarrow> string \<Rightarrow> string list" where
  "shard_paths cfg i syms date = md_path cfg i syms date # snap_path cfg i syms date # map (ob_path cfg date) syms"

definition all_paths :: "Config \<Rightarrow> (nat \<Rightarrow> string) \<Rightarrow> string list" where
  "all_paths cfg date =
     (let groups = shard_symbols (cfg_symbols cfg) (cfg_shards cfg)
      in concat (map (\<lambda>i. shard_paths cfg i (groups ! i) (date i)) [0..<length groups]))"

section \<open>A shard from start to end\<close>

text \<open>What the client did in a run: the delivered messages, its exit code, its own counters.\<close>

record ClientRun =
  cr_deliveries :: "delivery list"
  cr_rc :: int
  cr_reconnects :: u64
  cr_handler_errors :: u64

definition client_counts :: "ClientRun \<Rightarrow> Metrics \<Rightarrow> Metrics" where
  "client_counts r m = m\<lparr>mx_reconnects := mx_reconnects m + cr_reconnects r,
     mx_parse_errors := mx_parse_errors m + cr_handler_errors r\<rparr>"

definition add_overflows :: "Metrics \<Rightarrow> string \<times> SymState \<Rightarrow> Metrics" where
  "add_overflows m kv = m\<lparr>mx_buffer_overflows := mx_buffer_overflows m + bs_overflows (ss_sess (snd kv))\<rparr>"

text \<open>After the client has returned: flush, look at the error flags, add up the overflows.\<close>

definition finish_shard ::
  "Config \<Rightarrow> string \<Rightarrow> (string \<Rightarrow> bool) \<Rightarrow> nat \<Rightarrow> string list \<Rightarrow> ClientRun \<Rightarrow> Shard \<Rightarrow> int \<times> Metrics" where
  "finish_shard cfg date write_failed shard_id syms r sh =
     (let wrote_ok = (\<not> write_failed (md_path cfg shard_id syms date) \<and>
                      \<not> write_failed (snap_path cfg shard_id syms date) \<and>
                      list_all (\<lambda>(s, st). \<not> write_failed (ob_path cfg date s)) (sh_syms sh));
          m' = foldl add_overflows (client_counts r (sh_metrics sh)) (sh_syms sh)
      in (if cr_rc r = 0 \<and> \<not> wrote_ok then 4 else cr_rc r, m'))"

definition run_shard ::
  "Config \<Rightarrow> int \<Rightarrow> (string \<Rightarrow> bool) \<Rightarrow> (string \<Rightarrow> bool) \<Rightarrow> (Config \<Rightarrow> ClientRun)
   \<Rightarrow> nat \<Rightarrow> string list \<Rightarrow> Metrics \<Rightarrow> int \<times> Metrics \<times> Shard option" where
  "run_shard cfg now open_ok write_failed client shard_id syms m =
     (let date = utc_date now in
      if \<not> open_ok (md_path cfg shard_id syms date) then (2, m, None)
      else if \<not> open_ok (snap_path cfg shard_id syms date) then (2, m, None)
      else if \<not> list_all (\<lambda>s. open_ok (ob_path cfg date s)) syms then (2, m, None)
      else
        let r = client (cfg\<lparr>cfg_symbols := syms, cfg_shard_id := int shard_id\<rparr>);
            sh = foldl (deliver cfg (int shard_id)) (new_Shard cfg (dedup syms) m) (cr_deliveries r)
        in case finish_shard cfg date write_failed shard_id syms r sh of (rc, m') \<Rightarrow> (rc, m', Some sh))"

section \<open>The main function\<close>

definition usage :: string where
  "usage =
     ''Usage: binance_capture [options]'' @ [CHR 0x0A] @
     ''  --venue spot|usdm           Market venue (default spot)'' @ [CHR 0x0A] @
     ''  --symbols SYM[,SYM...]      Uppercase symbols, e.g. BTCUSDT,ETHUSDT'' @ [CHR 0x0A] @
     ''  --output-dir DIR            Output directory (default ./output)'' @ [CHR 0x0A] @
     ''  --duration SECONDS          Capture duration; 0 = until SIGINT (default 0)'' @ [CHR 0x0A] @
     ''  --shard-id N                Shard index for this connection (default 0)'' @ [CHR 0x0A] @
     ''  --shards N                  Spread symbols across N connections (default 1)'' @ [CHR 0x0A] @
     ''  --time-policy recv|event    Timestamp source (default recv)'' @ [CHR 0x0A] @
     ''  --integrate-trades          Emit an annotated OB row on each trade'' @ [CHR 0x0A] @
     ''  --sync-writes               Write CSVs inline instead of a writer thread'' @ [CHR 0x0A] @
     ''  --replay FILE               Replay a saved market_data_*.csv (no network)'' @ [CHR 0x0A] @
     ''  --help                      Show this help'' @ [CHR 0x0A]"

text \<open>The outside of the process.\<close>

record World =
  wd_mkdir :: "string \<Rightarrow> string option"     \<comment> \<open>the message of the exception, if it fails\<close>
  wd_read :: "string \<Rightarrow> string option"
  wd_open_ok :: "string \<Rightarrow> bool"
  wd_write_failed :: "string \<Rightarrow> bool"
  wd_time :: "nat \<Rightarrow> int"
  wd_client :: "nat \<Rightarrow> Config \<Rightarrow> ClientRun"

text \<open>The exit code, the text on the standard output and the last text on the standard error.\<close>

record MainResult =
  mr_rc :: int
  mr_out :: string
  mr_err :: string

text \<open>The last shard with a failure gives the exit code.\<close>

definition exit_code :: "int list \<Rightarrow> int" where
  "exit_code rcs = foldl (\<lambda>rc r. if r \<noteq> 0 then r else rc) 0 rcs"

definition run_shards :: "World \<Rightarrow> Config \<Rightarrow> (int \<times> Metrics \<times> Shard option) list" where
  "run_shards w cfg =
     (let groups = shard_symbols (cfg_symbols cfg) (cfg_shards cfg)
      in map (\<lambda>i. if groups ! i = [] then (0, new_Metrics, None)
                   else run_shard cfg (wd_time w i) (wd_open_ok w) (wd_write_failed w) (wd_client w i) i (groups ! i) new_Metrics)
           [0..<length groups])"

definition main_program :: "World \<Rightarrow> string list \<Rightarrow> MainResult" where
  "main_program w args =
     (case from_args args of
        (cfg, err) \<Rightarrow>
          if err \<noteq> [] then
            (if err = ''help'' then \<lparr>mr_rc = 0, mr_out = usage, mr_err = []\<rparr>
             else \<lparr>mr_rc = 1, mr_out = [], mr_err = ''error: '' @ err @ [CHR 0x0A, CHR 0x0A] @ usage\<rparr>)
          else
            (case wd_mkdir w (cfg_output_dir cfg) of
               Some what \<Rightarrow>
                 \<lparr>mr_rc = 2, mr_out = [], mr_err = ''error: cannot create output directory '' @ cfg_output_dir cfg @ '': '' @ what @ [CHR 0x0A]\<rparr>
             | None \<Rightarrow>
                 if cfg_replay_input cfg \<noteq> [] then
                   (case run_replay cfg (wd_read w) (wd_open_ok w) new_Metrics of
                      Inl (rc, m) \<Rightarrow> \<lparr>mr_rc = rc, mr_out = [], mr_err = metrics_dump m\<rparr>
                    | Inr rp \<Rightarrow> \<lparr>mr_rc = 0, mr_out = [], mr_err = metrics_dump (rp_metrics rp)\<rparr>)
                 else
                   let rs = run_shards w cfg
                   in \<lparr>mr_rc = exit_code (map fst rs), mr_out = [],
                       mr_err = metrics_dump (sum_metrics (map (\<lambda>r. fst (snd r)) rs))\<rparr>))"

section \<open>Distinct files\<close>

definition path_stem :: "Config \<Rightarrow> string" where
  "path_stem cfg = cfg_output_dir cfg @ ''/market_data_'' @ venue_to_string (cfg_venue cfg) @ ''_''"

lemma md_path_eq: "md_path cfg i syms d = path_stem cfg @ shard_tag cfg i syms @ ''_'' @ d @ ''.csv''"
  by (simp add: md_path_def path_stem_def)

lemma snap_path_eq: "snap_path cfg i syms d = path_stem cfg @ shard_tag cfg i syms @ ''_'' @ d @ ''_snapshots.csv''"
proof -
  have "take (length p - 4) p = path_stem cfg @ shard_tag cfg i syms @ ''_'' @ d"
    if "p = (path_stem cfg @ shard_tag cfg i syms @ ''_'' @ d) @ ''.csv''" for p
    unfolding that by simp
  then show ?thesis
    by (simp add: snap_path_def md_path_eq Let_def)
qed

lemma ob_path_eq: "ob_path cfg d s = path_stem cfg @ s @ ''_'' @ d @ ''_orderbook.csv''"
  by (simp add: ob_path_def path_stem_def)

text \<open>The three kinds of files differ in the fifth character from the end.\<close>

lemma kinds_differ:
  assumes "date_text d" "date_text d'" "date_text d''"
  shows "md_path cfg i syms d \<noteq> snap_path cfg' i' syms' d'" "md_path cfg i syms d \<noteq> ob_path cfg'' d'' s"
    "snap_path cfg' i' syms' d' \<noteq> ob_path cfg'' d'' s"
proof -
  obtain ds c where d: "d = ds @ [c]" "is_digit c \<or> c = CHR ''-''"
    using assms(1) by (cases d rule: rev_cases) (auto simp: date_text_def)
  then have c: "c \<noteq> CHR ''s''" "c \<noteq> CHR ''k''"
    by (auto simp: is_digit_def)
  have fifth: "rev (md_path cfg i syms d) ! 4 = c" "rev (snap_path cfg' i' syms' d') ! 4 = CHR ''s''"
      "rev (ob_path cfg'' d'' s) ! 4 = CHR ''k''"
    by (simp_all add: md_path_eq snap_path_eq ob_path_eq d(1))
  show "md_path cfg i syms d \<noteq> snap_path cfg' i' syms' d'" "md_path cfg i syms d \<noteq> ob_path cfg'' d'' s"
    "snap_path cfg' i' syms' d' \<noteq> ob_path cfg'' d'' s"
    using fifth c by force+
qed

lemma tag_inj:
  assumes "cfg_shards cfg > 1" "i \<noteq> j"
  shows "shard_tag cfg i g @ x \<noteq> shard_tag cfg j g' @ y"
proof
  assume eq: "shard_tag cfg i g @ x = shard_tag cfg j g' @ y"
  have tw: "takeWhile is_digit (show_int (int k) @ CHR ''_'' # z) = show_int (int k)" for k z
    using show_nat_digits [of k] by (intro takeWhile_run) (simp_all add: show_int_def is_digit_def)
  have "takeWhile is_digit (tl (shard_tag cfg k h @ z)) = show_int (int k)" for k h z
    using assms(1) tw by (simp add: shard_tag_def Let_def)
  from this [of i g x] this [of j g' y] eq have "show_int (int i) = show_int (int j)" by simp
  then have "show_nat i = show_nat j" by (simp add: show_int_def)
  then have "int i = int j" by (metis digits_val_show_nat)
  with assms(2) show False by simp
qed

lemma same_length_suffix: "length u = length v \<Longrightarrow> x @ u = y @ v \<longleftrightarrow> x = y \<and> u = v"
  by simp

lemma ob_path_inj:
  assumes "date_text d" "date_text d'"
  shows "ob_path cfg d s = ob_path cfg d' s' \<longleftrightarrow> s = s' \<and> d = d'"
proof -
  have "length (''_'' @ d @ ''_orderbook.csv'') = length (''_'' @ d' @ ''_orderbook.csv'')"
    using assms by (simp add: date_text_def)
  then show ?thesis
    unfolding ob_path_eq same_append_eq by (simp add: same_length_suffix)
qed

lemma shard_paths_distinct:
  assumes "distinct syms" "date_text d"
  shows "distinct (shard_paths cfg i syms d)"
proof -
  have "inj_on (ob_path cfg d) (set syms)"
    using assms(2) by (auto simp: inj_on_def ob_path_inj)
  then show ?thesis
    using assms kinds_differ [OF assms(2,2,2)] by (auto simp: shard_paths_def distinct_map)
qed

lemma shard_paths_disjoint:
  assumes "date_text d" "date_text d'" "cfg_shards cfg > 1" "i \<noteq> j" "set g \<inter> set g' = {}"
  shows "set (shard_paths cfg i g d) \<inter> set (shard_paths cfg j g' d') = {}"
proof -
  have "md_path cfg i g d \<noteq> md_path cfg j g' d'" "snap_path cfg i g d \<noteq> snap_path cfg j g' d'"
    unfolding md_path_eq snap_path_eq same_append_eq using tag_inj [OF assms(3,4)] by blast+
  then show ?thesis
    using kinds_differ [OF assms(1,2,2)] kinds_differ [OF assms(2,1,1)] assms(1,2,5)
    by (auto simp: shard_paths_def ob_path_inj) (metis kinds_differ)+
qed

lemma distinct_concat_upt:
  assumes "\<And>i. i < n \<Longrightarrow> distinct (f i)" "\<And>i j. i < n \<Longrightarrow> j < n \<Longrightarrow> i \<noteq> j \<Longrightarrow> set (f i) \<inter> set (f j) = {}"
  shows "distinct (concat (map f [0..<n]))"
  using assms
proof (induction n)
  case (Suc n)
  have "\<forall>i < n. set (f i) \<inter> set (f n) = {}"
    using Suc.prems(2) by simp
  then have "set (concat (map f [0..<n])) \<inter> set (f n) = {}"
    by auto
  then show ?case
    using Suc by simp
qed simp

lemma distinct_groups:
  assumes "distinct (concat gs)" "i < length gs"
  shows "distinct (gs ! i)" "j < length gs \<Longrightarrow> i \<noteq> j \<Longrightarrow> set (gs ! i) \<inter> set (gs ! j) = {}"
proof -
  show "distinct (gs ! i)"
    using assms by (meson distinct_concat_iff nth_mem)
  show "set (gs ! i) \<inter> set (gs ! j) = {}" if "j < length gs" "i \<noteq> j"
    using assms that
  proof (induction gs arbitrary: i j)
    case (Cons g gs)
    have "set g \<inter> set (gs ! k) = {}" if "k < length gs" for k
      using Cons.prems(1) that by (auto simp: disjoint_iff)
    with Cons show ?case
      by (cases i; cases j) auto
  qed simp
qed

lemma all_paths_distinct:
  assumes "distinct (cfg_symbols cfg)" "\<And>i. date_text (date i)"
  shows "distinct (all_paths cfg date)"
  unfolding all_paths_def Let_def
proof (rule distinct_concat_upt)
  let ?gs = "shard_symbols (cfg_symbols cfg) (cfg_shards cfg)"
  have gs: "distinct (concat ?gs)"
    using assms(1) shards_mset by (metis mset_eq_imp_distinct_iff)
  show "distinct (shard_paths cfg i (?gs ! i) (date i))" if "i < length ?gs" for i
    using distinct_groups(1) [OF gs that] assms(2) by (rule shard_paths_distinct)
  show "set (shard_paths cfg i (?gs ! i) (date i)) \<inter> set (shard_paths cfg j (?gs ! j) (date j)) = {}"
    if "i < length ?gs" "j < length ?gs" "i \<noteq> j" for i j
  proof (rule shard_paths_disjoint [OF assms(2,2) _ that(3)])
    show "1 < cfg_shards cfg"
      using that by (auto simp: shard_symbols_eq shard_count_def split: if_splits)
    show "set (?gs ! i) \<inter> set (?gs ! j) = {}"
      using distinct_groups(2) [OF gs that(1,2,3)] .
  qed
qed

text \<open>
  C27: No two writers share a file.  For every accepted live command line, the audit files, snapshot
  sidecars and order-book files of all shards have pairwise different names, whatever symbols are
  given and whatever times from 1970 to 9999 the shards read from the clock for their dates.
\<close>

theorem output_files_distinct:
  assumes "from_args args = (cfg, [])" "cfg_replay_input cfg = []" "\<And>i. clock_ok (time i)"
  shows "distinct (all_paths cfg (\<lambda>i. utc_date (time i)))"
  using from_args_accepted(2) [OF assms(1,2)] utc_date_text [OF assms(3)] by (rule all_paths_distinct)

theorem output_files_distinct_witness:
  "distinct (all_paths (new_Config\<lparr>cfg_symbols := [''BTCUSDT'', ''ETHUSDT'', ''BNBUSDT''], cfg_shards := 2\<rparr>) (\<lambda>_. utc_date 1735603200))"
proof (rule output_files_distinct)
  show "from_args [''--symbols'', ''btcusdt,ETHUSDT,,btcUSDT,bnbusdt'', ''--shards'', ''2''] =
    (new_Config\<lparr>cfg_symbols := [''BTCUSDT'', ''ETHUSDT'', ''BNBUSDT''], cfg_shards := 2\<rparr>, [])"
    by code_simp
  show "cfg_replay_input (new_Config\<lparr>cfg_symbols := [''BTCUSDT'', ''ETHUSDT'', ''BNBUSDT''], cfg_shards := 2\<rparr>) = []"
    by code_simp
  show "clock_ok 1735603200" by (simp add: clock_ok_def)
qed

section \<open>Exit codes\<close>

lemma exit_code_last: "exit_code (rcs @ [r]) = (if r \<noteq> 0 then r else exit_code rcs)"
  by (simp add: exit_code_def)

lemma exit_code_zero: "exit_code rcs = 0 \<longleftrightarrow> list_all (\<lambda>r. r = 0) rcs"
  by (induction rcs rule: rev_induct) (auto simp: exit_code_last, simp add: exit_code_def)

text \<open>A shard succeeds: its files open, its client returns \<open>0\<close>, no file reports a write error.\<close>

definition shard_clean :: "World \<Rightarrow> Config \<Rightarrow> nat \<Rightarrow> string list \<Rightarrow> bool" where
  "shard_clean w cfg i syms \<longleftrightarrow> list_all (wd_open_ok w) (shard_paths cfg i syms (utc_date (wd_time w i))) \<and>
     cr_rc (wd_client w i (cfg\<lparr>cfg_symbols := syms, cfg_shard_id := int i\<rparr>)) = 0 \<and>
     list_all (\<lambda>p. \<not> wd_write_failed w p) (shard_paths cfg i syms (utc_date (wd_time w i)))"

lemma run_shard_zero:
  "fst (run_shard cfg (wd_time w i) (wd_open_ok w) (wd_write_failed w) (wd_client w i) i syms m) = 0 \<longleftrightarrow> shard_clean w cfg i syms"
proof -
  let ?sh = "\<lambda>ds. foldl (deliver cfg (int i)) (new_Shard cfg (dedup syms) m) ds"
  have keys: "list_all (\<lambda>(s, st). P s) (sh_syms (?sh ds)) \<longleftrightarrow> list_all P syms" for P ds
  proof -
    have "fst ` set (sh_syms (?sh ds)) = set syms"
      using arg_cong [OF run_symbols [of cfg "int i" "new_Shard cfg (dedup syms) m" ds], of set]
      by (simp add: new_Shard_def image_image)
    then show ?thesis
      by (force simp: list_all_iff)
  qed
  show ?thesis
    by (auto simp: run_shard_def finish_shard_def shard_clean_def shard_paths_def Let_def keys list.pred_map comp_def)
qed

lemma run_shards_zero:
  "exit_code (map fst (run_shards w cfg)) = 0 \<longleftrightarrow>
     (let groups = shard_symbols (cfg_symbols cfg) (cfg_shards cfg)
      in list_all (\<lambda>i. if groups ! i = [] then True else shard_clean w cfg i (groups ! i)) [0..<length groups])"
  by (auto simp: exit_code_zero run_shards_def Let_def list_all_iff run_shard_zero)

lemma main_program_live:
  assumes "from_args args = (cfg, [])" "cfg_replay_input cfg = []" "mr_rc (main_program w args) = 0"
  shows "exit_code (map fst (run_shards w cfg)) = 0"
  using assms by (auto simp: main_program_def Let_def split: option.splits)

text \<open>
  C26: The exit code tells whether the run was complete.  The program exits with \<open>0\<close> exactly when it
  was asked for help, or the command line was accepted, the output directory exists and, in replay
  mode, the capture could be read and every output opened, or, in live mode, every shard opened all
  its files, its client ended without an error and none of its files reported a failed write.
\<close>

theorem main_exit_zero:
  "mr_rc (main_program w args) = 0 \<longleftrightarrow>
     (case from_args args of
        (cfg, err) \<Rightarrow>
          if err \<noteq> [] then err = ''help''
          else wd_mkdir w (cfg_output_dir cfg) = None \<and>
            (if cfg_replay_input cfg \<noteq> [] then \<exists>rp. run_replay cfg (wd_read w) (wd_open_ok w) new_Metrics = Inr rp
             else let groups = shard_symbols (cfg_symbols cfg) (cfg_shards cfg)
                  in list_all (\<lambda>i. if groups ! i = [] then True else shard_clean w cfg i (groups ! i)) [0..<length groups]))"
proof -
  obtain cfg err where a: "from_args args = (cfg, err)" by (cases "from_args args")
  have replay: "rc = 2" if "run_replay cfg (wd_read w) (wd_open_ok w) new_Metrics = Inl (rc, m)" for rc m
    using that by (rule run_replay_code)
  show ?thesis
    using run_shards_zero [of w cfg] replay by (auto simp: main_program_def a Let_def split: option.splits sum.splits)
qed

text \<open>The shard index of the command line is overwritten by the index of the group, so that \<open>--shard-id\<close>
  has no effect on a live run.\<close>

lemma shard_id_proj:
  "cfg_venue (cfg\<lparr>cfg_shard_id := k\<rparr>) = cfg_venue cfg" "cfg_time_policy (cfg\<lparr>cfg_shard_id := k\<rparr>) = cfg_time_policy cfg"
  "cfg_integrate_trades (cfg\<lparr>cfg_shard_id := k\<rparr>) = cfg_integrate_trades cfg" "cfg_shards (cfg\<lparr>cfg_shard_id := k\<rparr>) = cfg_shards cfg"
  "cfg_output_dir (cfg\<lparr>cfg_shard_id := k\<rparr>) = cfg_output_dir cfg" "cfg_symbols (cfg\<lparr>cfg_shard_id := k\<rparr>) = cfg_symbols cfg"
  "cfg\<lparr>cfg_shard_id := k, cfg_symbols := syms, cfg_shard_id := i\<rparr> = cfg\<lparr>cfg_symbols := syms, cfg_shard_id := i\<rparr>"
  by simp_all

lemma deliver_shard_id: "deliver (cfg\<lparr>cfg_shard_id := k\<rparr>) i sh d = deliver cfg i sh d"
  by (cases d) (simp only: deliver.simps handler_def handle_kind_def resync_def stamp_message_def shard_id_proj)

lemma shard_id_option_ignored: "run_shards w (cfg\<lparr>cfg_shard_id := k\<rparr>) = run_shards w cfg"
  unfolding run_shards_def run_shard_def finish_shard_def md_path_def snap_path_def ob_path_def shard_tag_def new_Shard_def shard_id_proj deliver_shard_id
  ..

section \<open>A shard with the live client\<close>

text \<open>What a run of the client hands to the shard, with the clock readings and the network at every message.\<close>

definition client_run :: "WsClient \<Rightarrow> Env list \<Rightarrow> ClientRun" where
  "client_run w envs = \<lparr>cr_deliveries = map2 Pair envs (ws_log w), cr_rc = (case ws_pc w of Returned rc \<Rightarrow> rc | _ \<Rightarrow> 0),
     cr_reconnects = ws_reconnects w, cr_handler_errors = ws_parse_errors w\<rparr>"

text \<open>The audit file has the connection numbers of exactly the frames that are envelopes.\<close>

lemma handler_no_envelope:
  "\<not> fst (split_envelope frame [] []) \<Longrightarrow> sh_md (handler cfg shard_id env sh frame e q) = sh_md sh"
  by (cases "split_envelope frame [] []") (simp add: handler_def)

lemma run_keys:
  "length envs = length log \<Longrightarrow>
   map (\<lambda>r. (md_epoch r, md_seq r)) (sh_md (foldl (deliver cfg shard_id) sh (map2 Pair envs log))) =
   map (\<lambda>r. (md_epoch r, md_seq r)) (sh_md sh) @ map snd (filter (\<lambda>(f, k). fst (split_envelope f [] [])) log)"
proof (induction envs log arbitrary: sh rule: list_induct2)
  case (Cons env envs x log)
  obtain f e q where x: "x = (f, e, q)" by (metis prod_cases3)
  obtain ok stream data where sp: "split_envelope f [] [] = (ok, stream, data)" by (metis prod_cases3)
  have "map (\<lambda>r. (md_epoch r, md_seq r)) (sh_md (handler cfg shard_id env sh f e q)) =
      map (\<lambda>r. (md_epoch r, md_seq r)) (sh_md sh) @ (if ok then [(e, q)] else [])"
    using handler_md [of f stream data cfg shard_id env sh e q] handler_no_envelope [of f cfg shard_id env sh e q] sp
    by (cases ok) auto
  then show ?case
    using Cons.IH [of "handler cfg shard_id env sh f e q"] by (simp add: x sp)
qed simp

definition row_before :: "MdRow \<Rightarrow> MdRow \<Rightarrow> bool" where
  "row_before a b \<longleftrightarrow> md_epoch a < md_epoch b \<or> md_epoch a = md_epoch b \<and> md_seq a < md_seq b"

text \<open>
  C10: The audit file of a live run can be ordered and checked for losses by its own columns.  For
  every run of the client, whatever the network does, the rows that the shard records have strictly
  increasing pairs of connection epoch and sequence number, and the pairs are those of the received
  frames that are combined-stream envelopes, in order; so every missing pair within an epoch is a
  frame that was received and counted as a parse error.
\<close>

theorem audit_rows_ordered:
  assumes "ws_step\<^sup>*\<^sup>* (ws_start c t0) w" "in_i32 (cfg_duration_s c)" "length (ws_log w) < 2 ^ 64" "length envs = length (ws_log w)"
  shows "let sh = foldl (deliver cfg shard_id) (new_Shard cfg (dedup syms) m) (cr_deliveries (client_run w envs))
    in sorted_wrt row_before (sh_md sh) \<and>
       map (\<lambda>r. (md_epoch r, md_seq r)) (sh_md sh) = map snd (filter (\<lambda>(f, k). fst (split_envelope f [] [])) (ws_log w))"
proof -
  let ?sh = "foldl (deliver cfg shard_id) (new_Shard cfg (dedup syms) m) (cr_deliveries (client_run w envs))"
  let ?good = "filter (\<lambda>(f, k). fst (split_envelope f [] [])) (ws_log w)"
  have keys: "map (\<lambda>r. (md_epoch r, md_seq r)) (sh_md ?sh) = map snd ?good"
    using run_keys [OF assms(4), of cfg shard_id "new_Shard cfg (dedup syms) m"]
    by (simp add: client_run_def new_Shard_def)
  have "well_numbered (rev (ws_log w))"
    using ws_inv_reachable [OF assms(1,2)] by (simp add: ws_inv_def log_inv_def)
  then have "sorted_wrt key_less (ws_log w)"
    using well_numbered_sorted [of "rev (ws_log w)"] assms(3) by (simp add: sorted_wrt_rev)
  then have "sorted_wrt key_less ?good"
    by (rule sorted_wrt_filter)
  then have "sorted_wrt (\<lambda>(e, q) (e', q'). e < e' \<or> e = e' \<and> q < q') (map snd ?good)"
    unfolding sorted_wrt_map by (rule sorted_wrt_mono_rel [rotated]) (auto simp: key_less_def)
  then have "sorted_wrt row_before (sh_md ?sh)"
    unfolding keys [symmetric] sorted_wrt_map row_before_def by simp
  with keys show ?thesis by (simp add: Let_def)
qed

theorem audit_rows_ordered_witness:
  "\<exists>w :: WsClient. ws_log w = [(''x'', 0, 1)] \<and>
    (let sh = foldl (deliver new_Config 0) (new_Shard new_Config (dedup [''BTC'']) new_Metrics) (cr_deliveries (client_run w [sample_env]))
     in sorted_wrt row_before (sh_md sh) \<and>
       map (\<lambda>r. (md_epoch r, md_seq r)) (sh_md sh) = map snd (filter (\<lambda>(f, k). fst (split_envelope f [] [])) (ws_log w)))"
proof -
  obtain w where w: "ws_step\<^sup>*\<^sup>* (ws_start new_Config 0) w" "ws_log w = [(''x'', 0, 1)]"
    using sample_client by blast
  have "in_i32 (cfg_duration_s new_Config)" "length (ws_log w) < 2 ^ 64" "length [sample_env] = length (ws_log w)"
    using w(2) by (simp_all add: new_Config_def range_defs)
  from audit_rows_ordered [OF w(1) this, of new_Config 0 "[''BTC'']" new_Metrics] w(2) show ?thesis by blast
qed

end
