(* ===== verification/Live_Ranges.thy ===== *)
theory Live_Ranges
  imports Live_Shard
begin

text \<open>
  Ranges of the live capture.  The books, buffers and rows of a shard hold only values of their
  machine types, whatever the network delivers, so that every row fits the fixed buffer it is
  formatted into: the code uses the length that \<open>snprintf\<close> returns without comparing it with the
  size of the buffer (\<open>src/csv_writer.cpp\<close>, the sidecar rows of \<open>src/main.cpp\<close>).
\<close>

section \<open>Books and buffers\<close>

definition side_ok :: "(i64 \<rightharpoonup> i64) \<Rightarrow> bool" where
  "side_ok m \<longleftrightarrow> (\<forall>p q. m p = Some q \<longrightarrow> in_i64 p \<and> in_i64 q)"

definition book_ok :: "OrderBook \<Rightarrow> bool" where
  "book_ok ob \<longleftrightarrow> side_ok (sb_bids (abs_book ob)) \<and> side_ok (sb_asks (abs_book ob))"

definition event_ok :: "DepthEvent \<Rightarrow> bool" where
  "event_ok ev \<longleftrightarrow> event_in_range ev \<and> ts_in_range (ev_applied_time ev)"

definition sess_ok :: "BookSession \<Rightarrow> bool" where
  "sess_ok s \<longleftrightarrow> book_ok (bs_ob s) \<and> list_all event_ok (bs_buffer s)"

named_theorems keeps_ok

lemma side_ok_set_level: "side_ok m \<Longrightarrow> level_in_range l \<Longrightarrow> side_ok (set_level m l)"
  by (auto simp: side_ok_def set_level_def level_in_range_def split: if_splits)

lemma side_ok_set_levels: "side_ok m \<Longrightarrow> list_all level_in_range ls \<Longrightarrow> side_ok (set_levels m ls)"
  unfolding set_levels_def by (induction ls arbitrary: m) (auto intro: side_ok_set_level)

lemma side_ok_snapshot: "list_all level_in_range ls \<Longrightarrow> side_ok (snapshot_map ls)"
  unfolding snapshot_map_def
  by (induction ls rule: rev_induct) (auto simp: side_ok_def level_in_range_def split: if_splits)

lemma book_ok_applied [keeps_ok]: "book_ok ob \<Longrightarrow> event_ok ev \<Longrightarrow> book_ok (applied_book ob ev)"
  by (simp add: book_ok_def applied_book_abs spec_apply_def event_ok_def event_in_range_def side_ok_set_levels)

lemma book_ok_snapshot [keeps_ok]:
  "list_all level_in_range bids \<Longrightarrow> list_all level_in_range asks \<Longrightarrow> book_ok (set_snapshot ob bids asks sid)"
  using abs_book_step [of ob "OpSnapshot bids asks sid"] by (simp add: book_ok_def side_ok_snapshot)

lemma book_ok_reset [keeps_ok]: "book_ok (reset_book ob)"
  using abs_book_step [of ob OpReset] by (simp add: book_ok_def spec_empty_def side_ok_def)

lemma sess_ok_new: "sess_ok (new_BookSession i v)"
  using abs_new_OrderBook [of i] by (simp add: sess_ok_def new_BookSession_def book_ok_def spec_empty_def side_ok_def)

lemma sess_ok_request [keeps_ok]: "sess_ok s \<Longrightarrow> sess_ok (request_resync s)"
  by (simp add: sess_ok_def request_resync_def keeps_ok)

lemma sess_ok_buffer [keeps_ok]: "sess_ok s \<Longrightarrow> event_ok ev \<Longrightarrow> sess_ok (buffer_event s ev)"
  by (simp add: sess_ok_def buffer_event_def Let_def keeps_ok)

lemma sess_ok_on_diff: "sess_ok s \<Longrightarrow> event_ok ev \<Longrightarrow> on_diff s ev = (s', o') \<Longrightarrow> sess_ok s'"
  by (auto simp: on_diff_def apply_one_eq Let_def split: if_splits)
    (auto simp: sess_ok_def buffer_event_def Let_def keeps_ok)

lemma sess_ok_replay:
  "book_ok (bs_ob s) \<Longrightarrow> list_all event_ok evs \<Longrightarrow>
   sess_ok (fst (replay s evs)) \<and> list_all (\<lambda>(ev, ob). event_ok ev \<and> book_ok ob) (snd (replay s evs))"
  by (induction s evs rule: replay.induct) (auto simp: sess_ok_def Let_def split_beta keeps_ok)

lemma sess_ok_on_snapshot:
  assumes "sess_ok s" "list_all level_in_range bids" "list_all level_in_range asks" "on_snapshot s bids asks sid = (s', n, calls)"
  shows "sess_ok s' \<and> list_all (\<lambda>(ev, ob). event_ok ev \<and> book_ok ob) calls"
  using sess_ok_replay [of "seeded s bids asks sid" "bs_buffer s"] assms
  by (auto simp: on_snapshot_eq sess_ok_def book_ok_snapshot Let_def split_beta)

section \<open>Rows\<close>

lemma in_i64_zero [simp]: "in_i64 0"
  by (simp add: range_defs)

lemma range_show_levels:
  assumes "list_all level_in_range bs" "list_all level_in_range as" "length bs \<le> 5" "length as \<le> 5" "ts_in_range ts" "in_i32 i"
  shows "row_in_range (show_levels bs as (labelled ts n i c))"
proof -
  have "list_all in_i64 (pad5 (map f ls))" if "list_all level_in_range ls" "f = price \<or> f = qty" for f ls
    using that by (auto simp: pad5_def list_all_iff level_in_range_def)
  then show ?thesis
    using assms by (simp add: row_in_range_def show_levels_def labelled_def row_shape_def length_pad5)
qed

lemma top_levels_range: "side_ok m \<Longrightarrow> top_levels better k m ls \<Longrightarrow> list_all level_in_range ls \<and> length ls \<le> k"
  by (auto simp: top_levels_def side_ok_def level_in_range_def list_all_iff)

lemma range_book_row:
  assumes "book_inv ob" "book_ok ob" "ts_in_range ts" "in_i32 (ob_id ob)"
  shows "row_in_range (book_row ts n c ob)"
proof -
  obtain bs as where "top_levels better_bid 5 (sb_bids (abs_book ob)) bs" "top_levels better_ask 5 (sb_asks (abs_book ob)) as"
      and row: "book_row ts n c ob = show_levels bs as (labelled ts n (ob_id ob) c)"
    using book_row_best [OF assms(1)] by blast
  then show ?thesis
    unfolding row using assms(2-4) top_levels_range by (intro range_show_levels) (auto simp: book_ok_def)
qed

lemma range_depth5_row: "event_ok ev \<Longrightarrow> ts_in_range ts \<Longrightarrow> in_i32 i \<Longrightarrow> row_in_range (depth5_row ts n i ev)"
  unfolding depth5_row_eq
  by (rule range_show_levels) (auto simp: event_ok_def event_in_range_def list_all_iff dest: in_set_takeD)

lemma derive_id_i32: "in_i32 (derive_id s)"
  using derive_id_range [of s] by (simp add: range_defs)

lemma range_emit_replayed:
  assumes "list_all row_in_range rows" "books_of (derive_id s) calls" "list_all (\<lambda>(ev, ob). event_ok ev \<and> book_ok ob) calls"
    "foldl emit_replayed (n, rows, m) calls = (n', rows', m')"
  shows "list_all row_in_range rows'"
  using assms
proof (induction calls arbitrary: n rows m)
  case (Cons c calls)
  obtain ev ob where c: "c = (ev, ob)" by (cases c)
  have "row_in_range (book_row (ev_applied_time ev) (n + 1) (CHR ''D'') ob)"
    using Cons.prems(2,3) derive_id_i32 [of s] by (intro range_book_row) (auto simp: c books_of_def event_ok_def)
  then have "list_all row_in_range (rows @ [book_row (ev_applied_time ev) (n + 1) (CHR ''D'') ob])"
    using Cons.prems(1) by simp
  from Cons.IH [OF this] Cons.prems(2-4) show ?case
    by (auto simp: c books_of_def)
qed simp

section \<open>The symbols of a shard\<close>

definition sym_ok :: "Venue \<Rightarrow> string \<Rightarrow> SymState \<Rightarrow> bool" where
  "sym_ok v s st \<longleftrightarrow> sym_inv v s st \<and> sess_ok (ss_sess st) \<and> list_all row_in_range (ss_rows st)"

lemma sym_ok_new: "sym_ok v s (new_SymState v s)"
  using sym_inv_new sess_ok_new by (simp add: sym_ok_def new_SymState_def)

lemma sym_ok_scratch [simp]: "sym_ok v s (st\<lparr>ss_scratch := ev\<rparr>) \<longleftrightarrow> sym_ok v s st"
  by (simp add: sym_ok_def sym_inv_scratch)

lemma sym_ok_epoch: "sym_ok v s st \<Longrightarrow> sym_ok v s (check_epoch st e)"
  using check_epoch_inv [of v s st e] by (auto simp: sym_ok_def check_epoch_def sess_ok_request)

lemma sym_ok_emit:
  assumes "sym_ok v s st" "c \<in> {CHR ''D'', CHR ''T''}" "ts_in_range ts" "emit_book_row ts c st m = (st', m')"
  shows "sym_ok v s st'"
proof -
  have "row_in_range (book_row ts (ss_seq st + 1) c (bs_ob (ss_sess st)))"
    using assms(1,3) derive_id_i32 [of s] by (intro range_book_row) (auto simp: sym_ok_def sym_inv_def sess_ok_def session_inv_def)
  then show ?thesis
    using emit_book_row_inv [OF _ assms(2,4)] assms(1,4)
    by (auto simp: sym_ok_def emit_book_row_def split: if_splits)
qed

lemma sym_ok_resync:
  assumes "sym_ok v s st" "resync cfg env st symbol m snaps = (st', m', snaps')"
  shows "sym_ok v s st'"
proof -
  obtain ok snap serr raw where f: "fetch_depth_snapshot (env_http env) (cfg_venue cfg) symbol
      (if cfg_venue cfg = Spot then 5000 else 1000) new_DepthEvent [] [] = (ok, snap, serr, raw)"
    by (metis prod_cases4)
  show ?thesis
  proof (cases ok)
    case False
    then show ?thesis using assms f by (auto simp: resync_def)
  next
    case True
    have "event_in_range snap"
      using f True parse_depth_range [OF new_event_in_range, of raw] by (auto simp: fetch_ok_iff)
    then have lv: "list_all level_in_range (ev_bids snap)" "list_all level_in_range (ev_asks snap)"
      by (simp_all add: event_in_range_def)
    obtain sess applied calls where o': "on_snapshot (ss_sess st) (ev_bids snap) (ev_asks snap) (ev_lastUpdateId snap) =
        (sess, applied, calls)"
      by (metis prod_cases3)
    obtain n rows m1 where e: "foldl emit_replayed (ss_seq st, ss_rows st, m) calls = (n, rows, m1)"
      by (metis prod_cases3)
    have s1: "sess_ok sess" "list_all (\<lambda>(ev, ob). event_ok ev \<and> book_ok ob) calls"
      using sess_ok_on_snapshot [OF _ lv o'] assms(1) by (auto simp: sym_ok_def)
    have "books_of (derive_id s) calls"
      using on_snapshot_books [OF _ _ o'] assms(1) by (auto simp: sym_ok_def sym_inv_def)
    then have "list_all row_in_range rows"
      using range_emit_replayed [OF _ _ s1(2) e] assms(1) by (simp add: sym_ok_def)
    then show ?thesis
      using resync_inv [OF _ assms(2)] assms f True o' e s1(1) by (auto simp: sym_ok_def resync_def Let_def)
  qed
qed

lemma sym_ok_handle:
  assumes ok: "sym_ok v s st" and h: "handle_kind cfg env kind ts symbol st m snaps = (st', m', snaps')"
    and ts: "ts_in_range ts" and ev: "kind \<noteq> Trade \<Longrightarrow> event_ok (ss_scratch st)"
  shows "sym_ok v s st'"
proof (cases kind)
  case DepthDiff
  obtain sess o' where d: "on_diff (ss_sess st) (ss_scratch st) = (sess, o')"
    by (metis surj_pair)
  have ok1: "sym_ok v s (st\<lparr>ss_sess := sess\<rparr>)"
    using on_diff_book [OF _ _ d] sess_ok_on_diff [OF _ _ d] ok ev DepthDiff by (auto simp: sym_ok_def sym_inv_def)
  show ?thesis
    using h DepthDiff d ok1 ts
    by (auto simp: handle_kind_def Let_def split: if_splits prod.splits intro: sym_ok_emit [OF ok1] sym_ok_resync [OF ok1])
next
  case Depth5
  have "row_in_range (depth5_row ts (ss_seq st + 1) (derive_id s) (ss_scratch st))"
    using ev Depth5 ts derive_id_i32 by (intro range_depth5_row) simp_all
  then show ?thesis
    using handle_kind_inv [OF _ h] ok h Depth5 by (auto simp: sym_ok_def sym_inv_def handle_kind_def Let_def)
next
  case Trade
  then show ?thesis
    using h ok ts by (auto simp: handle_kind_def Let_def split: if_splits prod.splits intro: sym_ok_emit [OF ok])
qed

section \<open>The rows of a shard\<close>

text \<open>Every row of every file of the shard fits its buffer.\<close>

definition rows_fit :: "Shard \<Rightarrow> bool" where
  "rows_fit sh \<longleftrightarrow> list_all (\<lambda>r. md_row_text r \<noteq> None) (sh_md sh) \<and>
     list_all (\<lambda>r. snap_row_text r \<noteq> None) (sh_snaps sh) \<and>
     list_all (\<lambda>(s, st). list_all (\<lambda>r. ob_row r \<noteq> None) (ss_rows st)) (sh_syms sh)"

definition shard_ok :: "Venue \<Rightarrow> Shard \<Rightarrow> bool" where
  "shard_ok v sh \<longleftrightarrow> list_all (\<lambda>r. md_row_text r \<noteq> None) (sh_md sh) \<and>
     list_all (\<lambda>r. snap_row_text r \<noteq> None) (sh_snaps sh) \<and>
     list_all (\<lambda>(s, st). sym_ok v s st) (sh_syms sh)"

definition clocks_ok :: "delivery \<Rightarrow> bool" where
  "clocks_ok d = (case d of (env, frame, e, q) \<Rightarrow> ts_in_range (env_now env) \<and> ts_in_range (env_snap_now env))"

lemma handle_kind_snaps:
  assumes "handle_kind cfg env kind ts symbol st m snaps = (st', m', snaps')" "ts_in_range (env_snap_now env)"
    "list_all (\<lambda>r. snap_row_text r \<noteq> None) snaps"
  shows "list_all (\<lambda>r. snap_row_text r \<noteq> None) snaps'"
proof -
  have "list_all (\<lambda>r. snap_row_text r \<noteq> None) sn'" if "resync cfg env st0 symbol m0 snaps = (st1, m1, sn')" for st0 m0 st1 m1 sn'
    using that assms(2,3)
    by (auto simp: resync_def Let_def snap_row_text_def snap_row_text_eq split: prod.splits if_splits)
  then show ?thesis
    using assms by (cases kind) (auto simp: handle_kind_def Let_def split: if_splits prod.splits)
qed

lemma sym_ok_update:
  "list_all (\<lambda>(s, st). sym_ok v s st) syms \<Longrightarrow> sym_ok v s st' \<Longrightarrow> list_all (\<lambda>(s, st). sym_ok v s st) (AList.update s st' syms)"
  by (induction syms) auto

lemma stamp_event_ok:
  assumes "stamp_message cfg recv kind (Some st) data = (ts, parsed, failed)" "kind \<noteq> Trade" "ts_in_range ts"
  shows "\<exists>ev. parsed = Some ev \<and> event_ok ev"
proof -
  obtain ok ev where p: "parse_depth data new_DepthEvent = (ok, ev)" by (metis surj_pair)
  then have "event_in_range ev"
    using parse_depth_range [OF new_event_in_range, of data] by simp
  then have "event_ok (ev\<lparr>ev_applied_time := ts\<rparr>)"
    using assms(3) by (simp add: event_ok_def event_in_range_def)
  moreover have "kind = DepthDiff \<or> kind = Depth5" using assms(2) by (cases kind) simp_all
  ultimately show ?thesis
    using assms(1) p by (auto simp: stamp_message_def reset_depth_event_fresh Let_def)
qed

lemma shard_ok_handler:
  assumes ok: "shard_ok v sh" and clk: "ts_in_range (env_now env)" "ts_in_range (env_snap_now env)" and id: "in_i32 shard_id"
  shows "shard_ok v (handler cfg shard_id env sh frame e q)"
proof -
  obtain okf stream data where sp: "split_envelope frame [] [] = (okf, stream, data)" by (metis prod_cases3)
  let ?s = "stream_symbol stream" and ?kind = "classify_stream stream"
  obtain ts parsed failed where st: "stamp_message cfg (env_now env) ?kind (map_of (sh_syms sh) ?s) data = (ts, parsed, failed)"
    by (metis prod_cases3)
  have ts: "ts_in_range ts" by (rule stamp_in_range [OF clk(1) st])
  show ?thesis
  proof (cases okf)
    case False
    then show ?thesis using ok by (simp add: handler_def sp shard_ok_def)
  next
    case True
    then have sp: "split_envelope frame [] [] = (True, stream, data)" using sp by simp
    have md: "list_all (\<lambda>r. md_row_text r \<noteq> None) (sh_md (handler cfg shard_id env sh frame e q))"
      using ok ts id by (simp add: handler_row [OF sp st] shard_ok_def md_row_text_def md_row_text_eq)
    show ?thesis
    proof (cases "map_of (sh_syms sh) ?s")
      case None
      then show ?thesis using ok md by (simp add: shard_ok_def handler_unknown [OF sp None])
    next
      case (Some st0)
      define st1 where "st1 = (case parsed of None \<Rightarrow> st0 | Some ev \<Rightarrow> st0\<lparr>ss_scratch := ev\<rparr>)"
      have s0: "sym_ok v ?s st0"
        using ok map_of_SomeD [OF Some] by (auto simp: shard_ok_def list_all_iff)
      then have s1: "sym_ok v ?s st1"
        by (simp add: st1_def split: option.split)
      show ?thesis
      proof (cases failed)
        case True
        then have "sh_snaps (handler cfg shard_id env sh frame e q) = sh_snaps sh"
            "sh_syms (handler cfg shard_id env sh frame e q) = AList.update ?s st1 (sh_syms sh)"
          using st Some by (simp_all add: handler_def sp Let_def st1_def)
        then show ?thesis
          using ok md sym_ok_update [OF _ s1] by (simp add: shard_ok_def)
      next
        case False
        obtain m1 m2 st2 snaps where h: "handle_kind cfg env ?kind ts ?s (check_epoch st1 e) m1 (sh_snaps sh) = (st2, m2, snaps)"
          and sh': "sh_snaps (handler cfg shard_id env sh frame e q) = snaps"
            "sh_syms (handler cfg shard_id env sh frame e q) = AList.update ?s st2 (sh_syms sh)"
          using handler_known [OF sp Some _ st1_def, of cfg env ts e shard_id q] st Some False by auto
        have "event_ok (ss_scratch (check_epoch st1 e))" if depth: "?kind \<noteq> Trade"
        proof -
          obtain ev where "parsed = Some ev" "event_ok ev"
            using stamp_event_ok [OF st [unfolded Some] depth ts] by blast
          then show ?thesis by (simp add: st1_def check_epoch_def)
        qed
        then have "sym_ok v ?s st2"
          using sym_ok_handle [OF sym_ok_epoch [OF s1] h ts] by blast
        then show ?thesis
          using ok md sym_ok_update handle_kind_snaps [OF h clk(2)] by (simp add: shard_ok_def sh')
      qed
    qed
  qed
qed

lemma shard_ok_run:
  "shard_ok v sh \<Longrightarrow> list_all clocks_ok ds \<Longrightarrow> in_i32 shard_id \<Longrightarrow> shard_ok v (foldl (deliver cfg shard_id) sh ds)"
proof (induction ds arbitrary: sh)
  case (Cons d ds)
  then show ?case
    using shard_ok_handler [of v sh] by (cases d) (simp add: clocks_ok_def)
qed simp

lemma shard_ok_fits: "shard_ok v sh \<Longrightarrow> rows_fit sh"
  using ob_row_eq by (fastforce simp: shard_ok_def rows_fit_def sym_ok_def list_all_iff)

section \<open>Properties\<close>

text \<open>
  C9: No row ever overruns its buffer.  Whatever frames and snapshot bodies the network delivers to
  a live shard, every audit row, every snapshot row and every order-book row that it writes fits
  the fixed-size buffer that the row is formatted into, so that the unchecked length that
  \<open>snprintf\<close> returns is always the length of the complete text.
\<close>

theorem live_rows_fit:
  assumes "list_all clocks_ok ds" "in_i32 shard_id"
  shows "rows_fit (foldl (deliver cfg shard_id) (new_Shard cfg (dedup syms) m) ds)"
proof -
  have "shard_ok (cfg_venue cfg) (new_Shard cfg (dedup syms) m)"
    by (auto simp: shard_ok_def new_Shard_def list_all_iff sym_ok_new)
  then show ?thesis
    using shard_ok_run [OF _ assms] shard_ok_fits by blast
qed

theorem live_rows_fit_witness:
  "rows_fit (foldl (deliver new_Config 0) (new_Shard new_Config (dedup [''BTC'']) new_Metrics) [(sample_env, ''x'', 0, 1)])"
  by (rule live_rows_fit) (simp_all add: clocks_ok_def sample_env_def ts_in_range_def zero_ts_def range_defs)

end
