(* ===== verification/Live_Follows.thy ===== *)
theory Live_Follows
  imports Replay_Live
begin

text \<open>
  From the exchange to the order-book files: if the messages and snapshots of a symbol report what
  the exchange documents, every row that a live shard writes from its diff book (types \<open>D\<close> and
  \<open>T\<close>) shows the best levels of the exchange's own book at some update id.  This joins the session
  (\<open>Book_Session\<close>), the top-of-book rows (\<open>Order_Book\<close>, \<open>Capture_Rows\<close>) and the message handler
  (\<open>Live_Shard\<close>).
\<close>

section \<open>Rows that follow the exchange\<close>

text \<open>
  A list of levels shows a side of the exchange's book on a set of prices: best first, at most five
  levels, each with the exchange's quantity, and a level of the exchange that is not shown is worse
  than five that are.
\<close>

definition side_shows :: "(i64 \<Rightarrow> i64 \<Rightarrow> bool) \<Rightarrow> i64 set \<Rightarrow> (i64 \<rightharpoonup> i64) \<Rightarrow> Level list \<Rightarrow> bool" where
  "side_shows better P m ls \<longleftrightarrow>
     ordered better ls \<and> length ls \<le> 5 \<and>
     (\<forall>l \<in> set ls. price l \<in> P \<longrightarrow> m (price l) = Some (qty l)) \<and>
     (\<forall>p \<in> P \<inter> dom m. p \<notin> price ` set ls \<longrightarrow> length ls = 5 \<and> (\<forall>l \<in> set ls. better (price l) p))"

definition row_follows :: "i64 set \<Rightarrow> exchange \<Rightarrow> ObRow \<Rightarrow> bool" where
  "row_follows P B r \<longleftrightarrow> row_type r = CHR ''S'' \<or>
     (\<exists>k bs as. side_shows better_bid P (fst (B k)) bs \<and> side_shows better_ask P (snd (B k)) as \<and>
        row_bid r = pad5 (map price bs) \<and> row_bid_size r = pad5 (map qty bs) \<and>
        row_ask r = pad5 (map price as) \<and> row_ask_size r = pad5 (map qty as))"

lemma top_levels_shows:
  assumes top: "top_levels better 5 m ls" and fin: "finite (dom m)" and irr: "distinct (map price ls)"
    and agree: "agree_on P m m'"
  shows "side_shows better P m' ls"
proof -
  have sub: "price ` set ls \<subseteq> dom m" and len: "length ls = min 5 (card (dom m))"
    using top by (auto simp: top_levels_def)
  have five: "length ls = 5" if "p \<in> dom m" "p \<notin> price ` set ls" for p
  proof (rule ccontr)
    assume "length ls \<noteq> 5"
    then have "card (price ` set ls) = card (dom m)"
      using len irr distinct_card [of "map price ls"] by simp
    then show False
      using that card_subset_eq [OF fin sub] by simp
  qed
  have same: "m' p = m p" if "p \<in> P" for p
    using agree that by (simp add: agree_on_def)
  have "length ls = 5 \<and> (\<forall>l \<in> set ls. better (price l) p)" if "p \<in> P" "p \<in> dom m'" "p \<notin> price ` set ls" for p
  proof -
    have "p \<in> dom m" using that same by (simp add: dom_def)
    with that(3) five top show ?thesis unfolding top_levels_def by blast
  qed
  then show ?thesis
    using top same len by (auto simp: side_shows_def top_levels_def)
qed

lemma book_row_follows:
  assumes "book_inv ob" "tracks P B ob"
  shows "row_follows P B (book_row ts n c ob)"
proof -
  obtain bs as where top: "top_levels better_bid 5 (sb_bids (abs_book ob)) bs"
      "top_levels better_ask 5 (sb_asks (abs_book ob)) as"
    and row: "book_row ts n c ob = show_levels bs as (labelled ts n (ob_id ob) c)"
    using book_row_best [OF assms(1)] by blast
  have "distinct (map price bs)" "distinct (map price as)"
    using top bid.ordered_distinct ask.ordered_distinct by (simp_all add: top_levels_def)
  moreover have "finite (dom (sb_bids (abs_book ob)))" "finite (dom (sb_asks (abs_book ob)))"
    by (simp_all add: abs_book_def finite_dom_map_of)
  ultimately have "side_shows better_bid P (fst (B (ob_last_update_id ob))) bs"
      "side_shows better_ask P (snd (B (ob_last_update_id ob))) as"
    using top assms(2) by (auto simp: tracks_abs intro: top_levels_shows)
  then show ?thesis
    unfolding row_follows_def row show_levels_def by auto
qed

section \<open>Faithful messages\<close>

text \<open>
  What the exchange sends to the shard with a message: the diff in the frame, and the snapshot that
  a request made at this message would return.
\<close>

definition faithful_delivery :: "Config \<Rightarrow> (string \<Rightarrow> i64 set) \<Rightarrow> (string \<Rightarrow> exchange) \<Rightarrow> delivery \<Rightarrow> bool" where
  "faithful_delivery cfg P X d =
     (case d of (env, frame, e, q) \<Rightarrow>
        (case split_envelope frame [] [] of (ok, stream, data) \<Rightarrow>
           let s = stream_symbol stream in
           if ok \<and> classify_stream stream = DepthDiff then
             (case parse_depth data new_DepthEvent of (parsed, ev) \<Rightarrow>
                parsed \<longrightarrow> faithful_event (cfg_venue cfg) (P s) (X s) ev) \<and>
             (case fetch_depth_snapshot (env_http env) (cfg_venue cfg) s
                (if cfg_venue cfg = Spot then 5000 else 1000) new_DepthEvent [] [] of
                (fetched, snap, serr, raw) \<Rightarrow>
                  fetched \<longrightarrow> faithful_snapshot (P s) (X s) (ev_bids snap) (ev_asks snap) (ev_lastUpdateId snap))
           else True))"

lemma continues_time: "continues v started k (ev\<lparr>ev_applied_time := ts\<rparr>) = continues v started k ev"
  by (cases v) auto

lemma faithful_event_time: "faithful_event v P B (ev\<lparr>ev_applied_time := ts\<rparr>) = faithful_event v P B ev"
  by (simp add: faithful_event_def continues_time)

section \<open>The invariant of a symbol\<close>

definition sym_follows :: "Venue \<Rightarrow> i64 set \<Rightarrow> exchange \<Rightarrow> SymState \<Rightarrow> bool" where
  "sym_follows v P B st \<longleftrightarrow> session_inv (ss_sess st) \<and> exchange_inv v P B (ss_sess st) \<and>
     list_all (row_follows P B) (ss_rows st)"

lemma sym_follows_new: "sym_follows v P B (new_SymState v s)"
  using session_inv_new exchange_inv_new by (simp add: sym_follows_def new_SymState_def)

lemma sym_follows_scratch: "sym_follows v P B (st\<lparr>ss_scratch := ev\<rparr>) = sym_follows v P B st"
  by (simp add: sym_follows_def)

lemma sym_follows_epoch: "sym_follows v P B st \<Longrightarrow> sym_follows v P B (check_epoch st e)"
  using session_inv_request_resync [of "ss_sess st"] exchange_inv_step [of v P B "ss_sess st" SResync]
  by (auto simp: sym_follows_def check_epoch_def)

lemma sym_follows_emit: "sym_follows v P B st \<Longrightarrow> sym_follows v P B (fst (emit_book_row ts c st m))"
  by (auto simp: sym_follows_def emit_book_row_def session_inv_def exchange_inv_def intro: book_row_follows)

lemma emit_replayed_follows:
  assumes "foldl emit_replayed (n, rows, m) calls = (n', rows', m')" "list_all (row_follows P B) rows"
    and "list_all (\<lambda>(ev, ob). book_inv ob \<and> tracks P B ob) calls"
  shows "list_all (row_follows P B) rows'"
  using assms
proof (induction calls arbitrary: n rows m)
  case (Cons c calls)
  obtain ev ob where c: "c = (ev, ob)" by (cases c)
  have "list_all (row_follows P B) (rows @ [book_row (ev_applied_time ev) (n + 1) (CHR ''D'') ob])"
    using Cons.prems(2,3) by (simp add: c book_row_follows)
  from Cons.IH [OF _ this] Cons.prems(1,3) show ?case
    by (simp add: c)
qed simp

text \<open>A faithful snapshot keeps the invariant; every diff replayed on it gives a row that follows.\<close>

lemma on_snapshot_follows:
  assumes "session_inv s" "exchange_inv v P B s" "faithful_snapshot P B bids asks sid"
    and "on_snapshot s bids asks sid = (s', n, calls)"
  shows "session_inv s' \<and> exchange_inv v P B s' \<and> list_all (\<lambda>(ev, ob). book_inv ob \<and> tracks P B ob) calls"
proof -
  have "books_of (ob_id (bs_ob s)) calls" "session_inv s'"
    using on_snapshot_books [OF assms(1) refl assms(4)] by simp_all
  moreover have "exchange_inv v P B s'"
    using exchange_inv_step [of v P B s "SSnapshot bids asks sid"] assms(2-4) by simp
  moreover have "\<forall>(ev, ob) \<in> set calls. tracks P B ob"
    using replay_tracks [of P B "seeded s bids asks sid" "bs_buffer s"] assms(2-4)
    by (auto simp: on_snapshot_eq split_beta Let_def exchange_inv_def tracks_set_snapshot)
  ultimately show ?thesis
    by (auto simp: books_of_def list_all_iff)
qed

lemma resync_follows:
  assumes "sym_follows v P B st" "resync cfg env st symbol m snaps = (st', m', snaps')"
    and snap: "\<And>snap serr raw. fetch_depth_snapshot (env_http env) (cfg_venue cfg) symbol
      (if cfg_venue cfg = Spot then 5000 else 1000) new_DepthEvent [] [] = (True, snap, serr, raw) \<Longrightarrow>
      faithful_snapshot P B (ev_bids snap) (ev_asks snap) (ev_lastUpdateId snap)"
  shows "sym_follows v P B st'"
proof -
  obtain ok snap serr raw where f: "fetch_depth_snapshot (env_http env) (cfg_venue cfg) symbol
      (if cfg_venue cfg = Spot then 5000 else 1000) new_DepthEvent [] [] = (ok, snap, serr, raw)"
    by (metis prod_cases4)
  show ?thesis
  proof (cases ok)
    case False
    then show ?thesis using assms(1,2) f by (auto simp: resync_def)
  next
    case True
    obtain sess applied calls where o': "on_snapshot (ss_sess st) (ev_bids snap) (ev_asks snap) (ev_lastUpdateId snap) =
        (sess, applied, calls)"
      by (metis prod_cases3)
    obtain n rows m1 where e: "foldl emit_replayed (ss_seq st, ss_rows st, m) calls = (n, rows, m1)"
      by (metis prod_cases3)
    have "st' = st\<lparr>ss_sess := sess, ss_seq := n, ss_rows := rows\<rparr>"
      using assms(2) f True o' e by (auto simp: resync_def Let_def)
    then show ?thesis
      using on_snapshot_follows [OF _ _ snap o'] emit_replayed_follows [OF e] assms(1) f True
      by (auto simp: sym_follows_def)
  qed
qed

lemma handle_diff_follows:
  assumes fol: "sym_follows v P B st" and h: "handle_kind cfg env DepthDiff ts symbol st m snaps = (st', m', snaps')"
    and ev: "faithful_event v P B (ss_scratch st)"
    and snap: "\<And>snap serr raw. fetch_depth_snapshot (env_http env) (cfg_venue cfg) symbol
      (if cfg_venue cfg = Spot then 5000 else 1000) new_DepthEvent [] [] = (True, snap, serr, raw) \<Longrightarrow>
      faithful_snapshot P B (ev_bids snap) (ev_asks snap) (ev_lastUpdateId snap)"
  shows "sym_follows v P B st'"
proof -
  obtain sess o' where d: "on_diff (ss_sess st) (ss_scratch st) = (sess, o')"
    by (metis surj_pair)
  have fol1: "sym_follows v P B (st\<lparr>ss_sess := sess\<rparr>)"
    using exchange_inv_step [of v P B "ss_sess st" "SDiff (ss_scratch st)"] session_inv_on_diff [of "ss_sess st" "ss_scratch st"]
      fol ev d by (simp add: sym_follows_def)
  show ?thesis
  proof (cases rule: diff_cases [where o' = o' and sess = sess])
    case app
    then show ?thesis
      using h d sym_follows_emit [OF fol1] by (auto simp: handle_kind_def Let_def split: prod.splits) (metis fst_conv)
  next
    case sync
    then obtain m1 where "resync cfg env (st\<lparr>ss_sess := sess\<rparr>) symbol m1 snaps = (st', m', snaps')"
      using h d by (simp add: handle_kind_def Let_def)
    from resync_follows [OF fol1 this snap] show ?thesis .
  next
    case quiet
    then show ?thesis
      using h d fol1 by (auto simp: handle_kind_def Let_def split: if_splits)
  qed
qed

lemma handle_kind_follows:
  assumes fol: "sym_follows v P B st" and h: "handle_kind cfg env kind ts symbol st m snaps = (st', m', snaps')"
    and ev: "kind = DepthDiff \<Longrightarrow> faithful_event v P B (ss_scratch st)"
    and snap: "\<And>snap serr raw. kind = DepthDiff \<Longrightarrow> fetch_depth_snapshot (env_http env) (cfg_venue cfg) symbol
      (if cfg_venue cfg = Spot then 5000 else 1000) new_DepthEvent [] [] = (True, snap, serr, raw) \<Longrightarrow>
      faithful_snapshot P B (ev_bids snap) (ev_asks snap) (ev_lastUpdateId snap)"
  shows "sym_follows v P B st'"
proof (cases kind)
  case DepthDiff
  show ?thesis
    by (rule handle_diff_follows [OF fol h [unfolded DepthDiff] ev [OF DepthDiff] snap [OF DepthDiff]])
next
  case Depth5
  have "row_follows P B (depth5_row ts n i x)" for n i x
    by (simp add: row_follows_def depth5_row_eq show_levels_def labelled_def)
  then show ?thesis
    using h Depth5 fol by (auto simp: handle_kind_def Let_def sym_follows_def)
next
  case Trade
  then show ?thesis
    using h fol sym_follows_emit [OF fol]
    by (auto simp: handle_kind_def Let_def split: if_splits prod.splits) (metis fst_conv)
qed

section \<open>The invariant of a shard\<close>

definition shard_follows :: "Config \<Rightarrow> (string \<Rightarrow> i64 set) \<Rightarrow> (string \<Rightarrow> exchange) \<Rightarrow> Shard \<Rightarrow> bool" where
  "shard_follows cfg P X sh \<longleftrightarrow> list_all (\<lambda>(s, st). sym_follows (cfg_venue cfg) (P s) (X s) st) (sh_syms sh)"

lemma shard_follows_update:
  assumes "shard_follows cfg P X sh" "sym_follows (cfg_venue cfg) (P s) (X s) st"
    and "sh_syms sh' = AList.update s st (sh_syms sh)"
  shows "shard_follows cfg P X sh'"
proof -
  have "list_all Q (AList.update s st syms)" if "list_all Q syms" "Q (s, st)" for Q syms
    using that by (induction syms) auto
  with assms show ?thesis by (simp add: shard_follows_def)
qed

lemma shard_follows_handler:
  assumes fol: "shard_follows cfg P X sh" and good: "faithful_delivery cfg P X (env, frame, e, q)"
  shows "shard_follows cfg P X (handler cfg shard_id env sh frame e q)"
proof -
  obtain ok stream data where sp: "split_envelope frame [] [] = (ok, stream, data)"
    by (metis prod_cases3)
  let ?s = "stream_symbol stream" and ?kind = "classify_stream stream"
  obtain ts parsed failed where st: "stamp_message cfg (env_now env) ?kind (map_of (sh_syms sh) ?s) data = (ts, parsed, failed)"
    by (metis prod_cases3)
  consider "\<not> ok" | "ok" "map_of (sh_syms sh) ?s = None" | st0 where "ok" "map_of (sh_syms sh) ?s = Some st0"
    by (cases "map_of (sh_syms sh) ?s") auto
  then show ?thesis
  proof cases
    case 1
    then show ?thesis using fol by (simp add: handler_def sp shard_follows_def)
  next
    case 2
    then show ?thesis
      using fol sp handler_unknown(2) [of frame stream data sh cfg shard_id env e q] by (simp add: shard_follows_def)
  next
    case (3 st0)
    define st1 where "st1 = (case parsed of None \<Rightarrow> st0 | Some ev \<Rightarrow> st0\<lparr>ss_scratch := ev\<rparr>)"
    have "sym_follows (cfg_venue cfg) (P ?s) (X ?s) st0"
      using fol map_of_SomeD [OF 3(2)] by (auto simp: shard_follows_def list_all_iff)
    then have f1: "sym_follows (cfg_venue cfg) (P ?s) (X ?s) st1"
      by (simp add: st1_def sym_follows_scratch split: option.split)
    show ?thesis
    proof (cases failed)
      case True
      then show ?thesis
        using 3 st by (intro shard_follows_update [OF fol f1]) (simp add: handler_def sp Let_def st1_def)
    next
      case False
      obtain m1 m2 st2 snaps where h: "handle_kind cfg env ?kind ts ?s (check_epoch st1 e) m1 (sh_snaps sh) = (st2, m2, snaps)"
        and upd: "sh_syms (handler cfg shard_id env sh frame e q) = AList.update ?s st2 (sh_syms sh)"
        using handler_known [OF _ 3(2) _ st1_def, of frame data cfg env ts e shard_id q] sp st 3 False by auto
      have ev: "faithful_event (cfg_venue cfg) (P ?s) (X ?s) (ss_scratch (check_epoch st1 e))" if k: "?kind = DepthDiff"
      proof -
        obtain ev where p: "parse_depth data new_DepthEvent = (True, ev)"
          using st 3(2) k False by (cases "parse_depth data new_DepthEvent")
            (auto simp: stamp_message_def reset_depth_event_fresh Let_def split: if_splits)
        then have "ss_scratch st1 = ev\<lparr>ev_applied_time := ts\<rparr>"
          using st 3(2) k by (auto simp: stamp_message_def reset_depth_event_fresh Let_def st1_def)
        moreover have "faithful_event (cfg_venue cfg) (P ?s) (X ?s) ev"
          using good sp 3(1) k p by (simp add: faithful_delivery_def Let_def)
        ultimately show ?thesis
          by (simp add: check_epoch_def faithful_event_time)
      qed
      have snap: "faithful_snapshot (P ?s) (X ?s) (ev_bids snap) (ev_asks snap) (ev_lastUpdateId snap)"
        if "?kind = DepthDiff" "fetch_depth_snapshot (env_http env) (cfg_venue cfg) ?s
          (if cfg_venue cfg = Spot then 5000 else 1000) new_DepthEvent [] [] = (True, snap, serr, raw)" for snap serr raw
        using good sp 3(1) that by (simp add: faithful_delivery_def Let_def)
      show ?thesis
        by (rule shard_follows_update [OF fol handle_kind_follows [OF sym_follows_epoch [OF f1] h ev snap] upd])
    qed
  qed
qed

lemma shard_follows_run:
  "list_all (faithful_delivery cfg P X) ds \<Longrightarrow> shard_follows cfg P X sh \<Longrightarrow>
   shard_follows cfg P X (foldl (deliver cfg shard_id) sh ds)"
proof (induction ds arbitrary: sh)
  case (Cons d ds)
  obtain env frame e q where "d = (env, frame, e, q)" by (metis prod_cases4)
  with Cons shard_follows_handler [of cfg P X sh env frame e q shard_id] show ?case by simp
qed simp

lemma shard_follows_new: "shard_follows cfg P X (new_Shard cfg syms m)"
  by (auto simp: shard_follows_def new_Shard_def list_all_iff sym_follows_new)

text \<open>
  C4: The order-book files show the exchange's book.  Let the diffs and snapshots that a shard receives
  for a symbol report, on a set of prices, what the exchange documents.  Then, whatever is lost,
  duplicated, reordered or interleaved with other symbols, and through all reconnects, gaps and
  resynchronisations, every row of types \<open>D\<close> and \<open>T\<close> in the symbol's order-book file shows, on these
  prices, the best bids and asks of the exchange's own book at one of its update ids: best first,
  with the exchange's quantities, and a level that is not shown is worse than five that are.
\<close>

theorem live_rows_follow_exchange:
  assumes "list_all (faithful_delivery cfg P X) ds"
  shows "list_all (\<lambda>(s, st). list_all (row_follows (P s) (X s)) (ss_rows st))
    (sh_syms (foldl (deliver cfg shard_id) (new_Shard cfg (dedup syms) new_Metrics) ds))"
  using shard_follows_run [OF assms shard_follows_new, of shard_id "dedup syms" new_Metrics]
  by (auto simp: shard_follows_def sym_follows_def list_all_iff)

text \<open>
  The sample capture of \<open>Replay_Live\<close>, from an exchange that has one bid at 1.5 and, from update id 5
  on, another at 1.25.
\<close>

definition sample_exchange :: "string \<Rightarrow> exchange" where
  "sample_exchange s k = ((\<lambda>p. if p = 150000000 then Some 200000000 else if p = 125000000 \<and> 5 \<le> k then Some 300000000 else None),
     Map.empty)"

lemma sample_parsed:
  "parse_depth (render_message sample_snapshot) new_DepthEvent =
     (True, new_DepthEvent\<lparr>ev_lastUpdateId := 4, ev_bids := [\<lparr>price = 150000000, qty = 200000000\<rparr>]\<rparr>)"
  "parse_depth (render_message (sample_diff ''4'' ''5'')) new_DepthEvent =
     (True, new_DepthEvent\<lparr>ev_U := 4, ev_u := 5, ev_bids := [\<lparr>price = 125000000, qty = 300000000\<rparr>]\<rparr>)"
  "parse_depth (render_message (sample_diff ''6'' ''7'')) new_DepthEvent =
     (True, new_DepthEvent\<lparr>ev_U := 6, ev_u := 7, ev_bids := [\<lparr>price = 125000000, qty = 300000000\<rparr>]\<rparr>)"
proof -
  have wf: "list_all wf_field sample_snapshot" "list_all wf_field (sample_diff ''4'' ''5'')" "list_all wf_field (sample_diff ''6'' ''7'')"
    by code_simp+
  show "parse_depth (render_message sample_snapshot) new_DepthEvent =
     (True, new_DepthEvent\<lparr>ev_lastUpdateId := 4, ev_bids := [\<lparr>price = 150000000, qty = 200000000\<rparr>]\<rparr>)"
    by (rule trans [OF parse_depth_render [OF wf(1)]]) code_simp
  show "parse_depth (render_message (sample_diff ''4'' ''5'')) new_DepthEvent =
     (True, new_DepthEvent\<lparr>ev_U := 4, ev_u := 5, ev_bids := [\<lparr>price = 125000000, qty = 300000000\<rparr>]\<rparr>)"
    by (rule trans [OF parse_depth_render [OF wf(2)]]) code_simp
  show "parse_depth (render_message (sample_diff ''6'' ''7'')) new_DepthEvent =
     (True, new_DepthEvent\<lparr>ev_U := 6, ev_u := 7, ev_bids := [\<lparr>price = 125000000, qty = 300000000\<rparr>]\<rparr>)"
    by (rule trans [OF parse_depth_render [OF wf(3)]]) code_simp
qed

lemma sample_fetch: "fetch_depth_snapshot (env_http answering_env) v s n new_DepthEvent [] [] =
      (True, new_DepthEvent\<lparr>ev_lastUpdateId := 4, ev_bids := [\<lparr>price = 150000000, qty = 200000000\<rparr>]\<rparr>, [], render_message sample_snapshot)"
  by (simp add: answering_env_def fetch_answered sample_parsed(1))

lemma sample_faithful: "list_all (faithful_delivery new_Config (\<lambda>_. UNIV) sample_exchange) Replay_Live.sample_run"
proof -
  have snap: "faithful_snapshot UNIV (sample_exchange s) [\<lparr>price = 150000000, qty = 200000000\<rparr>] [] 4" for s
    by (auto simp: faithful_snapshot_def agree_on_def snapshot_map_def sample_exchange_def)
  have diff: "faithful_event Spot UNIV (sample_exchange s)
      (new_DepthEvent\<lparr>ev_U := U, ev_u := u, ev_bids := [\<lparr>price = 125000000, qty = 300000000\<rparr>]\<rparr>)" if "5 \<le> u" for s U u
    using that by (auto simp: faithful_event_def reports_def sample_exchange_def new_DepthEvent_def)
  have spot: "cfg_venue new_Config = Spot" by (simp add: new_Config_def)
  have plain: "no_quote ''BTC''" "CHR ''@'' \<notin> set ''BTC''" "map toupper ''BTC'' = ''BTC''" "no_quote ''ETH''"
      "CHR ''@'' \<notin> set ''ETH''" "map toupper ''ETH'' = ''ETH''"
    by code_simp+
  have obj: "object_text (render_message (sample_diff ''4'' ''5''))" "object_text (render_message (sample_diff ''6'' ''7''))" "object_text ''{}''"
    unfolding object_text_def by code_simp+
  let ?ev = "\<lambda>U u. new_DepthEvent\<lparr>ev_U := U, ev_u := u, ev_bids := [\<lparr>price = 125000000, qty = 300000000\<rparr>]\<rparr>"
  have asks: "ev_asks new_DepthEvent = []" by (simp add: new_DepthEvent_def)
  have depth: "faithful_delivery new_Config (\<lambda>_. UNIV) sample_exchange
      (answering_env, frame_of (stream_name s DepthDiff) data, e, q)"
    if "no_quote s" "CHR ''@'' \<notin> set s" "map toupper s = s" "object_text data"
      and "parse_depth data new_DepthEvent = (True, ?ev U u)" "5 \<le> u" for s data e q U u
    using that snap [of s] diff [OF that(6), of s U]
    by (simp add: faithful_delivery_def split_stream_frame stream_name_parts sample_fetch spot asks Let_def)
  have trade: "faithful_delivery new_Config (\<lambda>_. UNIV) sample_exchange
      (answering_env, frame_of (stream_name s Trade) data, e, q)"
    if "no_quote s" "CHR ''@'' \<notin> set s" "map toupper s = s" "object_text data" for s data e q
    using that by (simp add: faithful_delivery_def split_stream_frame stream_name_parts Let_def)
  show ?thesis
    unfolding Replay_Live.sample_run_def list.pred_inject
    by (simp add: depth [OF plain(1-3) obj(1) sample_parsed(2)] depth [OF plain(1-3) obj(2) sample_parsed(3)]
      trade [OF plain(4-6) obj(3)])
qed

text \<open>The first message of the capture is buffered, a snapshot is fetched, and the replay of the buffer gives a row.\<close>

definition sample_event :: DepthEvent where
  "sample_event = new_DepthEvent\<lparr>ev_U := 4, ev_u := 5, ev_bids := [\<lparr>price = 125000000, qty = 300000000\<rparr>], ev_applied_time := zero_ts\<rparr>"

definition sample_session :: "i32 \<Rightarrow> BookSession" where
  "sample_session i = (new_BookSession i Spot)\<lparr>bs_buffer := [sample_event]\<rparr>"

lemma sample_replay:
  "length (snd (replay (seeded (sample_session i) [\<lparr>price = 150000000, qty = 200000000\<rparr>] [] 4) [sample_event])) = 1"
  "row_bid (book_row t n c (snd (hd (snd (replay (seeded (sample_session i) [\<lparr>price = 150000000, qty = 200000000\<rparr>] [] 4) [sample_event]))))) =
    [150000000, 125000000, 0, 0, 0]"
  by code_simp+

lemma sample_stamp: "stamp_message new_Config zero_ts DepthDiff (Some (new_SymState Spot ''BTC'')) (render_message (sample_diff ''4'' ''5'')) =
   (zero_ts, Some sample_event, False)"
  by (simp add: stamp_message_def reset_depth_event_fresh sample_parsed(2) new_Config_def sample_event_def Let_def)

lemma sample_buffered: "on_diff (ss_sess (check_epoch ((new_SymState Spot ''BTC'')\<lparr>ss_scratch := sample_event\<rparr>) 0)) sample_event =
  (sample_session (derive_id ''BTC''), OutBuffered)"
  by (simp add: check_epoch_def new_SymState_def UINT64_MAX_def on_diff_def buffer_event_def kMaxBuffer_def new_BookSession_def sample_session_def Let_def)

lemma sample_handled:
  assumes h: "handle_kind new_Config answering_env DepthDiff zero_ts ''BTC'' (check_epoch ((new_SymState Spot ''BTC'')\<lparr>ss_scratch := sample_event\<rparr>) 0) m snaps = (st, m', snaps')"
  shows "map row_bid (ss_rows st) = [[150000000, 125000000, 0, 0, 0]]"
proof -
  have asks: "ev_asks new_DepthEvent = []" by (simp add: new_DepthEvent_def)
  have sc: "ss_scratch (check_epoch ((new_SymState Spot ''BTC'')\<lparr>ss_scratch := sample_event\<rparr>) 0) = sample_event"
      "ss_rows (check_epoch ((new_SymState Spot ''BTC'')\<lparr>ss_scratch := sample_event\<rparr>) 0) = []"
      "ss_seq (check_epoch ((new_SymState Spot ''BTC'')\<lparr>ss_scratch := sample_event\<rparr>) 0) = 0"
    by (simp_all add: check_epoch_def new_SymState_def)
  have pend: "bs_resync_pending (sample_session i)" "bs_buffer (sample_session i) = [sample_event]" for i by (simp_all add: sample_session_def new_BookSession_def)
  obtain sess k calls where o': "on_snapshot (sample_session (derive_id ''BTC'')) [\<lparr>price = 150000000, qty = 200000000\<rparr>] [] 4 = (sess, k, calls)"
    by (metis prod_cases3)
  then obtain ev ob where calls: "calls = [(ev, ob)]" "\<And>t n c. row_bid (book_row t n c ob) = [150000000, 125000000, 0, 0, 0]"
    using sample_replay [where i = "derive_id ''BTC''"] by (auto simp: on_snapshot_eq pend split_beta Let_def length_Suc_conv)
  show ?thesis
    using h by (auto simp: handle_kind_def sc sample_buffered pend resync_def sample_fetch asks o' calls Let_def)
qed

lemma sample_first_row:
  "map (\<lambda>(s, st). map row_bid (ss_rows st))
    (sh_syms (foldl (deliver new_Config 0) (new_Shard new_Config (dedup [''BTC'']) new_Metrics) (take 1 Replay_Live.sample_run))) =
   [[[150000000, 125000000, 0, 0, 0]]]"
proof -
  let ?sh = "new_Shard new_Config (dedup [''BTC'']) new_Metrics" and ?st = "new_SymState Spot ''BTC''"
    and ?frame = "frame_of (stream_name ''BTC'' DepthDiff) (render_message (sample_diff ''4'' ''5''))"
  have plain: "no_quote ''BTC''" "CHR ''@'' \<notin> set ''BTC''" "map toupper ''BTC'' = ''BTC''"
      "object_text (render_message (sample_diff ''4'' ''5''))"
    unfolding object_text_def by code_simp+
  have syms: "sh_syms ?sh = [(''BTC'', ?st)]" by (simp add: new_Shard_def dedup_def new_Config_def)
  have now: "env_now answering_env = zero_ts" by (simp add: answering_env_def)
  have sp: "split_envelope ?frame [] [] = (True, stream_name ''BTC'' DepthDiff, render_message (sample_diff ''4'' ''5''))"
    using plain by (simp add: split_stream_frame)
  have name: "stream_symbol (stream_name ''BTC'' DepthDiff) = ''BTC''" "classify_stream (stream_name ''BTC'' DepthDiff) = DepthDiff"
    using plain by (simp_all add: stream_name_parts)
  obtain m1 m2 st2 snaps where h: "handle_kind new_Config answering_env DepthDiff zero_ts ''BTC''
      (check_epoch (?st\<lparr>ss_scratch := sample_event\<rparr>) 0) m1 (sh_snaps ?sh) = (st2, m2, snaps)"
    and upd: "sh_syms (handler new_Config 0 answering_env ?sh ?frame 0 1) = AList.update ''BTC'' st2 (sh_syms ?sh)"
    using handler_known [OF sp, of ?sh ?st new_Config answering_env zero_ts "Some sample_event" "?st\<lparr>ss_scratch := sample_event\<rparr>" 0 0 1]
    by (auto simp: name syms now sample_stamp)
  show ?thesis
    using sample_handled [OF h] upd by (simp add: Replay_Live.sample_run_def syms)
qed

theorem live_rows_follow_exchange_witness:
  "let sh = foldl (deliver new_Config 0) (new_Shard new_Config (dedup [''BTC'']) new_Metrics) (take 1 Replay_Live.sample_run)
   in list_all (\<lambda>(s, st). list_all (row_follows UNIV (sample_exchange s)) (ss_rows st)) (sh_syms sh) \<and>
      map (\<lambda>(s, st). map row_bid (ss_rows st)) (sh_syms sh) = [[[150000000, 125000000, 0, 0, 0]]]"
proof -
  have "list_all (faithful_delivery new_Config (\<lambda>_. UNIV) sample_exchange) (take 1 Replay_Live.sample_run)"
    using sample_faithful by (auto simp: list_all_iff dest: in_set_takeD)
  from live_rows_follow_exchange [OF this, of 0 "[''BTC'']"] sample_first_row show ?thesis
    by (simp add: Let_def)
qed

end
