(* ===== verification/Json_Simd.thy ===== *)
theory Json_Simd
  imports Json_Min
begin

text \<open>
  The depth parser of a build with \<open>USE_SIMDJSON\<close> (\<open>src/json_min.cpp\<close>, the first branch of the
  conditional): \<open>simd_load_levels\<close> and its \<open>parse_depth\<close>, called \<open>parse_depth_simd\<close> here since the
  built-in parser of \<open>Json_Min\<close> has the same name in the code.

  The library is the parameter \<open>lib\<close>, the five accessors the code calls on a parsed document.  A
  \<open>simdjson_result\<close> is an option, \<open>None\<close> for every error code.  What the code relies on is
  \<open>dom_view\<close>: the accessors show the JSON value that the text denotes.
\<close>

section \<open>The document interface\<close>

record 'e Dom =
  dom_parse :: "string \<Rightarrow> 'e option"
  dom_key :: "'e \<Rightarrow> string \<Rightarrow> 'e option"
  dom_int64 :: "'e \<Rightarrow> int option"
  dom_array :: "'e \<Rightarrow> 'e list option"
  dom_string :: "'e \<Rightarrow> string option"

text \<open>The chained calls \<open>doc[k].get_int64()\<close>, \<open>doc[k].get_array()\<close> and \<open>pq.at(i).get_string()\<close>: an
  error of the first call is the error of the chain.\<close>

definition key_int64 :: "'e Dom \<Rightarrow> 'e \<Rightarrow> string \<Rightarrow> int option" where
  "key_int64 lib doc k = Option.bind (dom_key lib doc k) (dom_int64 lib)"

definition key_array :: "'e Dom \<Rightarrow> 'e \<Rightarrow> string \<Rightarrow> 'e list option" where
  "key_array lib doc k = Option.bind (dom_key lib doc k) (dom_array lib)"

definition at_string :: "'e Dom \<Rightarrow> 'e list \<Rightarrow> nat \<Rightarrow> string option" where
  "at_string lib pq i = (if i < length pq then dom_string lib (pq ! i) else None)"

section \<open>The parser\<close>

text \<open>One round of the loop over the levels; the first three branches are its \<open>continue\<close>s.\<close>

definition simd_level :: "'e Dom \<Rightarrow> Level list \<times> bool \<Rightarrow> 'e \<Rightarrow> Level list \<times> bool" where
  "simd_level lib st lvl =
     (case dom_array lib lvl of
        None \<Rightarrow> st
      | Some pq \<Rightarrow>
          (case at_string lib pq 0 of
             None \<Rightarrow> st
           | Some ps \<Rightarrow>
               (case at_string lib pq 1 of
                  None \<Rightarrow> st
                | Some qs \<Rightarrow>
                    (case (parse_scaled ps (int kPriceScalePow), parse_scaled qs (int kQtyScalePow)) of
                       (Some pr, Some q) \<Rightarrow> (fst st @ [\<lparr>price = pr, qty = q\<rparr>], snd st)
                     | _ \<Rightarrow> (fst st, False)))))"

definition simd_load_levels ::
  "'e Dom \<Rightarrow> 'e \<Rightarrow> string \<Rightarrow> string \<Rightarrow> Level list \<Rightarrow> bool \<Rightarrow> Level list \<times> bool" where
  "simd_load_levels lib doc k_diff k_snap dst ok =
     (case key_array lib doc k_diff of
        Some arr \<Rightarrow> foldl (simd_level lib) (dst, ok) arr
      | None \<Rightarrow>
          (case key_array lib doc k_snap of
             Some arr \<Rightarrow> foldl (simd_level lib) (dst, ok) arr
           | None \<Rightarrow> (dst, ok)))"

text \<open>The assignments of the number fields, one after another as in the code.\<close>

definition simd_numbers :: "'e Dom \<Rightarrow> 'e \<Rightarrow> DepthEvent \<Rightarrow> DepthEvent" where
  "simd_numbers lib doc out0 =
     (let out1 = (case key_int64 lib doc ''E'' of Some v \<Rightarrow> out0\<lparr>ev_event_time_ms := v\<rparr> | None \<Rightarrow> out0);
          out2 = (if ev_event_time_ms out1 = 0 then
                    (case key_int64 lib doc ''T'' of Some v \<Rightarrow> out1\<lparr>ev_event_time_ms := v\<rparr> | None \<Rightarrow> out1)
                  else out1);
          out3 = (case key_int64 lib doc ''U'' of Some v \<Rightarrow> out2\<lparr>ev_U := of_int v\<rparr> | None \<Rightarrow> out2);
          out4 = (case key_int64 lib doc ''u'' of Some v \<Rightarrow> out3\<lparr>ev_u := of_int v\<rparr> | None \<Rightarrow> out3);
          out5 = (case key_int64 lib doc ''pu'' of
                    Some v \<Rightarrow> out4\<lparr>ev_pu := of_int v, ev_has_pu := True\<rparr> | None \<Rightarrow> out4)
      in case key_int64 lib doc ''lastUpdateId'' of
           Some v \<Rightarrow> out5\<lparr>ev_lastUpdateId := of_int v\<rparr> | None \<Rightarrow> out5)"

definition parse_depth_simd :: "'e Dom \<Rightarrow> string \<Rightarrow> DepthEvent \<Rightarrow> bool \<times> DepthEvent" where
  "parse_depth_simd lib data out0 =
     (case dom_parse lib data of
        None \<Rightarrow> (False, out0)
      | Some doc \<Rightarrow>
          (let out1 = simd_numbers lib doc out0 in
           case simd_load_levels lib doc ''b'' ''bids'' (ev_bids out1) True of
             (bids, ok1) \<Rightarrow>
               (case simd_load_levels lib doc ''a'' ''asks'' (ev_asks out1) ok1 of
                  (asks, ok) \<Rightarrow>
                    (let ev = out1\<lparr>ev_bids := bids, ev_asks := asks\<rparr> in
                     if \<not> ok then (False, ev)
                     else (ev_u ev \<noteq> 0 \<or> ev_lastUpdateId ev \<noteq> 0 \<or> ev_bids ev \<noteq> [] \<or> ev_asks ev \<noteq> [], ev)))))"

section \<open>What the library promises\<close>

datatype Json = JNum int | JStr string | JArr "Json list" | JObj "(string \<times> Json) list"

text \<open>
  The accessors show a JSON value: an integer through \<open>get_int64\<close> when it fits, a string, the
  elements of an array in order, and the value of the first member with a key; every other
  accessor reports an error.
\<close>

inductive dom_view :: "'e Dom \<Rightarrow> 'e \<Rightarrow> Json \<Rightarrow> bool" for lib :: "'e Dom" where
  view_num: "dom_view lib e (JNum n)"
    if "dom_int64 lib e = (if in_i64 n then Some n else None)" "dom_array lib e = None" "dom_string lib e = None"
| view_str: "dom_view lib e (JStr t)"
    if "dom_int64 lib e = None" "dom_array lib e = None" "dom_string lib e = Some t"
| view_arr: "dom_view lib e (JArr js)"
    if "dom_int64 lib e = None" "dom_string lib e = None" "dom_array lib e = Some es" "list_all2 (dom_view lib) es js"
| view_obj: "dom_view lib e (JObj ms)"
    if "dom_int64 lib e = None" "dom_array lib e = None" "dom_string lib e = None"
      "\<forall>k. rel_option (dom_view lib) (dom_key lib e k) (map_of ms k)"
monos list_all2_mono option.rel_mono_strong

inductive_simps dom_view_simps: "dom_view lib e (JNum n)" "dom_view lib e (JStr t)"
  "dom_view lib e (JArr js)" "dom_view lib e (JObj ms)"

text \<open>The value a depth message denotes.\<close>

fun json_of_value :: "Value \<Rightarrow> Json" where
  "json_of_value (Num ds) = JNum (digits_val ds)"
| "json_of_value (Text t) = JStr t"
| "json_of_value (Levels ls) = JArr (map (\<lambda>l. JArr [JStr (fst l), JStr (snd l)]) ls)"

definition json_of_fields :: "Field list \<Rightarrow> Json" where
  "json_of_fields fs = JObj (map (map_prod id json_of_value) fs)"

definition dom_reads :: "'e Dom \<Rightarrow> string \<Rightarrow> Json \<Rightarrow> bool" where
  "dom_reads lib data j \<longleftrightarrow> (\<exists>doc. dom_parse lib data = Some doc \<and> dom_view lib doc j)"

section \<open>Messages by their keys\<close>

text \<open>
  The meaning of a message with distinct keys, independent of the order of its fields: the book
  sides under their short or long key, the event time from \<open>E\<close> or else \<open>T\<close>.
\<close>

definition number_or :: "Value option \<Rightarrow> u64 \<Rightarrow> u64" where
  "number_or v d = (case v of Some x \<Rightarrow> number_of x | None \<Rightarrow> d)"

definition side_of :: "(string \<rightharpoonup> Value) \<Rightarrow> string \<Rightarrow> string \<Rightarrow> (string \<times> string) list" where
  "side_of m k_diff k_snap =
     (case m k_diff of Some v \<Rightarrow> levels_of v
      | None \<Rightarrow> (case m k_snap of Some v \<Rightarrow> levels_of v | None \<Rightarrow> []))"

definition time_or :: "Value option \<Rightarrow> i64 \<Rightarrow> i64" where
  "time_or v d = (case v of Some x \<Rightarrow> sint (number_of x) | None \<Rightarrow> d)"

definition message_time :: "(string \<rightharpoonup> Value) \<Rightarrow> i64 \<Rightarrow> i64" where
  "message_time m t =
     (if time_or (m ''E'') t = 0 then time_or (m ''T'') (time_or (m ''E'') t) else time_or (m ''E'') t)"

definition message_effect :: "DepthEvent \<Rightarrow> (string \<rightharpoonup> Value) \<Rightarrow> DepthEvent \<times> bool" where
  "message_effect ev m =
     (\<lparr>ev_U = number_or (m ''U'') (ev_U ev), ev_u = number_or (m ''u'') (ev_u ev),
       ev_pu = number_or (m ''pu'') (ev_pu ev), ev_has_pu = (ev_has_pu ev \<or> m ''pu'' \<noteq> None),
       ev_lastUpdateId = number_or (m ''lastUpdateId'') (ev_lastUpdateId ev),
       ev_event_time_ms = message_time m (ev_event_time_ms ev), ev_applied_time = ev_applied_time ev,
       ev_bids = ev_bids ev @ good_levels (side_of m ''b'' ''bids''),
       ev_asks = ev_asks ev @ good_levels (side_of m ''a'' ''asks'')\<rparr>,
      all_scaled (side_of m ''b'' ''bids'') \<and> all_scaled (side_of m ''a'' ''asks''))"

text \<open>
  The shape of the exchange's depth messages: distinct keys, numbers of 63 bits under the number
  keys, a level list under at most one key of each side, and an event time other than 0.
\<close>

fun int64_value :: "Value \<Rightarrow> bool" where
  "int64_value (Num ds) \<longleftrightarrow> digits_val ds \<le> INT64_MAX"
| "int64_value _ \<longleftrightarrow> False"

fun levels_value :: "Value \<Rightarrow> bool" where
  "levels_value (Levels ls) \<longleftrightarrow> True"
| "levels_value _ \<longleftrightarrow> False"

definition depth_field_shape :: "Field \<Rightarrow> bool" where
  "depth_field_shape f \<longleftrightarrow> wf_field f \<and>
     (fst f \<in> {''E'', ''T'', ''U'', ''u'', ''pu'', ''lastUpdateId''} \<longrightarrow> int64_value (snd f)) \<and>
     (fst f \<in> {''b'', ''bids'', ''a'', ''asks''} \<longrightarrow> levels_value (snd f)) \<and>
     (fst f = ''E'' \<longrightarrow> number_of (snd f) \<noteq> 0)"

definition depth_shape :: "Field list \<Rightarrow> bool" where
  "depth_shape fs \<longleftrightarrow> list_all depth_field_shape fs \<and> distinct (map fst fs) \<and>
     \<not> {''b'', ''bids''} \<subseteq> fst ` set fs \<and> \<not> {''a'', ''asks''} \<subseteq> fst ` set fs"

lemma depth_shape_snoc:
  "depth_shape (fs @ [(k, v)]) \<Longrightarrow>
   depth_shape fs \<and> depth_field_shape (k, v) \<and> map_of fs k = None \<and>
   (k = ''b'' \<longrightarrow> map_of fs ''bids'' = None) \<and> (k = ''bids'' \<longrightarrow> map_of fs ''b'' = None) \<and>
   (k = ''a'' \<longrightarrow> map_of fs ''asks'' = None) \<and> (k = ''asks'' \<longrightarrow> map_of fs ''a'' = None)"
  by (auto simp: depth_shape_def map_of_eq_None_iff)

lemma number_sint_zero: "sint (number_of v) = 0 \<longleftrightarrow> number_of v = 0"
  by (metis signed_0 signed_word_eqI)

lemma side_of_upd: "k \<noteq> k1 \<Longrightarrow> k \<noteq> k2 \<Longrightarrow> side_of (m(k \<mapsto> v)) k1 k2 = side_of m k1 k2"
  by (simp add: side_of_def cong: option.case_cong)

lemma side_of_new:
  "m k1 = None \<Longrightarrow> m k2 = None \<Longrightarrow> side_of m k1 k2 = [] \<and>
   side_of (m(k1 \<mapsto> v)) k1 k2 = levels_of v \<and> side_of (m(k2 \<mapsto> v)) k1 k2 = levels_of v"
  by (simp add: side_of_def)

lemma message_time_upd:
  "k \<noteq> ''E'' \<Longrightarrow> k \<noteq> ''T'' \<Longrightarrow> message_time (m(k \<mapsto> v)) t = message_time m t"
  by (simp add: message_time_def)

lemma message_time_E: "number_of v \<noteq> 0 \<Longrightarrow> message_time (m(''E'' \<mapsto> v)) t = sint (number_of v)"
  by (simp add: message_time_def time_or_def number_sint_zero)

lemma message_time_T:
  "m ''T'' = None \<Longrightarrow> message_time (m(''T'' \<mapsto> v)) t =
   (if message_time m t = 0 then sint (number_of v) else message_time m t)"
  by (simp add: message_time_def time_or_def)

lemma no_levels: "good_levels [] = []" "all_scaled []"
  by (simp_all add: List.map_filter_def all_scaled_def)

lemmas effect_simps = message_effect_def side_of_upd side_of_new message_time_upd message_time_E
  message_time_T no_levels

lemma message_effect_field:
  assumes "m k = None" "k = ''E'' \<Longrightarrow> number_of v \<noteq> 0"
    and "k = ''b'' \<Longrightarrow> m ''bids'' = None" "k = ''bids'' \<Longrightarrow> m ''b'' = None"
    and "k = ''a'' \<Longrightarrow> m ''asks'' = None" "k = ''asks'' \<Longrightarrow> m ''a'' = None"
  shows "field_effect (message_effect ev m) (k, v) = message_effect ev (m(k \<mapsto> v))"
proof -
  consider "k = ''E''" | "k = ''T''" | "k \<in> {''U'', ''u'', ''pu'', ''lastUpdateId''}"
    | "k = ''b'' \<or> k = ''bids''" | "k = ''a'' \<or> k = ''asks''"
    | "k \<notin> {''E'', ''T'', ''U'', ''u'', ''pu'', ''lastUpdateId'', ''b'', ''bids'', ''a'', ''asks''}"
    unfolding insert_iff empty_iff by argo
  then show ?thesis
  proof cases
    case 1
    with assms(2) show ?thesis by (simp add: effect_simps)
  next
    case 2
    with assms(1) show ?thesis by (simp add: effect_simps)
  next
    case 3
    then show ?thesis by (auto simp: effect_simps number_or_def)
  next
    case 4
    with assms(1,3,4) have "m ''b'' = None" "m ''bids'' = None" by auto
    with 4 show ?thesis by (auto simp: effect_simps)
  next
    case 5
    with assms(1,5,6) have "m ''a'' = None" "m ''asks'' = None" by auto
    with 5 show ?thesis by (auto simp: effect_simps)
  next
    case 6
    then have "(m(k \<mapsto> v)) x = m x" if "x \<in> {''U'', ''u'', ''pu'', ''lastUpdateId''}" for x
      using that by auto
    with 6 show ?thesis by (simp add: effect_simps del: fun_upd_apply)
  qed
qed

lemma message_effect_fields:
  "depth_shape fs \<Longrightarrow> foldl field_effect (ev, True) fs = message_effect ev (map_of fs)"
proof (induction fs rule: rev_induct)
  case Nil
  then show ?case
    by (simp add: message_effect_def side_of_def message_time_def number_or_def time_or_def no_levels)
next
  case (snoc f fs)
  obtain k v where f: "f = (k, v)" by (cases f)
  note s = depth_shape_snoc [OF snoc.prems [unfolded f]]
  have m: "map_of (fs @ [f]) = (map_of fs)(k \<mapsto> v)"
    using s by (auto simp: f map_add_def fun_eq_iff split: option.split)
  have "field_effect (message_effect ev (map_of fs)) (k, v) = message_effect ev ((map_of fs)(k \<mapsto> v))"
    using s by (intro message_effect_field) (auto simp: depth_field_shape_def)
  then show ?case
    using snoc.IH s unfolding m by (simp add: f fun_upd_def del: field_effect.simps)
qed

section \<open>The parser on a message\<close>

text \<open>What the accessors return on the document of a message.\<close>

lemma view_value:
  assumes "dom_view lib doc (json_of_fields fs)"
  shows "rel_option (\<lambda>e v. dom_view lib e (json_of_value v)) (dom_key lib doc k) (map_of fs k)"
proof -
  have "map_of (map (map_prod id json_of_value) fs) k = map_option json_of_value (map_of fs k)"
    by (induction fs) auto
  moreover have "rel_option (dom_view lib) (dom_key lib doc k) (map_of (map (map_prod id json_of_value) fs) k)"
    using assms by (simp add: json_of_fields_def dom_view_simps)
  ultimately show ?thesis by (simp add: option.rel_map)
qed

lemma key_int64_view:
  assumes "dom_view lib doc (json_of_fields fs)" "map_of fs k = Some (Num ds)" "all_digits ds" "digits_val ds \<le> INT64_MAX"
  shows "key_int64 lib doc k = Some (digits_val ds)"
  using view_value [OF assms(1), of k] assms(2-4) digits_val_nonneg [of ds]
  by (auto simp: key_int64_def option_rel_Some2 dom_view_simps range_defs)

lemma key_none_view:
  assumes "dom_view lib doc (json_of_fields fs)" "map_of fs k = None"
  shows "key_int64 lib doc k = None" "key_array lib doc k = None"
  using view_value [OF assms(1), of k] assms(2) by (auto simp: key_int64_def key_array_def)

lemma simd_level_view:
  assumes "dom_view lib e (JArr [JStr (fst l), JStr (snd l)])"
  shows "simd_level lib (dst, ok) e = (dst @ good_levels [l], ok \<and> scaled_level l \<noteq> None)"
  using assms
  by (auto simp: dom_view_simps list_all2_Cons2 simd_level_def at_string_def scaled_level_def List.map_filter_def
      split: option.split)

lemma simd_levels_view:
  "list_all2 (dom_view lib) es (map (\<lambda>l. JArr [JStr (fst l), JStr (snd l)]) ls) \<Longrightarrow>
   foldl (simd_level lib) (dst, ok) es = (dst @ good_levels ls, ok \<and> all_scaled ls)"
proof (induction ls arbitrary: es dst ok)
  case Nil
  then show ?case by (simp add: no_levels)
next
  case (Cons l ls)
  then obtain e es' where "es = e # es'" "dom_view lib e (JArr [JStr (fst l), JStr (snd l)])"
      "list_all2 (dom_view lib) es' (map (\<lambda>l. JArr [JStr (fst l), JStr (snd l)]) ls)"
    by (auto simp: list_all2_Cons2)
  with Cons.IH show ?case
    by (auto simp: simd_level_view List.map_filter_def all_scaled_def)
qed

lemma key_array_view:
  assumes "dom_view lib doc (json_of_fields fs)" "map_of fs k = Some (Levels ls)"
  shows "\<exists>es. key_array lib doc k = Some es \<and>
    list_all2 (dom_view lib) es (map (\<lambda>l. JArr [JStr (fst l), JStr (snd l)]) ls)"
  using view_value [OF assms(1), of k] assms(2)
  by (auto simp: key_array_def option_rel_Some2 dom_view_simps(3))

lemma shape_number:
  assumes "depth_shape fs" "map_of fs k = Some v" "k \<in> {''E'', ''T'', ''U'', ''u'', ''pu'', ''lastUpdateId''}"
  shows "\<exists>ds. v = Num ds \<and> all_digits ds \<and> digits_val ds \<le> INT64_MAX"
proof -
  have "depth_field_shape (k, v)"
    using assms(1,2) by (auto simp: depth_shape_def list_all_iff dest: map_of_SomeD)
  then show ?thesis
    using assms(3) by (cases v) (auto simp: depth_field_shape_def wf_field_def)
qed

lemma shape_levels:
  assumes "depth_shape fs" "map_of fs k = Some v" "k \<in> {''b'', ''bids'', ''a'', ''asks''}"
  shows "\<exists>ls. v = Levels ls"
proof -
  have "depth_field_shape (k, v)"
    using assms(1,2) by (auto simp: depth_shape_def list_all_iff dest: map_of_SomeD)
  then show ?thesis
    using assms(3) by (cases v) (auto simp: depth_field_shape_def)
qed

lemma simd_load_view:
  assumes "depth_shape fs" "dom_view lib doc (json_of_fields fs)" "{k1, k2} \<subseteq> {''b'', ''bids'', ''a'', ''asks''}"
  shows "simd_load_levels lib doc k1 k2 dst ok =
    (dst @ good_levels (side_of (map_of fs) k1 k2), ok \<and> all_scaled (side_of (map_of fs) k1 k2))"
proof (cases "map_of fs k1")
  case (Some v)
  then obtain ls where "v = Levels ls" using shape_levels [OF assms(1)] assms(3) by blast
  then show ?thesis
    using key_array_view [OF assms(2), of k1] Some by (auto simp: simd_load_levels_def side_of_def simd_levels_view)
next
  case none1: None
  show ?thesis
  proof (cases "map_of fs k2")
    case (Some v)
    then obtain ls where "v = Levels ls" using shape_levels [OF assms(1)] assms(3) by blast
    then show ?thesis
      using key_array_view [OF assms(2), of k2] key_none_view [OF assms(2) none1] Some none1
      by (auto simp: simd_load_levels_def side_of_def simd_levels_view)
  next
    case None
    then show ?thesis
      using key_none_view [OF assms(2)] none1 by (simp add: simd_load_levels_def side_of_def no_levels)
  qed
qed

text \<open>The number a key has, as \<open>get_int64\<close> returns it and as the built-in reader does.\<close>

lemma small_word:
  assumes "0 \<le> n" "n \<le> INT64_MAX"
  shows "sint (of_int n :: u64) = n"
  using assms by (simp add: sint_sbintrunc' signed_take_bit_int_eq_self INT64_MAX_def)

lemma shape_int64:
  assumes "depth_shape fs" "dom_view lib doc (json_of_fields fs)"
    and "k \<in> {''E'', ''T'', ''U'', ''u'', ''pu'', ''lastUpdateId''}"
  shows "key_int64 lib doc k = map_option (\<lambda>v. sint (number_of v)) (map_of fs k)"
proof (cases "map_of fs k")
  case (Some v)
  then obtain ds where ds: "v = Num ds" "all_digits ds" "digits_val ds \<le> INT64_MAX"
    using shape_number [OF assms(1) _ assms(3)] by blast
  then have "sint (number_of v) = digits_val ds"
    by (simp add: small_word digits_val_nonneg)
  then show ?thesis
    using key_int64_view [OF assms(2)] ds Some by simp
next
  case None
  then show ?thesis using key_none_view [OF assms(2)] by simp
qed

lemma simd_numbers_view:
  assumes "depth_shape fs" "dom_view lib doc (json_of_fields fs)"
  shows "(simd_numbers lib doc ev)\<lparr>ev_bids := bs, ev_asks := as\<rparr> =
    (fst (message_effect ev (map_of fs)))\<lparr>ev_bids := bs, ev_asks := as\<rparr>"
    and "ev_bids (simd_numbers lib doc ev) = ev_bids ev" "ev_asks (simd_numbers lib doc ev) = ev_asks ev"
  by (simp_all add: simd_numbers_def Let_def shape_int64 [OF assms] message_effect_def message_time_def
      time_or_def number_or_def split: option.split)

lemma parse_depth_simd_view:
  assumes "depth_shape fs" "dom_reads lib data (json_of_fields fs)"
  shows "parse_depth_simd lib data out =
    (case message_effect out (map_of fs) of (ev, ok) \<Rightarrow> (ok \<and> has_content ev, ev))"
proof -
  obtain doc where doc: "dom_parse lib data = Some doc" "dom_view lib doc (json_of_fields fs)"
    using assms(2) by (auto simp: dom_reads_def)
  note sides = simd_load_view [OF assms(1) doc(2), of "''b''" "''bids''"] simd_load_view [OF assms(1) doc(2), of "''a''" "''asks''"]
  show ?thesis
    by (simp add: parse_depth_simd_def doc(1) sides simd_numbers_view [OF assms(1) doc(2)] Let_def)
      (auto simp: message_effect_def has_content_def)
qed

text \<open>
  C20: The two builds parse alike.  On every depth message of the exchange's shape (distinct keys in
  any order, unknown keys allowed, numbers below \<open>2 ^ 63\<close>, at most one list per book side, a nonzero
  event time) the parser of a build with simdjson and the built-in parser give the same verdict and
  the same event, starting from any event, provided the library shows the document the text
  denotes.
\<close>

theorem parsers_agree:
  assumes "depth_shape fs" "dom_reads lib (render_message fs) (json_of_fields fs)"
  shows "parse_depth_simd lib (render_message fs) out = parse_depth (render_message fs) out"
proof -
  have "list_all wf_field fs"
    using assms(1) by (auto simp: depth_shape_def depth_field_shape_def list_all_iff)
  from parse_depth_render [OF this] show ?thesis
    by (simp add: parse_depth_simd_view [OF assms] message_effect_fields [OF assms(1)])
qed

text \<open>A library that knows one document: it meets the hypothesis for every JSON value.\<close>

definition json_lib :: "string \<Rightarrow> Json \<Rightarrow> Json Dom" where
  "json_lib data j = \<lparr>
     dom_parse = (\<lambda>s. if s = data then Some j else None),
     dom_key = (\<lambda>e k. case e of JObj ms \<Rightarrow> map_of ms k | _ \<Rightarrow> None),
     dom_int64 = (\<lambda>e. case e of JNum n \<Rightarrow> if in_i64 n then Some n else None | _ \<Rightarrow> None),
     dom_array = (\<lambda>e. case e of JArr js \<Rightarrow> Some js | _ \<Rightarrow> None),
     dom_string = (\<lambda>e. case e of JStr t \<Rightarrow> Some t | _ \<Rightarrow> None)\<rparr>"

lemma json_lib_view: "dom_view (json_lib data j0) j j"
proof (induction j)
  case (JObj ms)
  then have "rel_option (dom_view (json_lib data j0)) (map_of ms k) (map_of ms k)" for k
    by (cases "map_of ms k") (auto dest!: map_of_SomeD)
  then show ?case by (simp add: dom_view_simps json_lib_def)
qed (simp_all add: dom_view_simps json_lib_def list_all2_same)

lemma json_lib_reads: "dom_reads (json_lib data j) data j"
  using json_lib_view [of data j j] by (simp add: dom_reads_def json_lib_def)

theorem parsers_agree_witness:
  "parse_depth_simd (json_lib (render_message sample_fields) (json_of_fields sample_fields))
     (render_message sample_fields) new_DepthEvent =
   parse_depth (render_message sample_fields) new_DepthEvent"
proof (rule parsers_agree)
  show "depth_shape sample_fields" by code_simp
  show "dom_reads (json_lib (render_message sample_fields) (json_of_fields sample_fields))
      (render_message sample_fields) (json_of_fields sample_fields)"
    by (rule json_lib_reads)
qed

section \<open>Malformed levels\<close>

text \<open>A level entry that is no pair of texts leaves no trace in the simdjson build.\<close>

lemma simd_level_malformed:
  assumes "dom_view lib e (JArr [JStr t])"
  shows "simd_level lib st e = st"
  using assms by (auto simp: dom_view_simps list_all2_Cons2 simd_level_def at_string_def split: option.split)

definition short_level_text :: string where
  "short_level_text = ''{'' @ quoted ''u'' @ '':5,'' @ quoted ''b'' @ '':[['' @ quoted ''1'' @ '']],'' @
     quoted ''a'' @ '':[]}''"

definition short_level_json :: Json where
  "short_level_json = JObj [(''u'', JNum 5), (''b'', JArr [JArr [JStr ''1'']]), (''a'', JArr [])]"



end
