(* ===== verification/Shutdown.thy ===== *)
theory Shutdown
  imports Lob_Prelude
begin

text \<open>
  The end of a live run (\<open>src/main.cpp\<close>): the signal handler, the watcher thread that passes a signal
  on to the clients, the shard threads and the main thread that joins them.  Every step is one
  access to an atomic or one \<open>join\<close>, so a run of the relation is an interleaving of the threads.

  A shard thread is its client's stop flag and whether it has returned; why it returns (deadline,
  failed open, stop request) is the subject of \<open>Ws_Client\<close> and \<open>Capture_Main\<close>.
\<close>

section \<open>State and steps\<close>

datatype watcher_pc = CheckDone | CheckSignal | Sleeping | Stopping nat | WatcherEnd
datatype main_pc = JoinShard nat | SetDone | JoinWatcher | MainReturned

record Threads =
  th_g_stop :: bool
  th_workers_done :: bool
  th_stop :: "bool list"
  th_returned :: "bool list"
  th_watcher :: watcher_pc
  th_main :: main_pc

text \<open>The threads when all of them have been created, before the first step of the watcher.\<close>

definition threads_start :: "nat \<Rightarrow> Threads" where
  "threads_start n = \<lparr>th_g_stop = False, th_workers_done = False, th_stop = replicate n False,
     th_returned = replicate n False, th_watcher = CheckDone, th_main = JoinShard 0\<rparr>"

text \<open>The handler of SIGINT and SIGTERM.\<close>

definition on_signal :: "Threads \<Rightarrow> Threads" where
  "on_signal s = s\<lparr>th_g_stop := True\<rparr>"

datatype thread_act = Signal | Shard nat | Watcher | MainThread

definition watcher_next :: "Threads \<Rightarrow> Threads" where
  "watcher_next s =
     (case th_watcher s of
        CheckDone \<Rightarrow> s\<lparr>th_watcher := (if th_workers_done s then WatcherEnd else CheckSignal)\<rparr>
      | CheckSignal \<Rightarrow> s\<lparr>th_watcher := (if th_g_stop s then Stopping 0 else Sleeping)\<rparr>
      | Sleeping \<Rightarrow> s\<lparr>th_watcher := CheckDone\<rparr>
      | Stopping k \<Rightarrow>
          (if k < length (th_stop s) then s\<lparr>th_stop := (th_stop s)[k := True], th_watcher := Stopping (k + 1)\<rparr>
           else s\<lparr>th_watcher := WatcherEnd\<rparr>)
      | WatcherEnd \<Rightarrow> s)"

inductive thread_step :: "Threads \<Rightarrow> thread_act list \<Rightarrow> Threads \<Rightarrow> bool" where
  t_signal: "thread_step s [Signal] (on_signal s)"
| t_return: "i < length (th_returned s) \<Longrightarrow> \<not> th_returned s ! i \<Longrightarrow>
    thread_step s [Shard i] (s\<lparr>th_returned := (th_returned s)[i := True]\<rparr>)"
| t_watcher: "th_watcher s \<noteq> WatcherEnd \<Longrightarrow> thread_step s [Watcher] (watcher_next s)"
| t_join: "th_main s = JoinShard i \<Longrightarrow> i < length (th_returned s) \<Longrightarrow> th_returned s ! i \<Longrightarrow>
    thread_step s [MainThread] (s\<lparr>th_main := JoinShard (i + 1)\<rparr>)"
| t_joined: "th_main s = JoinShard i \<Longrightarrow> i = length (th_returned s) \<Longrightarrow>
    thread_step s [MainThread] (s\<lparr>th_main := SetDone\<rparr>)"
| t_done: "th_main s = SetDone \<Longrightarrow>
    thread_step s [MainThread] (s\<lparr>th_workers_done := True, th_main := JoinWatcher\<rparr>)"
| t_end: "th_main s = JoinWatcher \<Longrightarrow> th_watcher s = WatcherEnd \<Longrightarrow>
    thread_step s [MainThread] (s\<lparr>th_main := MainReturned\<rparr>)"

abbreviation thread_run :: "Threads \<Rightarrow> thread_act list \<Rightarrow> Threads \<Rightarrow> bool" where
  "thread_run \<equiv> system_run thread_step"

section \<open>The invariant\<close>

definition threads_inv :: "nat \<Rightarrow> Threads \<Rightarrow> bool" where
  "threads_inv n s \<longleftrightarrow>
     length (th_stop s) = n \<and> length (th_returned s) = n \<and>
     (case th_main s of
        JoinShard i \<Rightarrow> i \<le> n \<and> (\<forall>j < i. th_returned s ! j) \<and> \<not> th_workers_done s
      | SetDone \<Rightarrow> (\<forall>j < n. th_returned s ! j) \<and> \<not> th_workers_done s
      | JoinWatcher \<Rightarrow> (\<forall>j < n. th_returned s ! j) \<and> th_workers_done s
      | MainReturned \<Rightarrow> (\<forall>j < n. th_returned s ! j) \<and> th_workers_done s \<and> th_watcher s = WatcherEnd) \<and>
     (case th_watcher s of
        Stopping k \<Rightarrow> th_g_stop s \<and> k \<le> n \<and> (\<forall>j < k. th_stop s ! j)
      | WatcherEnd \<Rightarrow> th_workers_done s \<or> th_g_stop s \<and> (\<forall>j < n. th_stop s ! j)
      | _ \<Rightarrow> True)"

lemma threads_inv_start: "threads_inv n (threads_start n)"
  by (simp add: threads_inv_def threads_start_def)

lemma threads_inv_watcher: "threads_inv n s \<Longrightarrow> th_watcher s \<noteq> WatcherEnd \<Longrightarrow> threads_inv n (watcher_next s)"
  by (cases "th_watcher s"; cases "th_main s")
    (auto simp: threads_inv_def watcher_next_def less_Suc_eq nth_list_update)

lemma threads_inv_step:
  assumes "thread_step s a s'" "threads_inv n s"
  shows "threads_inv n s'"
  using assms(1)
proof cases
  case t_watcher
  with assms(2) show ?thesis by (simp add: threads_inv_watcher)
qed (use assms(2) in \<open>auto simp: threads_inv_def on_signal_def less_Suc_eq nth_list_update split: main_pc.splits watcher_pc.splits\<close>)

interpretation threads: guarded_system thread_step "\<lambda>_. threads_inv n" for n
  by unfold_locales (rule threads_inv_step)

section \<open>After a signal\<close>

text \<open>What is left to do once the signal has been seen or will be.\<close>

definition watcher_left :: "nat \<Rightarrow> watcher_pc \<Rightarrow> nat" where
  "watcher_left n w =
     (case w of Sleeping \<Rightarrow> n + 4 | CheckDone \<Rightarrow> n + 3 | CheckSignal \<Rightarrow> n + 2 | Stopping k \<Rightarrow> n + 1 - k | WatcherEnd \<Rightarrow> 0)"

definition main_left :: "nat \<Rightarrow> main_pc \<Rightarrow> nat" where
  "main_left n p = (case p of JoinShard i \<Rightarrow> n + 3 - i | SetDone \<Rightarrow> 2 | JoinWatcher \<Rightarrow> 1 | MainReturned \<Rightarrow> 0)"

definition shards_left :: "Threads \<Rightarrow> nat" where
  "shards_left s = length (filter Not (th_returned s))"

definition steps_left :: "nat \<Rightarrow> Threads \<Rightarrow> nat" where
  "steps_left n s = watcher_left n (th_watcher s) + main_left n (th_main s) + shards_left s"

lemma filter_returned:
  "i < length bs \<Longrightarrow> \<not> bs ! i \<Longrightarrow> Suc (length (filter Not (bs[i := True]))) = length (filter Not bs)"
proof (induction bs arbitrary: i)
  case (Cons b bs)
  then show ?case by (cases i) auto
qed simp

text \<open>Every step of a thread is one less to do; another signal changes nothing.\<close>

lemma steps_left_step:
  assumes "thread_step s a s'" "threads_inv n s" "th_g_stop s"
  shows "th_g_stop s' \<and> length (filter (\<lambda>a. a \<noteq> Signal) a) + steps_left n s' \<le> steps_left n s"
  using assms(1)
proof cases
  case (t_return i)
  then show ?thesis
    using filter_returned [of i "th_returned s"] assms(3) by (simp add: steps_left_def shards_left_def)
next
  case t_watcher
  then show ?thesis
    using assms(2,3)
    by (cases "th_watcher s")
      (auto simp: watcher_next_def steps_left_def shards_left_def watcher_left_def threads_inv_def)
qed (use assms in \<open>auto simp: steps_left_def shards_left_def main_left_def threads_inv_def on_signal_def\<close>)

lemma steps_left_run:
  assumes "thread_run s as s'" "threads_inv n s" "th_g_stop s"
  shows "th_g_stop s' \<and> threads_inv n s' \<and> length (filter (\<lambda>a. a \<noteq> Signal) as) + steps_left n s' \<le> steps_left n s"
  using assms
proof (induction rule: system_run.induct)
  case (run_step s as s' a s'')
  then have "th_g_stop s'" "threads_inv n s'" and IH: "length (filter (\<lambda>a. a \<noteq> Signal) as) + steps_left n s' \<le> steps_left n s"
    by simp_all
  with steps_left_step [OF run_step.hyps(2), of n] threads_inv_step [OF run_step.hyps(2)] show ?case
    by auto
qed simp

lemma steps_left_bound: "threads_inv n s \<Longrightarrow> steps_left n s \<le> 3 * n + 7"
proof -
  assume inv: "threads_inv n s"
  have "watcher_left n (th_watcher s) \<le> n + 4"
    by (cases "th_watcher s") (simp_all add: watcher_left_def)
  moreover have "main_left n (th_main s) \<le> n + 3"
    by (cases "th_main s") (simp_all add: main_left_def)
  moreover have "shards_left s \<le> n"
    using inv length_filter_le [of Not "th_returned s"] by (simp add: shards_left_def threads_inv_def)
  ultimately show ?thesis by (simp add: steps_left_def)
qed

text \<open>Who can go on: a thread of the process, or a shard whose client has been stopped.\<close>

definition can_go_on :: "Threads \<Rightarrow> bool" where
  "can_go_on s \<longleftrightarrow> (\<exists>s'. thread_step s [Watcher] s' \<or> thread_step s [MainThread] s') \<or>
     (\<exists>i s'. thread_step s [Shard i] s' \<and> th_stop s ! i)"

lemma not_stuck:
  assumes inv: "threads_inv n s" and "th_main s \<noteq> MainReturned"
  shows "can_go_on s"
proof (cases "th_watcher s = WatcherEnd")
  case False
  then show ?thesis using t_watcher by (auto simp: can_go_on_def)
next
  case ended: True
  show ?thesis
  proof (cases "th_main s")
    case (JoinShard i)
    with inv have i: "i \<le> n" "length (th_returned s) = n" "\<forall>j < n. th_stop s ! j"
      using ended by (auto simp: threads_inv_def)
    then show ?thesis
      using t_joined [of s i] t_join [of s i] t_return [of i s] JoinShard unfolding can_go_on_def
      by (metis le_neq_implies_less)
  next
    case SetDone
    then show ?thesis using t_done [of s] by (auto simp: can_go_on_def)
  next
    case JoinWatcher
    then show ?thesis using t_end [of s] ended by (auto simp: can_go_on_def)
  qed (use assms(2) in simp)
qed

text \<open>
  C19: A signal ends the process.  In every interleaving of signals, shard threads, watcher and main
  thread: once a signal has been handled, at most \<open>3 n + 7\<close> further steps are taken in total by the
  threads of \<open>n\<close> shards (the watcher cannot go on polling), and until \<open>main\<close> returns there is always a
  step that the watcher or the main thread can take or a shard still to return whose client has been
  told to stop.  When \<open>main\<close> returns, all shards have returned.
\<close>

theorem signal_ends_process:
  assumes "thread_run (threads_start n) before s" "th_g_stop s" "thread_run s after s'"
  shows "length (filter (\<lambda>a. a \<noteq> Signal) after) \<le> 3 * n + 7 \<and>
    (if th_main s' = MainReturned then list_all id (th_returned s') else can_go_on s')"
proof -
  have inv: "threads_inv n s"
    using threads.run_inv [OF assms(1) threads_inv_start] .
  note left = steps_left_run [OF assms(3) inv assms(2)]
  have "list_all id (th_returned s')" if "th_main s' = MainReturned"
    using left that by (auto simp: threads_inv_def list_all_length)
  with left steps_left_bound [OF inv] not_stuck [of n s'] show ?thesis by auto
qed

theorem signal_ends_process_witness:
  "can_go_on ((threads_start 2)\<lparr>th_g_stop := True, th_watcher := CheckSignal\<rparr>)"
proof -
  let ?s = "(threads_start 2)\<lparr>th_g_stop := True\<rparr>"
  have "thread_run (threads_start 2) [Signal] ?s"
    using run_single [where step = thread_step, OF t_signal] by (simp add: on_signal_def)
  moreover have "thread_step ?s [Watcher] (?s\<lparr>th_watcher := CheckSignal\<rparr>)"
    using t_watcher [of ?s] by (simp add: threads_start_def watcher_next_def)
  then have "thread_run ?s [Watcher] (?s\<lparr>th_watcher := CheckSignal\<rparr>)"
    by (rule run_single)
  ultimately show ?thesis
    using signal_ends_process [of 2 "[Signal]" ?s "[Watcher]" "?s\<lparr>th_watcher := CheckSignal\<rparr>"]
    by (simp add: threads_start_def)
qed

end
