(* ===== verification/Spec2Isabelle.thy ===== *)
theory Spec2Isabelle
  imports Capture_Files Capture_Main Live_Ranges Live_Follows Json_Simd Shutdown
begin

text \<open>
  Verification of \<open>binance-lob-capture\<close>, a recorder of Binance market data.

  \<^bold>\<open>The program.\<close>  A live run (\<open>src/main.cpp\<close>) reads its command line, distributes the symbols over
  shards and runs one shard per WebSocket connection.  The client of a shard
  (\<open>src/ws_client_beast.cpp\<close>) connects, reconnects with backoff and hands every frame to the shard's
  message handler with a connection epoch and a sequence number.  The handler splits the envelope and
  parses depth messages (\<open>src/json_min.cpp\<close>), writes one audit row per message, keeps a book session
  per symbol (\<open>src/book_session.cpp\<close> over \<open>src/order_book.cpp\<close>), fetches a REST snapshot when the
  session needs one (\<open>src/snapshot_beast.cpp\<close>), records it in a sidecar, and writes an order-book row
  for every applied diff, every depth5 message and, on request, every trade.  Rows are formatted and
  handed to a sink (\<open>src/csv_writer.cpp\<close>) whose writer thread drains a lock-free ring
  (\<open>include/spsc_ring.hpp\<close>).  A replay (\<open>src/replay.cpp\<close>) rebuilds the order-book files from an audit
  file and its sidecar.

  \<^bold>\<open>The theories\<close>, in the order of the components:
  \<^item> \<open>Lob_Prelude\<close>: machine types, shared lemmas, runs of a step relation, and the interfaces
    \<open>transition_system\<close>, \<open>guarded_system\<close> and \<open>codec\<close>.
  \<^item> \<open>Lob_Types\<close> (\<open>include/types.hpp\<close>).
  \<^item> \<open>Top_Cache\<close>, \<open>Order_Book\<close> (\<open>order_book.hpp/.cpp\<close>): the cache arrays with their shifting loops,
    the book with its hash maps as association lists.  The abstract book is two finite maps with the
    sequence rules on unbounded numbers; the book refines it, and the rows show its five best levels.
  \<^item> \<open>Depth_Event\<close>, \<open>Book_Session\<close> (\<open>book_session.hpp/.cpp\<close>): buffering, resynchronisation and the
    replay loop.  An initialized book equals the exchange's book at its update id, under the
    documented meaning of diffs and snapshots; the buffer is bounded and the session fails closed.
  \<^item> \<open>Decimal\<close>, \<open>Json_Min\<close> (\<open>json_min.hpp/.cpp\<close>): exact decimal scaling without overflow of the 128-bit
    intermediate values, the number formats and conversions of the C library that the program uses,
    the envelope splitter and the one-pass depth parser with all its index arithmetic.
  \<^item> \<open>Json_Simd\<close>: the depth parser of a build with \<open>USE_SIMDJSON\<close> over the accessors of that library,
    its equivalence with the built-in parser, and a malformed message on which the two differ.
  \<^item> \<open>Csv_Text\<close> (\<open>csv_writer.cpp\<close>, the line parser of \<open>replay.cpp\<close>): escaping, row formats with their
    fixed buffers, round trips.
  \<^item> \<open>App_Config\<close> (\<open>config.hpp/.cpp\<close>): command line, sharding, stream names.
  \<^item> \<open>Spsc_Ring\<close> (\<open>spsc_ring.hpp\<close>): the ring as a bounded queue (interface \<open>record_queue\<close>), and the two
    threads as a step relation in which an acquire load may return any value at least as new as the
    last one read.
  \<^item> \<open>Csv_Sink\<close> (\<open>CsvSink\<close> of \<open>csv_writer.cpp\<close>): owner and writer thread over the ring; writes and flushes
    may fail, and a failed flush goes unreported.
  \<^item> \<open>Capture_Rows\<close>: counters (\<open>metrics.hpp\<close>) and the rows that live run and replay build alike.
  \<^item> \<open>Snapshot_Fetch\<close> (\<open>snapshot_beast.cpp\<close>, \<open>snapshot_stub.cpp\<close>).
  \<^item> \<open>Live_Shard\<close> (handler and resynchronisation in \<open>run_shard\<close> of \<open>main.cpp\<close>): the state of a shard is a
    record with the rows of its files; one message is one step.
  \<^item> \<open>Live_Ranges\<close>: the range invariant of a shard, from which every row fits its buffer.
  \<^item> \<open>Replay\<close>, \<open>Replay_Live\<close> (\<open>replay.cpp\<close>): the replay on file contents, and the simulation that shows
    that it reproduces the rows of the live run from the texts that the live run wrote.
  \<^item> \<open>Live_Follows\<close>: book, session and handler together.  The rows of a live shard show the best levels of
    the exchange's own book.
  \<^item> \<open>Capture_Files\<close> (\<open>MarketDataWriter\<close>, \<open>OrderBookWriter\<close>): the writers over their sinks in both modes, and
    the replay of the bytes that have reached the disk.
  \<^item> \<open>System_Clock\<close> (\<open>now_ts\<close>, \<open>utc_date\<close> of \<open>main.cpp\<close>): time stamps and the calendar.
  \<^item> \<open>Ws_Client\<close> (\<open>ws_client_beast.cpp\<close>, \<open>ws_client_stub.cpp\<close>): the reconnect loop as a step relation
    with time, stop requests and the outcomes of the network operations.
  \<^item> \<open>Shared_Metrics\<close>: shards in parallel over shared counters.
  \<^item> \<open>Shutdown\<close> (signal handler, watcher and joins of \<open>main.cpp\<close>): an interleaving of the threads in which a
    signal ends the process.
  \<^item> \<open>Capture_Main\<close> (\<open>run_shard\<close>, \<open>main\<close>): file names, exit codes, and the shard with the live client.

  \<^bold>\<open>How components meet.\<close>  A shard is a \<open>transition_system\<close> over delivered messages, so that its
  invariant holds after every run; the sinks and the threads of the process are \<open>guarded_system\<close>s; the ring is a \<open>record_queue\<close>; number and row formats are \<open>codec\<close>s
  with the conversions of the reader as decoders, and \<open>Replay_Live\<close> uses these to go from the rows of
  a live run through the two files to the rows of the replay.  \<open>Capture_Main\<close> joins the client's
  numbering with the shard's audit rows, \<open>Capture_Files\<close> the rows with the bytes on disk, and the
  property at the end of this theory the exit code of the process with these bytes.

  \<^bold>\<open>Bounds and fuel.\<close>  The loops of the parsers recurse on the position in the text with a termination
  proof; the drain loop of the ring counts down the number of slots, which is the most it can find.
  \<open>signal_ends_process\<close> bounds the steps after a signal by \<open>3 n + 7\<close> for \<open>n\<close> shards.
  \<open>uint64_t\<close> values are words that wrap; the proofs show where this cannot happen (the update id rule,
  the connection epoch) and allow it elsewhere (counters).

  \<^bold>\<open>Assumptions.\<close>  Network, clock, file system and thread scheduling are inputs.  Hypotheses of the
  properties are: clock readings are values of their types (\<open>now_ts_exact\<close>: those of the program are),
  the year of the date is at most 9999, the exchange reports what its documentation says
  (\<open>session_follows_exchange\<close> and \<open>live_rows_follow_exchange\<close> only), recorded payloads
  hold no line break and depth payloads and requested snapshots parse (\<open>replay_reproduces_live\<close>
  only), and the accessors of simdjson show the document that a text denotes (\<open>Json_Simd\<close> only).

  \<^bold>\<open>Not modelled.\<close>  The network and JSON libraries themselves; the creation of threads; memory
  allocation; the diagnostics on the standard error other than the usage, the error line and the
  counters; the unit tests and the build files.
\<close>

section \<open>The exit code and the disk\<close>

text \<open>
  The sinks of a run, by file name; a shard has used its sinks as its state says; its files are on
  disk.
\<close>

definition file_sinks_served :: "World \<Rightarrow> Config \<Rightarrow> (string \<Rightarrow> CsvSink) \<Rightarrow> nat \<Rightarrow> Shard \<Rightarrow> bool" where
  "file_sinks_served w cfg sinks i sh \<longleftrightarrow>
     (let g = shard_symbols (cfg_symbols cfg) (cfg_shards cfg) ! i;
          date = utc_date (wd_time w i);
          async = \<not> cfg_sync_writes cfg
      in served_writer (md_open True async) (map md_row_text (sh_md sh)) (sinks (md_path cfg i g date)) \<and>
         served_writer (snaps_open True async) (map snap_row_text (sh_snaps sh)) (sinks (snap_path cfg i g date)) \<and>
         list_all (\<lambda>(s, st). served_writer (ob_open True async) (map ob_row (ss_rows st)) (sinks (ob_path cfg date s)))
           (sh_syms sh))"

definition files_on_disk :: "World \<Rightarrow> Config \<Rightarrow> (string \<Rightarrow> CsvSink) \<Rightarrow> nat \<Rightarrow> Shard \<Rightarrow> bool" where
  "files_on_disk w cfg sinks i sh \<longleftrightarrow>
     (let g = shard_symbols (cfg_symbols cfg) (cfg_shards cfg) ! i;
          date = utc_date (wd_time w i)
      in md_file sh = Some (sk_disk (sinks (md_path cfg i g date))) \<and>
         snap_file sh = Some (sk_disk (sinks (snap_path cfg i g date))) \<and>
         list_all (\<lambda>(s, st). file_of ob_header (map ob_row (ss_rows st)) = Some (sk_disk (sinks (ob_path cfg date s))))
           (sh_syms sh))"

text \<open>A shard that succeeds has a state, whose symbols are those of its group.\<close>

lemma clean_shard_runs:
  assumes "i < length (shard_symbols (cfg_symbols cfg) (cfg_shards cfg))" "cfg_symbols cfg \<noteq> []"
    and "exit_code (map fst (run_shards w cfg)) = 0"
  shows "\<exists>sh. snd (snd (run_shards w cfg ! i)) = Some sh \<and>
    fst ` set (sh_syms sh) = set (shard_symbols (cfg_symbols cfg) (cfg_shards cfg) ! i) \<and>
    shard_clean w cfg i (shard_symbols (cfg_symbols cfg) (cfg_shards cfg) ! i)"
proof -
  let ?g = "shard_symbols (cfg_symbols cfg) (cfg_shards cfg) ! i"
  have g: "?g \<noteq> []"
    using assms(1) shard_count_le [OF assms(2)] by (simp add: shard_symbols_eq shard_of_nonempty)
  then have "shard_clean w cfg i ?g"
    using assms(1,3) by (auto simp: run_shards_zero Let_def list_all_iff)
  moreover have "fst ` set (sh_syms (foldl (deliver cfg (int i)) (new_Shard cfg (dedup ?g) new_Metrics) ds)) = set ?g" for ds
    using arg_cong [OF run_symbols [of cfg "int i" "new_Shard cfg (dedup ?g) new_Metrics" ds], of set]
    by (simp add: new_Shard_def image_image)
  ultimately show ?thesis
    using g assms(1)
    by (auto simp: run_shards_def run_shard_def shard_clean_def shard_paths_def Let_def list.pred_map comp_def
        split: prod.split)
qed


text \<open>A capture of one symbol during which nothing arrives.\<close>

definition quiet_config :: Config where
  "quiet_config = new_Config\<lparr>cfg_symbols := [''BTC''], cfg_sync_writes := True\<rparr>"

definition quiet_world :: World where
  "quiet_world = \<lparr>wd_mkdir = (\<lambda>_. None), wd_read = (\<lambda>_. None), wd_open_ok = (\<lambda>_. True), wd_write_failed = (\<lambda>_. False),
     wd_time = (\<lambda>_. 1735603200),
     wd_client = (\<lambda>_ _. \<lparr>cr_deliveries = [], cr_rc = 0, cr_reconnects = 0, cr_handler_errors = 0\<rparr>)\<rparr>"


end
